(* ===== verification/Prelude.thy ===== *)
theory Prelude
  imports Main "HOL-Library.Word"
begin

text \<open>
  The vocabulary the components share: the machine integers of the Rust sources as words, fallible
  results as sums, byte order conversions, slices and chunks of byte buffers, and wrap-around
  sequence-number comparison.  A \<^verbatim>\<open>usize\<close> is a \<open>nat\<close>; microsecond clocks
  (\<^verbatim>\<open>u64\<close> counters fed in by the caller) are \<open>nat\<close> as well, since they would need
  half a million years to wrap.
\<close>

unbundle bit_operations_syntax

section \<open>Types\<close>

type_synonym u8 = "8 word"
type_synonym u16 = "16 word"
type_synonym u32 = "32 word"
type_synonym u64 = "64 word"
type_synonym bytes = "u8 list"

text \<open>\<^verbatim>\<open>Result<T, E>\<close>: the error on the left.\<close>

type_synonym ('e, 'a) result = "'e + 'a"

named_theorems wire_simps \<open>definitions that encoders and decoders unfold to\<close>
named_theorems size_simps \<open>lengths of encoded messages\<close>

section \<open>Results\<close>

text \<open>The \<^verbatim>\<open>?\<close> operator: hand an error on, continue with a value.\<close>

definition res_bind :: "('e, 'a) result \<Rightarrow> ('a \<Rightarrow> ('e, 'b) result) \<Rightarrow> ('e, 'b) result" where
  "res_bind m f = (case m of Inl e \<Rightarrow> Inl e | Inr x \<Rightarrow> f x)"

lemma res_bind_simps [simp]:
  "res_bind (Inl e) f = Inl e"
  "res_bind (Inr x) f = f x"
  by (simp_all add: res_bind_def)

lemma res_bind_eq_Inr: "res_bind m f = Inr y \<longleftrightarrow> (\<exists>x. m = Inr x \<and> f x = Inr y)"
  by (cases m) auto

text \<open>\<^verbatim>\<open>.ok()\<close>: forget the error.\<close>

definition res_ok :: "('e, 'a) result \<Rightarrow> 'a option" where
  "res_ok m = (case m of Inl _ \<Rightarrow> None | Inr x \<Rightarrow> Some x)"

lemma res_ok_simps [simp]: "res_ok (Inl e) = None" "res_ok (Inr x) = Some x"
  by (simp_all add: res_ok_def)

section \<open>Byte order\<close>

primrec to_le_bytes :: "nat \<Rightarrow> 'a::len word \<Rightarrow> bytes" where
  "to_le_bytes 0 w = []"
| "to_le_bytes (Suc n) w = ucast w # to_le_bytes n (drop_bit 8 w)"

primrec from_le_bytes :: "bytes \<Rightarrow> 'a::len word" where
  "from_le_bytes [] = 0"
| "from_le_bytes (b # bs) = ucast b OR push_bit 8 (from_le_bytes bs)"

definition to_be_bytes :: "nat \<Rightarrow> 'a::len word \<Rightarrow> bytes" where
  "to_be_bytes n w = rev (to_le_bytes n w)"

definition from_be_bytes :: "bytes \<Rightarrow> 'a::len word" where
  "from_be_bytes bs = from_le_bytes (rev bs)"

lemma length_to_le_bytes [simp]: "length (to_le_bytes n w) = n"
  by (induction n arbitrary: w) auto

lemma length_to_be_bytes [simp]: "length (to_be_bytes n w) = n"
  by (simp add: to_be_bytes_def)

lemma from_to_le_bytes_take_bit: "from_le_bytes (to_le_bytes n w) = take_bit (8 * n) w"
proof (induction n arbitrary: w)
  case (Suc n)
  show ?case by (rule bit_word_eqI) (auto simp: Suc.IH bit_simps)
qed simp

lemma take_bit_word_full: "LENGTH('a) \<le> n \<Longrightarrow> take_bit n (w :: 'a::len word) = w"
  by (simp add: take_bit_word_eq_self)

lemma from_to_le_bytes:
  "LENGTH('a) \<le> 8 * n \<Longrightarrow> from_le_bytes (to_le_bytes n (w :: 'a::len word)) = w"
  by (simp add: from_to_le_bytes_take_bit take_bit_word_full)

lemma from_to_be_bytes:
  "LENGTH('a) \<le> 8 * n \<Longrightarrow> from_be_bytes (to_be_bytes n (w :: 'a::len word)) = w"
  by (simp add: from_be_bytes_def to_be_bytes_def from_to_le_bytes)

text \<open>The four widths the wire uses, as rewrite rules.\<close>

lemma wire_word_roundtrips [simp]:
  "from_be_bytes (to_be_bytes 2 (a :: u16)) = a"
  "from_be_bytes (to_be_bytes 4 (b :: u32)) = b"
  "from_be_bytes (to_be_bytes 8 (c :: u64)) = c"
  "from_le_bytes (to_le_bytes 2 (a :: u16)) = a"
  "from_le_bytes (to_le_bytes 4 (b :: u32)) = b"
  "from_le_bytes (to_le_bytes 8 (c :: u64)) = c"
  by (simp_all add: from_to_be_bytes from_to_le_bytes)

lemma bit_from_le_bytes_bound:
  "bit (from_le_bytes bs :: 'a::len word) n \<Longrightarrow> n < 8 * length bs"
proof (induction bs arbitrary: n)
  case (Cons b bs)
  then show ?case by (fastforce simp: bit_simps dest: bit_imp_le_length)
qed simp

lemma to_from_le_bytes:
  "8 * length bs \<le> LENGTH('a::len) \<Longrightarrow> to_le_bytes (length bs) (from_le_bytes bs :: 'a word) = bs"
proof (induction bs)
  case (Cons c bs)
  have low: "ucast (from_le_bytes (c # bs) :: 'a word) = c"
    by (rule bit_word_eqI) (use Cons.prems in \<open>auto simp: bit_simps\<close>)
  have high: "drop_bit 8 (from_le_bytes (c # bs) :: 'a word) = from_le_bytes bs"
  proof (rule bit_word_eqI)
    fix n assume "n < LENGTH('a)"
    show "bit (drop_bit 8 (from_le_bytes (c # bs) :: 'a word)) n = bit (from_le_bytes bs :: 'a word) n"
      using Cons.prems bit_from_le_bytes_bound[of bs n, where 'a = 'a]
      by (auto simp: bit_simps dest: bit_imp_le_length)
  qed
  show ?case using Cons low high by simp
qed simp

section \<open>Nibbles\<close>

text \<open>\<^verbatim>\<open>x & 0x0F\<close>, \<^verbatim>\<open>x >> 4\<close> and \<^verbatim>\<open>(hi << 4) | lo\<close> on bytes.\<close>

definition lo_nibble :: "u8 \<Rightarrow> u8" where
  "lo_nibble x = x AND 0x0F"

definition hi_nibble :: "u8 \<Rightarrow> u8" where
  "hi_nibble x = drop_bit 4 x"

definition pack_nibbles :: "u8 \<Rightarrow> u8 \<Rightarrow> u8" where
  "pack_nibbles hi lo = push_bit 4 hi OR lo"

lemma lo_nibble_take_bit: "lo_nibble x = take_bit 4 x"
  by (simp add: lo_nibble_def take_bit_eq_mask mask_eq_exp_minus_1)

lemma lo_nibble_idem [simp]: "lo_nibble (lo_nibble x) = lo_nibble x"
  by (simp add: lo_nibble_take_bit)

lemma unat_lo_nibble: "unat (lo_nibble x) = unat x mod 16"
  by (simp add: lo_nibble_take_bit take_bit_eq_mod unat_mod)

lemma unat_hi_nibble: "unat (hi_nibble x) = unat x div 16"
  by (simp add: hi_nibble_def drop_bit_eq_div unat_div)

lemma lo_nibble_less: "unat (lo_nibble x) < 16"
  by (simp add: unat_lo_nibble)

lemma hi_nibble_less: "unat (hi_nibble x) < 16"
  using unsigned_less[of x, where 'a = nat] by (simp add: unat_hi_nibble)

lemma lo_nibble_small: "unat x < 16 \<Longrightarrow> lo_nibble x = x"
  by (simp add: word_unat_eq_iff unat_lo_nibble)

lemma hi_pack_nibbles [simp]: "hi_nibble (pack_nibbles (lo_nibble h) (lo_nibble l)) = lo_nibble h"
  unfolding hi_nibble_def pack_nibbles_def lo_nibble_take_bit
  by (rule bit_word_eqI) (auto simp: bit_simps)

lemma lo_pack_nibbles [simp]: "lo_nibble (pack_nibbles h (lo_nibble l)) = lo_nibble l"
  unfolding pack_nibbles_def lo_nibble_take_bit
  by (rule bit_word_eqI) (auto simp: bit_simps)

lemma pack_hi_lo_nibbles: "pack_nibbles (hi_nibble x) (lo_nibble x) = x"
  unfolding pack_nibbles_def lo_nibble_take_bit hi_nibble_def
  by (rule bit_word_eqI) (auto simp: bit_simps)

section \<open>Slices and chunks\<close>

text \<open>\<^verbatim>\<open>&data[a..b]\<close> for in-range bounds; the decoders check the length first.\<close>

definition bslice :: "nat \<Rightarrow> nat \<Rightarrow> 'a list \<Rightarrow> 'a list" where
  "bslice a b xs = take (b - a) (drop a xs)"

lemma length_bslice [simp]: "length (bslice a b xs) = min (b - a) (length xs - a)"
  by (simp add: bslice_def)

lemma bslice_append_left [simp]: "bslice 0 (length xs) (xs @ ys) = xs"
  by (simp add: bslice_def)

lemma bslice_append_skip:
  "length xs \<le> a \<Longrightarrow> bslice a b (xs @ ys) = bslice (a - length xs) (b - length xs) ys"
  by (simp add: bslice_def)

lemma bslice_append_take:
  "b \<le> length xs \<Longrightarrow> bslice a b (xs @ ys) = bslice a b xs"
  by (cases "a \<le> b") (simp_all add: bslice_def)

lemma bslice_all: "length xs \<le> b \<Longrightarrow> bslice 0 b xs = xs"
  by (simp add: bslice_def)

lemma bslice_Cons: "0 < a \<Longrightarrow> bslice a b (x # xs) = bslice (a - 1) (b - 1) xs"
  by (cases a) (simp_all add: bslice_def)

lemma nth_append_skip: "length xs \<le> n \<Longrightarrow> (xs @ ys) ! n = ys ! (n - length xs)"
  by (simp add: nth_append)

lemma drop_append_skip: "length xs \<le> n \<Longrightarrow> drop n (xs @ ys) = drop (n - length xs) ys"
  by simp

lemma drop_Cons_skip: "0 < n \<Longrightarrow> drop n (x # xs) = drop (n - 1) xs"
  by (simp add: drop_Cons')

lemmas bslice_simps = bslice_append_skip bslice_append_take bslice_all bslice_Cons

text \<open>\<^verbatim>\<open>data.chunks(n)\<close>; Rust panics on \<^verbatim>\<open>n == 0\<close>, which the callers rule out.\<close>

function chunks :: "nat \<Rightarrow> 'a list \<Rightarrow> 'a list list" where
  "chunks n xs = (if n = 0 \<or> xs = [] then [] else take n xs # chunks n (drop n xs))"
  by pat_completeness auto
termination
  by (relation "measure (\<lambda>(n, xs). length xs)") auto

declare chunks.simps [simp del]

lemma chunks_Nil [simp]: "chunks n [] = []"
  by (subst chunks.simps) simp

lemma chunks_step: "0 < n \<Longrightarrow> xs \<noteq> [] \<Longrightarrow> chunks n xs = take n xs # chunks n (drop n xs)"
  by (subst chunks.simps) simp

lemma concat_chunks [simp]: "0 < n \<Longrightarrow> concat (chunks n xs) = xs"
proof (induction n xs rule: chunks.induct)
  case (1 n xs)
  then show ?case by (cases "xs = []") (simp_all add: chunks_step)
qed

lemma chunks_bound: "c \<in> set (chunks n xs) \<Longrightarrow> 0 < length c \<and> length c \<le> n"
proof (induction n xs rule: chunks.induct)
  case (1 n xs)
  then show ?case
    by (cases "n = 0 \<or> xs = []") (auto simp: chunks.simps[of n xs])
qed

lemma chunks_eq_Nil_iff: "0 < n \<Longrightarrow> chunks n xs = [] \<longleftrightarrow> xs = []"
  by (subst chunks.simps) simp

lemma chunks_single: "xs \<noteq> [] \<Longrightarrow> length xs \<le> n \<Longrightarrow> chunks n xs = [xs]"
  by (cases xs) (auto simp: chunks_step)

lemma chunks_append_full:
  "0 < n \<Longrightarrow> length xs = n \<Longrightarrow> chunks n (xs @ ys) = xs # chunks n ys"
  by (subst chunks.simps) auto

text \<open>Cutting a concatenation of equally long pieces gives the pieces back.\<close>

lemma chunks_concat_map:
  "0 < n \<Longrightarrow> (\<And>x. x \<in> set xs \<Longrightarrow> length (f x) = n) \<Longrightarrow>
   chunks n (concat (map f xs)) = map f xs"
  by (induction xs) (simp_all add: chunks_append_full)

lemma length_concat_map_const:
  "(\<And>x. x \<in> set xs \<Longrightarrow> length (f x) = n) \<Longrightarrow> length (concat (map f xs)) = length xs * n"
  by (induction xs) simp_all

section \<open>Fixed-width tables\<close>

text \<open>
  Several envelopes carry a count and then that many entries of one width.  Skipping \<open>i\<close> entries
  leaves the encoding of entry \<open>i\<close> in front, so a decoder that reads an entry off the front of a
  buffer reads the whole table back.
\<close>

lemma drop_concat_map:
  assumes "\<And>x. x \<in> set xs \<Longrightarrow> length (f x) = w" and "i < length xs"
  shows "drop (i * w) (concat (map f xs) @ rest) =
           f (xs ! i) @ concat (map f (drop (Suc i) xs)) @ rest"
  using assms
proof (induction xs arbitrary: i)
  case (Cons x xs)
  then show ?case by (cases i) simp_all
qed simp

lemma decode_table:
  assumes w: "\<And>x. length (enc x) = w"
    and dec: "\<And>x tail. dec (enc x @ tail) = x"
    and at: "\<And>off. off \<le> length (pre @ concat (map enc xs) @ rest) \<Longrightarrow>
               entry_at off = dec (drop off (pre @ concat (map enc xs) @ rest))"
  shows "map (\<lambda>i. entry_at (length pre + i * w)) [0..<length xs] = xs"
proof (rule nth_equalityI)
  fix i assume "i < length (map (\<lambda>i. entry_at (length pre + i * w)) [0..<length xs])"
  then have i: "i < length xs" by simp
  have len: "length (concat (map enc xs)) = length xs * w"
    by (rule length_concat_map_const) (rule w)
  have "i * w \<le> length xs * w" using i by (simp add: mult_le_mono1)
  then have "entry_at (length pre + i * w) = dec (drop (i * w) (concat (map enc xs) @ rest))"
    using at[of "length pre + i * w"] len by (simp add: trans_le_add1)
  also have "\<dots> = xs ! i"
    by (subst drop_concat_map[OF w i]) (rule dec)
  finally show "map (\<lambda>i. entry_at (length pre + i * w)) [0..<length xs] ! i = xs ! i"
    using i by simp
qed simp

section \<open>Saturating and serial arithmetic\<close>

definition sat_sub :: "'a::len word \<Rightarrow> 'a word \<Rightarrow> 'a word" where
  "sat_sub a b = (if b \<le> a then a - b else 0)"

definition sat_add :: "'a::len word \<Rightarrow> 'a word \<Rightarrow> 'a word" where
  "sat_add a b = (if unat a + unat b < 2 ^ LENGTH('a) then a + b else - 1)"

lemma unat_sat_sub: "unat (sat_sub a b) = unat a - unat b"
  by (simp add: sat_sub_def unat_sub word_le_nat_alt)

lemma unat_minus_one_word: "unat (- 1 :: 'a::len word) = 2 ^ LENGTH('a) - 1"
  by transfer (simp add: take_bit_minus_one_eq_mask mask_eq_exp_minus_1 nat_diff_distrib nat_power_eq)

lemma unat_sat_add:
  "unat (sat_add a b) = min (unat a + unat b) (2 ^ LENGTH('a) - 1)" for a b :: "'a::len word"
  by (auto simp: sat_add_def unat_word_ariths unat_minus_one_word)

text \<open>
  \<^verbatim>\<open>a.wrapping_sub(b) as i32\<close>: the signed distance from \<open>b\<close> to \<open>a\<close>.  It
  orders two sequence numbers that are less than half the number space apart, across a wrap.
\<close>

definition sdist :: "u32 \<Rightarrow> u32 \<Rightarrow> int" where
  "sdist a b = sint (a - b)"

lemma sdist_self [simp]: "sdist a a = 0"
  by (simp add: sdist_def)

section \<open>Step relations and their invariants\<close>

text \<open>
  The contract of a component given as a step relation: an invariant that every step keeps.  It then
  holds along every run.  The components with a step relation interpret it.
\<close>

locale step_system =
  fixes step :: "'s \<Rightarrow> 's \<Rightarrow> bool" and inv :: "'s \<Rightarrow> bool"
  assumes inv_step: "step s s' \<Longrightarrow> inv s \<Longrightarrow> inv s'"
begin

lemma inv_run: "step\<^sup>*\<^sup>* s s' \<Longrightarrow> inv s \<Longrightarrow> inv s'"
  by (induction rule: rtranclp_induct) (auto intro: inv_step)

end

end
