(* ===== verification/Wire.thy ===== *)
theory Wire
  imports Prelude
begin

text \<open>
  The datagram formats of \<^verbatim>\<open>ghostframe-protocol/src/protocol.rs\<close>, first half: the headers of tile
  and full-frame datagrams, fragmentation of a payload into datagrams and its decoding, and the
  frame-dimensions control datagram.  Encoders append to a buffer, as the Rust ones do; a decoder
  returns a \<open>ProtocolError\<close> or the value.
\<close>

section \<open>Constants and errors\<close>

definition DATAGRAM_HEADER_SIZE :: nat where "DATAGRAM_HEADER_SIZE = 16"
definition TILE_HEADER_SIZE :: nat where "TILE_HEADER_SIZE = 8"
definition UNSTAMPED_WIRE_SEQ :: u32 where "UNSTAMPED_WIRE_SEQ = 0"

lemmas header_sizes [simp] = DATAGRAM_HEADER_SIZE_def TILE_HEADER_SIZE_def

datatype ProtocolError =
    TooShort (te_expected: nat) (te_got: nat)
  | UnknownCodec u8
  | UnknownEnvelope u8
  | InvalidLength

section \<open>Codec\<close>

datatype Codec = Skip | H264 | PalRle | Solid | Cdf53

fun Codec_to_u8 :: "Codec \<Rightarrow> u8" where
  "Codec_to_u8 Skip = 0"
| "Codec_to_u8 H264 = 1"
| "Codec_to_u8 PalRle = 2"
| "Codec_to_u8 Solid = 3"
| "Codec_to_u8 Cdf53 = 5"

definition Codec_from_u8 :: "u8 \<Rightarrow> (ProtocolError, Codec) result" where
  "Codec_from_u8 v =
     (if v = 0 then Inr Skip
      else if v = 1 then Inr H264
      else if v = 2 then Inr PalRle
      else if v = 3 then Inr Solid
      else if v = 5 then Inr Cdf53
      else Inl (UnknownCodec v))"

lemma Codec_from_to_u8 [simp]: "Codec_from_u8 (Codec_to_u8 c) = Inr c"
  by (cases c) (simp_all add: Codec_from_u8_def)

section \<open>DatagramHeader\<close>

record DatagramHeader =
  dh_frame_seq :: u32
  dh_frag_idx :: u16
  dh_frag_total :: u16
  dh_wire_seq :: u32
  dh_timestamp_us :: u32

definition DatagramHeader_encode :: "DatagramHeader \<Rightarrow> bytes \<Rightarrow> bytes" where
  "DatagramHeader_encode h buf = buf @
     to_be_bytes 4 (dh_frame_seq h) @
     to_be_bytes 2 (dh_frag_idx h) @
     to_be_bytes 2 (dh_frag_total h) @
     to_be_bytes 4 (dh_wire_seq h) @
     to_be_bytes 4 (dh_timestamp_us h)"

definition DatagramHeader_decode :: "bytes \<Rightarrow> (ProtocolError, DatagramHeader) result" where
  "DatagramHeader_decode data =
     (if length data < DATAGRAM_HEADER_SIZE
      then Inl (TooShort DATAGRAM_HEADER_SIZE (length data))
      else Inr \<lparr> dh_frame_seq = from_be_bytes (bslice 0 4 data),
                 dh_frag_idx = from_be_bytes (bslice 4 6 data),
                 dh_frag_total = from_be_bytes (bslice 6 8 data),
                 dh_wire_seq = from_be_bytes (bslice 8 12 data),
                 dh_timestamp_us = from_be_bytes (bslice 12 16 data) \<rparr>)"

lemma DatagramHeader_encode_append:
  "DatagramHeader_encode h buf = buf @ DatagramHeader_encode h []"
  by (simp add: DatagramHeader_encode_def)

lemma length_DatagramHeader_encode [size_simps]:
  "length (DatagramHeader_encode h buf) = length buf + 16"
  by (simp add: DatagramHeader_encode_def)

lemma DatagramHeader_roundtrip:
  "DatagramHeader_decode (DatagramHeader_encode h [] @ rest) = Inr h"
  by (simp add: DatagramHeader_encode_def DatagramHeader_decode_def bslice_simps)

section \<open>TileHeader\<close>

record TileHeader =
  th_tile_x :: u8
  th_tile_y :: u8
  th_codec :: Codec
  th_lz4 :: bool
  th_generation :: u8
  th_pass :: u8
  th_payload_len :: u32

text \<open>\<^verbatim>\<open>((codec as u8) << 1) | lz4\<close>\<close>

definition codec_byte :: "Codec \<Rightarrow> bool \<Rightarrow> u8" where
  "codec_byte codec lz4 = push_bit 1 (Codec_to_u8 codec) OR (if lz4 then 1 else 0)"

definition TileHeader_encode :: "TileHeader \<Rightarrow> bytes \<Rightarrow> bytes" where
  "TileHeader_encode h buf = buf @
     [th_tile_x h,
      th_tile_y h,
      codec_byte (th_codec h) (th_lz4 h),
      pack_nibbles (lo_nibble (th_generation h)) (lo_nibble (th_pass h))] @
     to_be_bytes 4 (th_payload_len h)"

definition TileHeader_decode :: "bytes \<Rightarrow> (ProtocolError, TileHeader) result" where
  "TileHeader_decode data =
     (if length data < TILE_HEADER_SIZE
      then Inl (TooShort TILE_HEADER_SIZE (length data))
      else
        let packed = data ! 2; gen_pass = data ! 3 in
        res_bind (Codec_from_u8 (drop_bit 1 packed)) (\<lambda>codec.
        Inr \<lparr> th_tile_x = data ! 0,
              th_tile_y = data ! 1,
              th_codec = codec,
              th_lz4 = (packed AND 1 \<noteq> 0),
              th_generation = hi_nibble gen_pass,
              th_pass = lo_nibble gen_pass,
              th_payload_len = from_be_bytes (bslice 4 8 data) \<rparr>))"

lemma TileHeader_encode_append: "TileHeader_encode h buf = buf @ TileHeader_encode h []"
  by (simp add: TileHeader_encode_def)

lemma length_TileHeader_encode [size_simps]:
  "length (TileHeader_encode h buf) = length buf + 8"
  by (simp add: TileHeader_encode_def)

lemma codec_byte_roundtrip [simp]:
  "Codec_from_u8 (drop_bit 1 (codec_byte c l)) = Inr c"
  "(codec_byte c l AND 1 = 0) = (\<not> l)"
  unfolding codec_byte_def by (cases c; cases l; simp add: Codec_from_u8_def)+

lemma TileHeader_roundtrip:
  "TileHeader_decode (TileHeader_encode h [] @ rest) =
     Inr (h\<lparr>th_generation := lo_nibble (th_generation h), th_pass := lo_nibble (th_pass h)\<rparr>)"
  by (simp add: TileHeader_encode_def TileHeader_decode_def Let_def bslice_def del: One_nat_def)

section \<open>Fragmenting a tile\<close>

record TileFragmentInputs =
  tfi_frame_seq :: u32
  tfi_tile_x :: u8
  tfi_tile_y :: u8
  tfi_codec :: Codec
  tfi_generation :: u8
  tfi_pass :: u8
  tfi_timestamp_us :: u32

text \<open>At least one fragment, even for an empty payload.\<close>

definition payload_chunks :: "bytes \<Rightarrow> nat \<Rightarrow> bytes list" where
  "payload_chunks payload max_fragment_payload =
     (if payload = [] then [[]] else chunks max_fragment_payload payload)"

text \<open>The headers of fragment \<open>idx\<close>; the casts to \<^verbatim>\<open>u16\<close> and \<^verbatim>\<open>u32\<close> truncate.\<close>

definition tile_fragment_headers ::
    "TileFragmentInputs \<Rightarrow> nat \<Rightarrow> nat \<Rightarrow> nat \<Rightarrow> DatagramHeader \<times> TileHeader" where
  "tile_fragment_headers inputs payload_len frag_total idx =
     (\<lparr> dh_frame_seq = tfi_frame_seq inputs,
        dh_frag_idx = of_nat idx,
        dh_frag_total = of_nat frag_total,
        dh_wire_seq = UNSTAMPED_WIRE_SEQ,
        dh_timestamp_us = tfi_timestamp_us inputs \<rparr>,
      \<lparr> th_tile_x = tfi_tile_x inputs,
        th_tile_y = tfi_tile_y inputs,
        th_codec = tfi_codec inputs,
        th_lz4 = False,
        th_generation = tfi_generation inputs,
        th_pass = tfi_pass inputs,
        th_payload_len = of_nat payload_len \<rparr>)"

text \<open>\<open>None\<close> is the \<^verbatim>\<open>assert!\<close> on a zero fragment size.\<close>

definition fragment_tile :: "TileFragmentInputs \<Rightarrow> bytes \<Rightarrow> nat \<Rightarrow> bytes list option" where
  "fragment_tile inputs payload max_fragment_payload =
     (if max_fragment_payload = 0 then None
      else
        let chunks = payload_chunks payload max_fragment_payload in
        Some (map (\<lambda>(idx, chunk).
                let (dh, th) = tile_fragment_headers inputs (length payload) (length chunks) idx in
                TileHeader_encode th (DatagramHeader_encode dh []) @ chunk)
              (List.enumerate 0 chunks)))"

definition decode_tile_datagram ::
    "bytes \<Rightarrow> (ProtocolError, DatagramHeader \<times> TileHeader \<times> bytes) result" where
  "decode_tile_datagram data =
     res_bind (DatagramHeader_decode data) (\<lambda>dh.
     let rest = drop DATAGRAM_HEADER_SIZE data in
     res_bind (TileHeader_decode rest) (\<lambda>th.
     Inr (dh, th, drop TILE_HEADER_SIZE rest)))"

text \<open>\<^verbatim>\<open>.remove(0)\<close> of a list that always has a first element.\<close>

definition encode_tile_datagram :: "TileFragmentInputs \<Rightarrow> bytes \<Rightarrow> bytes option" where
  "encode_tile_datagram inputs payload =
     map_option hd (fragment_tile inputs payload (max (length payload) 1))"

definition max_fragment_payload :: "nat \<Rightarrow> nat" where
  "max_fragment_payload max_datagram_size =
     max_datagram_size - (DATAGRAM_HEADER_SIZE + TILE_HEADER_SIZE)"

lemma concat_payload_chunks: "0 < m \<Longrightarrow> concat (payload_chunks p m) = p"
  by (simp add: payload_chunks_def)

lemma payload_chunks_nonempty: "0 < m \<Longrightarrow> payload_chunks p m \<noteq> []"
  by (simp add: payload_chunks_def chunks_eq_Nil_iff)

lemma payload_chunks_bound: "c \<in> set (payload_chunks p m) \<Longrightarrow> length c \<le> m"
  by (auto simp: payload_chunks_def dest: chunks_bound split: if_splits)

lemma payload_chunks_single: "length p \<le> m \<Longrightarrow> payload_chunks p m = [p]"
  by (auto simp: payload_chunks_def intro: chunks_single)

lemma decode_tile_datagram_encoded:
  "decode_tile_datagram (TileHeader_encode th (DatagramHeader_encode dh []) @ p) =
     Inr (dh, th\<lparr>th_generation := lo_nibble (th_generation th), th_pass := lo_nibble (th_pass th)\<rparr>, p)"
  by (simp add: decode_tile_datagram_def TileHeader_encode_append[of _ "DatagramHeader_encode _ _"]
      DatagramHeader_roundtrip TileHeader_roundtrip size_simps)

lemma fragment_tile_nth:
  assumes "fragment_tile inputs payload m = Some ds" and "i < length ds"
  shows "ds ! i = (let (dh, th) = tile_fragment_headers inputs (length payload) (length ds) i in
           TileHeader_encode th (DatagramHeader_encode dh [])) @ payload_chunks payload m ! i"
  using assms
  by (auto simp: fragment_tile_def Let_def nth_enumerate_eq split: prod.splits if_splits)

lemma length_fragment_tile:
  "fragment_tile inputs payload m = Some ds \<Longrightarrow> length ds = length (payload_chunks payload m)"
  by (auto simp: fragment_tile_def Let_def split: if_splits)

lemma fragment_tile_Some_iff: "(\<exists>ds. fragment_tile inputs payload m = Some ds) \<longleftrightarrow> 0 < m"
  by (auto simp: fragment_tile_def Let_def)

text \<open>A payload that fits is one datagram, fragment 0 of 1.\<close>

lemma fragment_tile_single:
  assumes "0 < m" "length payload \<le> m"
  shows "fragment_tile inputs payload m =
     Some [let (dh, th) = tile_fragment_headers inputs (length payload) 1 0 in
           TileHeader_encode th (DatagramHeader_encode dh []) @ payload]"
  using assms by (simp add: fragment_tile_def payload_chunks_single Let_def)

section \<open>Frame dimensions\<close>

definition TILE_DATAGRAM_FLAG :: u32 where "TILE_DATAGRAM_FLAG = push_bit 31 1"
definition FRAME_DIMENSIONS_SENTINEL_X :: u8 where "FRAME_DIMENSIONS_SENTINEL_X = 0xFF"
definition FRAME_DIMENSIONS_SENTINEL_Y :: u8 where "FRAME_DIMENSIONS_SENTINEL_Y = 0xFF"

definition build_frame_dimensions_datagram :: "u32 \<Rightarrow> u32 \<Rightarrow> u32 \<Rightarrow> u32 \<Rightarrow> bytes option" where
  "build_frame_dimensions_datagram frame_seq timestamp_us width height =
     (let payload = to_be_bytes 4 width @ to_be_bytes 4 height;
          inputs = \<lparr> tfi_frame_seq = frame_seq OR TILE_DATAGRAM_FLAG,
                     tfi_tile_x = FRAME_DIMENSIONS_SENTINEL_X,
                     tfi_tile_y = FRAME_DIMENSIONS_SENTINEL_Y,
                     tfi_codec = Skip,
                     tfi_generation = 0,
                     tfi_pass = 0,
                     tfi_timestamp_us = timestamp_us \<rparr>
      in map_option hd (fragment_tile inputs payload 8))"

text \<open>Bit 31 of the first word tells tile datagrams from frame datagrams.\<close>

definition is_tile_datagram :: "bytes \<Rightarrow> bool" where
  "is_tile_datagram data =
     (if length data < 4 then False
      else (from_be_bytes (bslice 0 4 data) :: u32) AND TILE_DATAGRAM_FLAG \<noteq> 0)"

lemma TILE_DATAGRAM_FLAG_bit: "bit TILE_DATAGRAM_FLAG n \<longleftrightarrow> n = 31"
  unfolding TILE_DATAGRAM_FLAG_def push_bit_of_1 bit_exp_iff by auto

lemma and_flag_iff: "(w :: u32) AND TILE_DATAGRAM_FLAG \<noteq> 0 \<longleftrightarrow> bit w 31"
proof
  assume "w AND TILE_DATAGRAM_FLAG \<noteq> 0"
  then obtain n where "bit (w AND TILE_DATAGRAM_FLAG) n"
    by (metis bit_eqI bit_0_eq bot_apply bot_bool_def)
  then show "bit w 31" by (auto simp: bit_simps TILE_DATAGRAM_FLAG_bit)
next
  assume "bit w 31"
  then have "bit (w AND TILE_DATAGRAM_FLAG) 31" by (simp add: bit_simps TILE_DATAGRAM_FLAG_bit)
  then show "w AND TILE_DATAGRAM_FLAG \<noteq> 0" by auto
qed

lemma is_tile_datagram_encoded [simp]:
  "is_tile_datagram (TileHeader_encode th (DatagramHeader_encode dh []) @ p) \<longleftrightarrow>
     bit (dh_frame_seq dh) 31"
  by (simp add: is_tile_datagram_def TileHeader_encode_def DatagramHeader_encode_def bslice_simps
      and_flag_iff[simplified])

section \<open>FrameHeader\<close>

definition FRAME_HEADER_SIZE :: nat where [simp]: "FRAME_HEADER_SIZE = 22"
definition NO_ACK :: u32 where "NO_ACK = 0xFFFFFFFF"
definition REF_FRAME_NONE :: u32 where "REF_FRAME_NONE = 0xFFFFFFFF"
definition FRAME_FLAG_IDR :: u8 where "FRAME_FLAG_IDR = 0x01"
definition FRAME_FLAG_NON_REF :: u8 where "FRAME_FLAG_NON_REF = 0x02"
definition FRAME_FLAG_MARK_LT :: u8 where "FRAME_FLAG_MARK_LT = 0x04"
definition FRAME_FLAG_TARGET_IS_LT :: u8 where "FRAME_FLAG_TARGET_IS_LT = 0x08"
definition FRAME_FLAG_PAD :: u8 where "FRAME_FLAG_PAD = 0x10"
definition FRAME_FLAG_MARK_TARGET :: u8 where "FRAME_FLAG_MARK_TARGET = 0x20"

lemmas frame_flag_defs = FRAME_FLAG_IDR_def FRAME_FLAG_NON_REF_def FRAME_FLAG_MARK_LT_def
  FRAME_FLAG_TARGET_IS_LT_def FRAME_FLAG_PAD_def FRAME_FLAG_MARK_TARGET_def

record FrameRefInfo =
  fri_flags :: u8
  fri_slots :: u8
  fri_ref_frame_seq :: u32

definition FrameRefInfo_IDR :: FrameRefInfo where
  "FrameRefInfo_IDR = \<lparr> fri_flags = FRAME_FLAG_IDR, fri_slots = 0, fri_ref_frame_seq = REF_FRAME_NONE \<rparr>"

definition FrameRefInfo_predicted :: "u32 \<Rightarrow> FrameRefInfo" where
  "FrameRefInfo_predicted ref_frame_seq = \<lparr> fri_flags = 0, fri_slots = 0, fri_ref_frame_seq = ref_frame_seq \<rparr>"

record FrameHeader =
  fh_frame_seq :: u32
  fh_frag_idx :: u16
  fh_frag_total :: u16
  fh_wire_seq :: u32
  fh_timestamp_us :: u32
  fh_flags :: u8
  fh_slots :: u8
  fh_ref_frame_seq :: u32

definition FrameHeader_encode :: "FrameHeader \<Rightarrow> bytes \<Rightarrow> bytes" where
  "FrameHeader_encode h buf = buf @
     to_be_bytes 4 (fh_frame_seq h) @
     to_be_bytes 2 (fh_frag_idx h) @
     to_be_bytes 2 (fh_frag_total h) @
     to_be_bytes 4 (fh_wire_seq h) @
     to_be_bytes 4 (fh_timestamp_us h) @
     [fh_flags h, fh_slots h] @
     to_be_bytes 4 (fh_ref_frame_seq h)"

definition FrameHeader_decode :: "bytes \<Rightarrow> (ProtocolError, FrameHeader) result" where
  "FrameHeader_decode data =
     (if length data < FRAME_HEADER_SIZE
      then Inl (TooShort FRAME_HEADER_SIZE (length data))
      else Inr \<lparr> fh_frame_seq = from_be_bytes (bslice 0 4 data),
                 fh_frag_idx = from_be_bytes (bslice 4 6 data),
                 fh_frag_total = from_be_bytes (bslice 6 8 data),
                 fh_wire_seq = from_be_bytes (bslice 8 12 data),
                 fh_timestamp_us = from_be_bytes (bslice 12 16 data),
                 fh_flags = data ! 16,
                 fh_slots = data ! 17,
                 fh_ref_frame_seq = from_be_bytes (bslice 18 22 data) \<rparr>)"

definition FrameHeader_is_keyframe :: "FrameHeader \<Rightarrow> bool" where
  "FrameHeader_is_keyframe h \<longleftrightarrow> fh_flags h AND FRAME_FLAG_IDR \<noteq> 0"

definition fragment_frame_ref ::
    "u32 \<Rightarrow> u32 \<Rightarrow> FrameRefInfo \<Rightarrow> bytes \<Rightarrow> nat \<Rightarrow> bytes list option" where
  "fragment_frame_ref frame_seq timestamp_us info payload max_payload =
     (if max_payload = 0 then None
      else
        let chunks = payload_chunks payload max_payload; frag_total = length chunks in
        Some (map (\<lambda>(idx, chunk).
                FrameHeader_encode
                  \<lparr> fh_frame_seq = frame_seq, fh_frag_idx = of_nat idx,
                    fh_frag_total = of_nat frag_total, fh_wire_seq = NO_ACK,
                    fh_timestamp_us = timestamp_us, fh_flags = fri_flags info,
                    fh_slots = fri_slots info, fh_ref_frame_seq = fri_ref_frame_seq info \<rparr> [] @ chunk)
              (List.enumerate 0 chunks)))"

definition fragment_frame :: "u32 \<Rightarrow> u32 \<Rightarrow> bool \<Rightarrow> bytes \<Rightarrow> nat \<Rightarrow> bytes list option" where
  "fragment_frame frame_seq timestamp_us is_keyframe payload max_payload =
     (let info = (if is_keyframe then FrameRefInfo_IDR else FrameRefInfo_predicted REF_FRAME_NONE)
      in fragment_frame_ref frame_seq timestamp_us info payload max_payload)"

definition decode_frame_datagram :: "bytes \<Rightarrow> (ProtocolError, FrameHeader \<times> bytes) result" where
  "decode_frame_datagram data =
     res_bind (FrameHeader_decode data) (\<lambda>fh. Inr (fh, drop FRAME_HEADER_SIZE data))"

definition max_frame_fragment_payload :: "nat \<Rightarrow> nat" where
  "max_frame_fragment_payload max_datagram_size = max_datagram_size - FRAME_HEADER_SIZE"

lemma length_FrameHeader_encode [size_simps]: "length (FrameHeader_encode h buf) = length buf + 22"
  by (simp add: FrameHeader_encode_def)

lemma decode_frame_datagram_encoded:
  "decode_frame_datagram (FrameHeader_encode h [] @ p) = Inr (h, p)"
  by (simp add: decode_frame_datagram_def FrameHeader_encode_def FrameHeader_decode_def bslice_simps
      nth_append_skip)

lemma is_tile_datagram_frame:
  "is_tile_datagram (FrameHeader_encode h [] @ p) \<longleftrightarrow> bit (fh_frame_seq h) 31"
  by (simp add: is_tile_datagram_def FrameHeader_encode_def bslice_simps and_flag_iff[simplified])

lemma fragment_frame_ref_nth:
  assumes "fragment_frame_ref s t info payload m = Some ds" and "i < length ds"
  shows "ds ! i = FrameHeader_encode
      \<lparr> fh_frame_seq = s, fh_frag_idx = of_nat i, fh_frag_total = of_nat (length ds),
        fh_wire_seq = NO_ACK, fh_timestamp_us = t, fh_flags = fri_flags info,
        fh_slots = fri_slots info, fh_ref_frame_seq = fri_ref_frame_seq info \<rparr> []
      @ payload_chunks payload m ! i"
  using assms by (auto simp: fragment_frame_ref_def Let_def nth_enumerate_eq split: if_splits)

lemma length_fragment_frame_ref:
  "fragment_frame_ref s t info payload m = Some ds \<Longrightarrow> length ds = length (payload_chunks payload m)"
  by (auto simp: fragment_frame_ref_def Let_def split: if_splits)

section \<open>Properties\<close>

text \<open>The payload part of a datagram, empty when it does not decode.\<close>

definition tile_payload_of :: "bytes \<Rightarrow> bytes" where
  "tile_payload_of d = (case decode_tile_datagram d of Inr (_, _, p) \<Rightarrow> p | Inl _ \<Rightarrow> [])"

definition frame_payload_of :: "bytes \<Rightarrow> bytes" where
  "frame_payload_of d = (case decode_frame_datagram d of Inr (_, p) \<Rightarrow> p | Inl _ \<Rightarrow> [])"

lemma fragment_tile_decode_nth:
  assumes "fragment_tile inputs payload m = Some ds" "i < length ds"
    and "unat (tfi_generation inputs) < 16" "unat (tfi_pass inputs) < 16"
  shows "decode_tile_datagram (ds ! i) =
     (let (dh, th) = tile_fragment_headers inputs (length payload) (length ds) i in
      Inr (dh, th, payload_chunks payload m ! i))"
  using fragment_tile_nth[OF assms(1,2)] assms(3,4)
  by (simp add: tile_fragment_headers_def decode_tile_datagram_encoded[unfolded append_assoc]
      lo_nibble_small)

lemma length_fragment_tile_nth:
  assumes "fragment_tile inputs payload m = Some ds" "i < length ds"
  shows "length (ds ! i) \<le> DATAGRAM_HEADER_SIZE + TILE_HEADER_SIZE + m"
  using fragment_tile_nth[OF assms] length_fragment_tile[OF assms(1)] assms(2)
    payload_chunks_bound[of "payload_chunks payload m ! i" payload m]
  by (simp add: tile_fragment_headers_def size_simps)

text \<open>
  C3. Tile fragmentation.  For a tile whose generation and pass fit their nibbles, cut to the
  datagram size the transport allows, every datagram decodes, carries the tile's address, its own
  index and the number of datagrams, and fits the size; the decoded parts in order are the payload.
\<close>

theorem fragment_tile_roundtrip:
  assumes "fragment_tile inputs payload (max_fragment_payload mtu) = Some ds"
    and "unat (tfi_generation inputs) < 16" "unat (tfi_pass inputs) < 16" "length ds \<le> 65535"
  shows "concat (map tile_payload_of ds) = payload \<and>
    (\<forall>i < length ds. length (ds ! i) \<le> mtu \<and>
      (\<exists>dh th. decode_tile_datagram (ds ! i) = Inr (dh, th, tile_payload_of (ds ! i)) \<and>
        dh_frame_seq dh = tfi_frame_seq inputs \<and> dh_timestamp_us dh = tfi_timestamp_us inputs \<and>
        unat (dh_frag_idx dh) = i \<and> unat (dh_frag_total dh) = length ds \<and>
        th_tile_x th = tfi_tile_x inputs \<and> th_tile_y th = tfi_tile_y inputs \<and>
        th_codec th = tfi_codec inputs \<and> th_generation th = tfi_generation inputs \<and>
        th_pass th = tfi_pass inputs))"
proof (intro conjI allI impI)
  let ?m = "max_fragment_payload mtu"
  have m: "0 < ?m" using assms(1) fragment_tile_Some_iff by blast
  have dec: "decode_tile_datagram (ds ! i) =
     (let (dh, th) = tile_fragment_headers inputs (length payload) (length ds) i in
      Inr (dh, th, payload_chunks payload ?m ! i))" if "i < length ds" for i
    by (rule fragment_tile_decode_nth[OF assms(1) that assms(2,3)])
  then have pl: "tile_payload_of (ds ! i) = payload_chunks payload ?m ! i" if "i < length ds" for i
    using that by (simp add: tile_payload_of_def tile_fragment_headers_def)
  have "map tile_payload_of ds = payload_chunks payload ?m"
    using length_fragment_tile[OF assms(1)] pl by (intro nth_equalityI) simp_all
  then show "concat (map tile_payload_of ds) = payload" using concat_payload_chunks[OF m] by simp
  fix i assume i: "i < length ds"
  show "length (ds ! i) \<le> mtu"
    using length_fragment_tile_nth[OF assms(1) i] m by (simp add: max_fragment_payload_def)
  show "\<exists>dh th. decode_tile_datagram (ds ! i) = Inr (dh, th, tile_payload_of (ds ! i)) \<and>
        dh_frame_seq dh = tfi_frame_seq inputs \<and> dh_timestamp_us dh = tfi_timestamp_us inputs \<and>
        unat (dh_frag_idx dh) = i \<and> unat (dh_frag_total dh) = length ds \<and>
        th_tile_x th = tfi_tile_x inputs \<and> th_tile_y th = tfi_tile_y inputs \<and>
        th_codec th = tfi_codec inputs \<and> th_generation th = tfi_generation inputs \<and>
        th_pass th = tfi_pass inputs"
    using dec[OF i] pl[OF i] i assms(4) by (simp add: tile_fragment_headers_def unat_of_nat)
qed

definition demo_tile :: TileFragmentInputs where
  "demo_tile = \<lparr> tfi_frame_seq = 7, tfi_tile_x = 3, tfi_tile_y = 4, tfi_codec = Cdf53,
     tfi_generation = 2, tfi_pass = 5, tfi_timestamp_us = 99 \<rparr>"

theorem fragment_tile_roundtrip_witness:
  "\<exists>ds. fragment_tile demo_tile [1, 2, 3, 4, 5] (max_fragment_payload 26) = Some ds \<and>
     length ds = 3 \<and> concat (map tile_payload_of ds) = [1, 2, 3, 4, 5]"
proof -
  have m: "max_fragment_payload 26 = 2" by (simp add: max_fragment_payload_def)
  then obtain ds where ds: "fragment_tile demo_tile [1, 2, 3, 4, 5] (max_fragment_payload 26) = Some ds"
    using fragment_tile_Some_iff[of demo_tile "[1, 2, 3, 4, 5]" "max_fragment_payload 26"] by auto
  have "length ds = 3" using length_fragment_tile[OF ds]
    by (simp add: m payload_chunks_def chunks_step)
  then show ?thesis using ds fragment_tile_roundtrip[OF ds] by (simp add: demo_tile_def)
qed

text \<open>
  C4. Frame fragmentation.  Every datagram of a frame decodes with its index, the number of
  datagrams and the reference fields of the frame, fits the transport's size, and is never taken for
  a tile datagram when the frame number is below 2 to the 31; the parts in order are the frame.
\<close>

theorem fragment_frame_roundtrip:
  assumes "fragment_frame_ref seq ts info payload (max_frame_fragment_payload mtu) = Some ds"
    and "length ds \<le> 65535"
  shows "concat (map frame_payload_of ds) = payload \<and>
    (\<forall>i < length ds. length (ds ! i) \<le> mtu \<and> (is_tile_datagram (ds ! i) \<longleftrightarrow> bit seq 31) \<and>
      decode_frame_datagram (ds ! i) = Inr
        (\<lparr> fh_frame_seq = seq, fh_frag_idx = of_nat i, fh_frag_total = of_nat (length ds),
           fh_wire_seq = NO_ACK, fh_timestamp_us = ts, fh_flags = fri_flags info,
           fh_slots = fri_slots info, fh_ref_frame_seq = fri_ref_frame_seq info \<rparr>,
         frame_payload_of (ds ! i)) \<and>
      unat (of_nat i :: u16) = i \<and> unat (of_nat (length ds) :: u16) = length ds)"
proof (intro conjI allI impI)
  let ?m = "max_frame_fragment_payload mtu"
  have m: "0 < ?m" using assms(1) by (auto simp: fragment_frame_ref_def split: if_splits)
  note nth = fragment_frame_ref_nth[OF assms(1)]
  have pl: "frame_payload_of (ds ! i) = payload_chunks payload ?m ! i" if "i < length ds" for i
    using nth[OF that] by (simp add: frame_payload_of_def decode_frame_datagram_encoded)
  have "map frame_payload_of ds = payload_chunks payload ?m"
    using length_fragment_frame_ref[OF assms(1)] pl by (intro nth_equalityI) simp_all
  then show "concat (map frame_payload_of ds) = payload" using concat_payload_chunks[OF m] by simp
  fix i assume i: "i < length ds"
  have "length (payload_chunks payload ?m ! i) \<le> ?m"
    using i length_fragment_frame_ref[OF assms(1)] by (intro payload_chunks_bound[of _ payload]) simp
  then show "length (ds ! i) \<le> mtu"
    using nth[OF i] m by (simp add: size_simps max_frame_fragment_payload_def)
  show "is_tile_datagram (ds ! i) \<longleftrightarrow> bit seq 31" using nth[OF i] by (simp add: is_tile_datagram_frame)
  show "decode_frame_datagram (ds ! i) = Inr
        (\<lparr> fh_frame_seq = seq, fh_frag_idx = of_nat i, fh_frag_total = of_nat (length ds),
           fh_wire_seq = NO_ACK, fh_timestamp_us = ts, fh_flags = fri_flags info,
           fh_slots = fri_slots info, fh_ref_frame_seq = fri_ref_frame_seq info \<rparr>,
         frame_payload_of (ds ! i))"
    using nth[OF i] pl[OF i] by (simp add: decode_frame_datagram_encoded)
  show "unat (of_nat i :: u16) = i" "unat (of_nat (length ds) :: u16) = length ds"
    using i assms(2) by (simp_all add: unat_of_nat)
qed

theorem fragment_frame_roundtrip_witness:
  "\<exists>ds. fragment_frame_ref 9 1 FrameRefInfo_IDR [1, 2, 3] (max_frame_fragment_payload 24) = Some ds \<and>
     length ds = 2 \<and> concat (map frame_payload_of ds) = [1, 2, 3]"
proof -
  have m: "max_frame_fragment_payload 24 = 2" by (simp add: max_frame_fragment_payload_def)
  then obtain ds where ds:
    "fragment_frame_ref 9 1 FrameRefInfo_IDR [1, 2, 3] (max_frame_fragment_payload 24) = Some ds"
    by (simp add: fragment_frame_ref_def Let_def)
  have "length ds = 2" using length_fragment_frame_ref[OF ds]
    by (simp add: m payload_chunks_def chunks_step)
  then show ?thesis using ds fragment_frame_roundtrip[OF ds] by simp
qed

end
