(* ===== verification/Envelopes.thy ===== *)
theory Envelopes
  imports Wire
begin

text \<open>
  The remaining messages of \<^verbatim>\<open>ghostframe-protocol\<close>: the FEC parity, NACK and frame-ack envelopes
  and the inbound classifier of \<^verbatim>\<open>protocol.rs\<close>, the ACK batch of \<^verbatim>\<open>ack.rs\<close>, the eviction
  notice of \<^verbatim>\<open>eviction.rs\<close>, the receiver report of \<^verbatim>\<open>feedback.rs\<close> and the reset request of
  \<^verbatim>\<open>feedback_stream.rs\<close>.
\<close>

section \<open>TILE\_PARITY envelope\<close>

definition TILE_PARITY_ENVELOPE :: u8 where "TILE_PARITY_ENVELOPE = 0x04"
definition TILE_PARITY_HEADER_SIZE :: nat where [simp]: "TILE_PARITY_HEADER_SIZE = 7"

record TileParityEnvelope =
  tp_group_first_wire_seq :: u32
  tp_k :: u8
  tp_parity_idx :: u8
  tp_source_lens :: "u16 list"
  tp_parity_payload :: bytes

definition TileParityEnvelope_encode :: "TileParityEnvelope \<Rightarrow> bytes \<Rightarrow> bytes" where
  "TileParityEnvelope_encode e buf = buf @
     [TILE_PARITY_ENVELOPE] @
     to_be_bytes 4 (tp_group_first_wire_seq e) @
     [tp_k e, tp_parity_idx e] @
     concat (map (to_be_bytes 2) (tp_source_lens e)) @
     tp_parity_payload e"

definition TileParityEnvelope_decode :: "bytes \<Rightarrow> (ProtocolError, TileParityEnvelope) result" where
  "TileParityEnvelope_decode data =
     (if length data < TILE_PARITY_HEADER_SIZE
      then Inl (TooShort TILE_PARITY_HEADER_SIZE (length data))
      else if data ! 0 \<noteq> TILE_PARITY_ENVELOPE then Inl (UnknownEnvelope (data ! 0))
      else
        let k = data ! 5;
            table_end = TILE_PARITY_HEADER_SIZE + 2 * unat k in
        if length data < table_end then Inl (TooShort table_end (length data))
        else Inr \<lparr> tp_group_first_wire_seq = from_be_bytes (bslice 1 5 data),
                   tp_k = k,
                   tp_parity_idx = data ! 6,
                   tp_source_lens =
                     map from_be_bytes (chunks 2 (bslice TILE_PARITY_HEADER_SIZE table_end data)),
                   tp_parity_payload = drop table_end data \<rparr>)"

lemma TileParityEnvelope_roundtrip:
  assumes "length (tp_source_lens e) = unat (tp_k e)"
  shows "TileParityEnvelope_decode (TileParityEnvelope_encode e []) = Inr e"
proof -
  let ?tab = "concat (map (to_be_bytes 2) (tp_source_lens e))"
  have len: "length ?tab = unat (tp_k e) * 2"
    using length_concat_map_const[of "tp_source_lens e" "to_be_bytes 2" 2] assms by simp
  have chunks: "chunks 2 ?tab = map (to_be_bytes 2) (tp_source_lens e)"
    by (rule chunks_concat_map) simp_all
  show ?thesis
    by (simp add: TileParityEnvelope_decode_def TileParityEnvelope_encode_def Let_def bslice_simps
        nth_append_skip nth_Cons' drop_append_skip drop_Cons_skip len chunks o_def)
qed

section \<open>TILE\_NACK envelope\<close>

definition TILE_NACK_ENVELOPE :: u8 where "TILE_NACK_ENVELOPE = 0x05"
definition TILE_NACK_ENTRY_SIZE :: nat where [simp]: "TILE_NACK_ENTRY_SIZE = 7"
definition TILE_NACK_MAX_ENTRIES :: nat where [simp]: "TILE_NACK_MAX_ENTRIES = 64"

record TileNackEntry =
  ne_frame_seq :: u32
  ne_tile_x :: u8
  ne_tile_y :: u8
  ne_pass_idx :: u8

record TileNackEnvelope =
  nk_entries :: "TileNackEntry list"

definition TileNackEntry_bytes :: "TileNackEntry \<Rightarrow> bytes" where
  "TileNackEntry_bytes e = to_le_bytes 4 (ne_frame_seq e) @ [ne_tile_x e, ne_tile_y e, ne_pass_idx e]"

definition TileNackEnvelope_write :: "bytes \<Rightarrow> TileNackEntry list \<Rightarrow> bytes" where
  "TileNackEnvelope_write buf entries =
     buf @ [TILE_NACK_ENVELOPE, of_nat (length entries)] @ concat (map TileNackEntry_bytes entries)"

definition TileNackEnvelope_encode :: "TileNackEnvelope \<Rightarrow> bytes \<Rightarrow> bytes" where
  "TileNackEnvelope_encode env buf = TileNackEnvelope_write buf (nk_entries env)"

definition TileNackEnvelope_encode_clamped :: "TileNackEnvelope \<Rightarrow> bytes \<Rightarrow> bytes \<times> nat" where
  "TileNackEnvelope_encode_clamped env buf =
     (let n = min (length (nk_entries env)) TILE_NACK_MAX_ENTRIES
      in (TileNackEnvelope_write buf (take n (nk_entries env)), n))"

text \<open>The body of the decoding loop: the entry at offset \<open>off\<close>.\<close>

definition TileNackEntry_at :: "bytes \<Rightarrow> nat \<Rightarrow> TileNackEntry" where
  "TileNackEntry_at data off =
     \<lparr> ne_frame_seq = from_le_bytes (bslice off (off + 4) data),
       ne_tile_x = data ! (off + 4),
       ne_tile_y = data ! (off + 5),
       ne_pass_idx = data ! (off + 6) \<rparr>"

definition TileNackEnvelope_decode :: "bytes \<Rightarrow> (ProtocolError, TileNackEnvelope) result" where
  "TileNackEnvelope_decode data =
     (if length data < 2 then Inl (TooShort 2 (length data))
      else if data ! 0 \<noteq> TILE_NACK_ENVELOPE then Inl (UnknownEnvelope (data ! 0))
      else
        let count = unat (data ! 1) in
        if count > TILE_NACK_MAX_ENTRIES then Inl InvalidLength
        else
          let expected = 2 + count * TILE_NACK_ENTRY_SIZE in
          if length data < expected then Inl (TooShort expected (length data))
          else Inr \<lparr> nk_entries =
                 map (\<lambda>i. TileNackEntry_at data (2 + i * TILE_NACK_ENTRY_SIZE)) [0..<count] \<rparr>)"

lemma length_TileNackEntry_bytes [simp]: "length (TileNackEntry_bytes e) = 7"
  by (simp add: TileNackEntry_bytes_def)

lemma TileNackEntry_at_drop:
  "off \<le> length data \<Longrightarrow> TileNackEntry_at data off = TileNackEntry_at (drop off data) 0"
  by (simp add: TileNackEntry_at_def bslice_def)

lemma TileNackEntry_at_bytes: "TileNackEntry_at (TileNackEntry_bytes e @ tail) 0 = e"
  by (simp add: TileNackEntry_at_def TileNackEntry_bytes_def bslice_simps nth_append)

lemma TileNackEnvelope_roundtrip:
  assumes n: "length (nk_entries env) \<le> 64"
  shows "TileNackEnvelope_decode (TileNackEnvelope_encode env [] @ rest) = Inr env"
proof -
  let ?es = "nk_entries env" and ?pre = "[TILE_NACK_ENVELOPE, of_nat (length (nk_entries env))]"
  define data where "data = TileNackEnvelope_encode env [] @ rest"
  have data: "data = ?pre @ concat (map TileNackEntry_bytes ?es) @ rest"
    by (simp add: data_def TileNackEnvelope_encode_def TileNackEnvelope_write_def)
  have "map (\<lambda>i. TileNackEntry_at data (length ?pre + i * 7)) [0..<length ?es] = ?es"
    unfolding data
    by (rule decode_table[where dec = "\<lambda>d. TileNackEntry_at d 0"])
      (rule length_TileNackEntry_bytes TileNackEntry_at_bytes TileNackEntry_at_drop, assumption?)+
  moreover have "length data = 2 + length ?es * 7 + length rest"
    using length_concat_map_const[of ?es TileNackEntry_bytes 7] by (simp add: data)
  moreover have "unat (of_nat (length ?es) :: u8) = length ?es"
    using n by (simp add: unat_of_nat)
  moreover have "data ! 0 = TILE_NACK_ENVELOPE" "data ! 1 = of_nat (length ?es)"
    by (simp_all add: data)
  ultimately show ?thesis
    using n unfolding data_def[symmetric] TileNackEnvelope_decode_def by (simp add: Let_def)
qed

section \<open>FRAME\_ACK\<close>

definition FRAME_ACK_ENVELOPE :: u8 where "FRAME_ACK_ENVELOPE = 0x0A"
definition FRAME_ACK_SIZE :: nat where [simp]: "FRAME_ACK_SIZE = 21"

record FrameAck =
  fa_newest_seq :: u32
  fa_decoded_mask :: u64
  fa_refused_mask :: u64

definition FrameAck_encode :: "FrameAck \<Rightarrow> bytes \<Rightarrow> bytes" where
  "FrameAck_encode a buf = buf @
     [FRAME_ACK_ENVELOPE] @
     to_le_bytes 4 (fa_newest_seq a) @
     to_le_bytes 8 (fa_decoded_mask a) @
     to_le_bytes 8 (fa_refused_mask a)"

definition FrameAck_decode :: "bytes \<Rightarrow> (ProtocolError, FrameAck) result" where
  "FrameAck_decode data =
     (if length data < FRAME_ACK_SIZE then Inl (TooShort FRAME_ACK_SIZE (length data))
      else if data ! 0 \<noteq> FRAME_ACK_ENVELOPE then Inl (UnknownEnvelope (data ! 0))
      else if length data \<noteq> FRAME_ACK_SIZE then Inl InvalidLength
      else Inr \<lparr> fa_newest_seq = from_le_bytes (bslice 1 5 data),
                 fa_decoded_mask = from_le_bytes (bslice 5 13 data),
                 fa_refused_mask = from_le_bytes (bslice 13 21 data) \<rparr>)"

text \<open>31-bit serial order: how far \<open>seq\<close> lies behind the newest frame.\<close>

definition FrameAck_bit :: "FrameAck \<Rightarrow> u64 \<Rightarrow> u32 \<Rightarrow> bool" where
  "FrameAck_bit a m seq \<longleftrightarrow>
     (let back = (fa_newest_seq a - seq) AND 0x7FFFFFFF
      in back < 64 \<and> drop_bit (unat back) m AND 1 = 1)"

definition FrameAck_is_decoded :: "FrameAck \<Rightarrow> u32 \<Rightarrow> bool" where
  "FrameAck_is_decoded a seq = FrameAck_bit a (fa_decoded_mask a) seq"

definition FrameAck_is_refused :: "FrameAck \<Rightarrow> u32 \<Rightarrow> bool" where
  "FrameAck_is_refused a seq = FrameAck_bit a (fa_refused_mask a) seq"

lemma FrameAck_roundtrip: "FrameAck_decode (FrameAck_encode a []) = Inr a"
  by (simp add: FrameAck_decode_def FrameAck_encode_def bslice_simps)

section \<open>Batched ACKs\<close>

definition ACK_BATCH_MSG_TYPE :: u8 where "ACK_BATCH_MSG_TYPE = 0x06"
definition MAX_FRESH_ENTRIES_PER_BATCH :: nat where "MAX_FRESH_ENTRIES_PER_BATCH = 64"
definition ACK_OVERLAP_COUNT :: nat where "ACK_OVERLAP_COUNT = 8"
definition MAX_ACK_ENTRIES_PER_BATCH :: nat where
  "MAX_ACK_ENTRIES_PER_BATCH = MAX_FRESH_ENTRIES_PER_BATCH + ACK_OVERLAP_COUNT"
definition ACK_ENTRY_SIZE :: nat where "ACK_ENTRY_SIZE = 6"

lemmas ack_sizes = MAX_FRESH_ENTRIES_PER_BATCH_def ACK_OVERLAP_COUNT_def
  MAX_ACK_ENTRIES_PER_BATCH_def ACK_ENTRY_SIZE_def

datatype AckDecodeError = AckTooShort nat | WrongMsgType u8 | InvalidCount u8

record AckEntry =
  ae_wire_seq :: u32
  ae_arrival_time_ms_lo16 :: u16

record AckBatch =
  ab_entries :: "AckEntry list"

definition AckEntry_bytes :: "AckEntry \<Rightarrow> bytes" where
  "AckEntry_bytes e = to_le_bytes 4 (ae_wire_seq e) @
     [ucast (ae_arrival_time_ms_lo16 e AND 0xFF),
      ucast (drop_bit 8 (ae_arrival_time_ms_lo16 e) AND 0xFF)]"

definition AckBatch_encode :: "AckBatch \<Rightarrow> bytes" where
  "AckBatch_encode b =
     [ACK_BATCH_MSG_TYPE, of_nat (length (ab_entries b))] @ concat (map AckEntry_bytes (ab_entries b))"

definition AckEntry_at :: "bytes \<Rightarrow> nat \<Rightarrow> AckEntry" where
  "AckEntry_at data off =
     \<lparr> ae_wire_seq =
         from_le_bytes [data ! off, data ! (off + 1), data ! (off + 2), data ! (off + 3)],
       ae_arrival_time_ms_lo16 =
         ucast (data ! (off + 4)) OR push_bit 8 (ucast (data ! (off + 5))) \<rparr>"

definition AckBatch_decode :: "bytes \<Rightarrow> (AckDecodeError, AckBatch) result" where
  "AckBatch_decode data =
     (if length data < 2 then Inl (AckTooShort (length data))
      else if data ! 0 \<noteq> ACK_BATCH_MSG_TYPE then Inl (WrongMsgType (data ! 0))
      else
        let count = data ! 1 in
        if count = 0 \<or> unat count > MAX_ACK_ENTRIES_PER_BATCH then Inl (InvalidCount count)
        else
          let need = 2 + unat count * ACK_ENTRY_SIZE in
          if length data < need then Inl (AckTooShort (length data))
          else Inr \<lparr> ab_entries =
                 map (\<lambda>i. AckEntry_at data (2 + i * ACK_ENTRY_SIZE)) [0..<unat count] \<rparr>)"

lemma length_AckEntry_bytes [simp]: "length (AckEntry_bytes e) = 6"
  by (simp add: AckEntry_bytes_def)

lemma u16_bytes_join:
  "(ucast (ucast (w AND 0xFF) :: u8) OR push_bit 8 (ucast (ucast (drop_bit 8 w AND 0xFF) :: u8))) = (w :: u16)"
proof -
  have m: "(0xFF :: u16) = mask 8" by (simp add: mask_eq_exp_minus_1)
  show ?thesis unfolding m by (rule bit_word_eqI) (auto simp: bit_simps)
qed

lemma AckEntry_at_drop: "off \<le> length data \<Longrightarrow> AckEntry_at data off = AckEntry_at (drop off data) 0"
  by (simp add: AckEntry_at_def)

lemma AckEntry_at_bytes: "AckEntry_at (AckEntry_bytes e @ tail) 0 = e"
proof -
  define x :: u8 where "x = ucast (ae_arrival_time_ms_lo16 e AND 0xFF)"
  define y :: u8 where "y = ucast (drop_bit 8 (ae_arrival_time_ms_lo16 e) AND 0xFF)"
  have arrival: "ucast x OR push_bit 8 (ucast y) = ae_arrival_time_ms_lo16 e"
    unfolding x_def y_def by (rule u16_bytes_join)
  have "length (to_le_bytes 4 (ae_wire_seq e)) = Suc (Suc (Suc (Suc 0)))" by simp
  then obtain a b c d where abcd: "to_le_bytes 4 (ae_wire_seq e) = [a, b, c, d]"
    by (auto simp only: length_Suc_conv length_0_conv)
  have "from_le_bytes [a, b, c, d] = ae_wire_seq e" unfolding abcd[symmetric] by simp
  then show ?thesis
    unfolding AckEntry_at_def AckEntry_bytes_def abcd x_def[symmetric] y_def[symmetric]
    using arrival by (simp del: from_le_bytes.simps)
qed

lemma AckBatch_roundtrip:
  assumes n: "ab_entries b \<noteq> []" "length (ab_entries b) \<le> MAX_ACK_ENTRIES_PER_BATCH"
  shows "AckBatch_decode (AckBatch_encode b @ rest) = Inr b"
proof -
  let ?es = "ab_entries b" and ?pre = "[ACK_BATCH_MSG_TYPE, of_nat (length (ab_entries b))]"
  define data where "data = AckBatch_encode b @ rest"
  have data: "data = ?pre @ concat (map AckEntry_bytes ?es) @ rest"
    by (simp add: data_def AckBatch_encode_def)
  have "map (\<lambda>i. AckEntry_at data (length ?pre + i * 6)) [0..<length ?es] = ?es"
    unfolding data
    by (rule decode_table[where dec = "\<lambda>d. AckEntry_at d 0"])
      (rule length_AckEntry_bytes AckEntry_at_bytes AckEntry_at_drop, assumption?)+
  moreover have "length data = 2 + length ?es * 6 + length rest"
    using length_concat_map_const[of ?es AckEntry_bytes 6] by (simp add: data)
  moreover have cnt: "unat (of_nat (length ?es) :: u8) = length ?es"
    using n by (simp add: unat_of_nat ack_sizes)
  moreover have "(of_nat (length ?es) :: u8) \<noteq> 0"
    using n cnt by (metis length_0_conv unat_0)
  moreover have "data ! 0 = ACK_BATCH_MSG_TYPE" "data ! 1 = of_nat (length ?es)"
    by (simp_all add: data)
  ultimately show ?thesis
    using n unfolding data_def[symmetric] AckBatch_decode_def by (simp add: Let_def ack_sizes)
qed

section \<open>Eviction\<close>

definition EVICTION_SENTINEL_X :: u8 where "EVICTION_SENTINEL_X = 0xFE"
definition EVICTION_SENTINEL_Y :: u8 where "EVICTION_SENTINEL_Y = 0xFE"

datatype EvictionReason = DisplacedByNewSession | Unknown u8

fun EvictionReason_to_byte :: "EvictionReason \<Rightarrow> u8" where
  "EvictionReason_to_byte DisplacedByNewSession = 1"
| "EvictionReason_to_byte (Unknown b) = b"

definition EvictionReason_from_byte :: "u8 \<Rightarrow> EvictionReason" where
  "EvictionReason_from_byte b = (if b = 1 then DisplacedByNewSession else Unknown b)"

text \<open>\<open>None\<close> is the \<^verbatim>\<open>assert_eq!\<close> on the number of datagrams.\<close>

definition build_eviction_datagram :: "EvictionReason \<Rightarrow> bytes option" where
  "build_eviction_datagram reason =
     (let payload = [EvictionReason_to_byte reason];
          inputs = \<lparr> tfi_frame_seq = TILE_DATAGRAM_FLAG,
                     tfi_tile_x = EVICTION_SENTINEL_X,
                     tfi_tile_y = EVICTION_SENTINEL_Y,
                     tfi_codec = Skip,
                     tfi_generation = 0,
                     tfi_pass = 0,
                     tfi_timestamp_us = 0 \<rparr>
      in case fragment_tile inputs payload (length payload) of
           Some datagrams \<Rightarrow> if length datagrams = 1 then Some (hd datagrams) else None
         | None \<Rightarrow> None)"

definition parse_eviction :: "bytes \<Rightarrow> EvictionReason option" where
  "parse_eviction datagram =
     (case res_ok (decode_tile_datagram datagram) of
        None \<Rightarrow> None
      | Some (_, th, payload) \<Rightarrow>
          if th_tile_x th \<noteq> EVICTION_SENTINEL_X \<or> th_tile_y th \<noteq> EVICTION_SENTINEL_Y then None
          else Some (EvictionReason_from_byte (case payload of [] \<Rightarrow> 0 | b # _ \<Rightarrow> b)))"

section \<open>Receiver feedback and reset requests\<close>

definition FEEDBACK_MSG_TYPE :: u8 where "FEEDBACK_MSG_TYPE = 0x01"
definition FEEDBACK_SIZE :: nat where [simp]: "FEEDBACK_SIZE = 18"
definition HELLO_MSG_TYPE :: u8 where "HELLO_MSG_TYPE = 0x03"
definition HELLO_SIZE :: nat where [simp]: "HELLO_SIZE = 2"
definition DECODE_ERROR_MSG_TYPE :: u8 where "DECODE_ERROR_MSG_TYPE = 0x04"
definition INPUT_MSG_TYPE :: u8 where "INPUT_MSG_TYPE = 0x05"
definition DISPLAY_INFO_MSG_TYPE :: u8 where "DISPLAY_INFO_MSG_TYPE = 0x07"
definition DISPLAY_MODE_MSG_TYPE :: u8 where "DISPLAY_MODE_MSG_TYPE = 0x08"
definition RESET_REQUEST_MSG_TYPE :: u8 where "RESET_REQUEST_MSG_TYPE = 0x09"
definition RESET_REQUEST_SIZE :: nat where [simp]: "RESET_REQUEST_SIZE = 6"
definition HELLO_CAP_INDICES_RAW :: u8 where "HELLO_CAP_INDICES_RAW = 0x01"
definition HELLO_CAP_SUPPORTS_H264 :: u8 where "HELLO_CAP_SUPPORTS_H264 = 0x02"
definition HELLO_CAP_H264_ACKED_REF :: u8 where "HELLO_CAP_H264_ACKED_REF = 0x04"

lemmas msg_types = FEEDBACK_MSG_TYPE_def HELLO_MSG_TYPE_def DECODE_ERROR_MSG_TYPE_def
  INPUT_MSG_TYPE_def DISPLAY_INFO_MSG_TYPE_def DISPLAY_MODE_MSG_TYPE_def RESET_REQUEST_MSG_TYPE_def

record ReceiverFeedback =
  rf_timestamp_ns :: u64
  rf_datagrams_received :: u32
  rf_datagrams_recovered_fec :: u32
  rf_suspension_detected :: bool

definition ReceiverFeedback_encode :: "ReceiverFeedback \<Rightarrow> bytes \<Rightarrow> bytes" where
  "ReceiverFeedback_encode fb buf = buf @
     [FEEDBACK_MSG_TYPE] @
     to_be_bytes 8 (rf_timestamp_ns fb) @
     to_be_bytes 4 (rf_datagrams_received fb) @
     to_be_bytes 4 (rf_datagrams_recovered_fec fb) @
     [if rf_suspension_detected fb then 0x01 else 0x00]"

definition ReceiverFeedback_decode :: "bytes \<Rightarrow> ReceiverFeedback option" where
  "ReceiverFeedback_decode data =
     (if length data < FEEDBACK_SIZE then None
      else if data ! 0 \<noteq> FEEDBACK_MSG_TYPE then None
      else Some \<lparr> rf_timestamp_ns = from_be_bytes (bslice 1 9 data),
                  rf_datagrams_received = from_be_bytes (bslice 9 13 data),
                  rf_datagrams_recovered_fec = from_be_bytes (bslice 13 17 data),
                  rf_suspension_detected = (data ! 17 AND 0x01 \<noteq> 0) \<rparr>)"

lemma length_ReceiverFeedback_encode [size_simps]:
  "length (ReceiverFeedback_encode fb buf) = length buf + 18"
  by (simp add: ReceiverFeedback_encode_def)

lemma ReceiverFeedback_roundtrip:
  "ReceiverFeedback_decode (ReceiverFeedback_encode fb [] @ rest) = Some fb"
  by (simp add: ReceiverFeedback_decode_def ReceiverFeedback_encode_def bslice_simps nth_append_skip
      nth_Cons')

datatype ResetReason = DecoderFailure | Resolution | NoDecoder | GateReset

fun ResetReason_to_u8 :: "ResetReason \<Rightarrow> u8" where
  "ResetReason_to_u8 DecoderFailure = 1"
| "ResetReason_to_u8 Resolution = 2"
| "ResetReason_to_u8 NoDecoder = 3"
| "ResetReason_to_u8 GateReset = 4"

definition ResetReason_from_u8 :: "u8 \<Rightarrow> ResetReason option" where
  "ResetReason_from_u8 b =
     (if b = 1 then Some DecoderFailure
      else if b = 2 then Some Resolution
      else if b = 3 then Some NoDecoder
      else if b = 4 then Some GateReset
      else None)"

lemma ResetReason_from_to_u8 [simp]: "ResetReason_from_u8 (ResetReason_to_u8 r) = Some r"
  by (cases r) (simp_all add: ResetReason_from_u8_def)

record ResetRequest =
  rr_reason :: ResetReason
  rr_frame_seq :: u32

definition ResetRequest_encode :: "ResetRequest \<Rightarrow> bytes \<Rightarrow> bytes" where
  "ResetRequest_encode r buf = buf @
     [RESET_REQUEST_MSG_TYPE, ResetReason_to_u8 (rr_reason r)] @ to_le_bytes 4 (rr_frame_seq r)"

definition ResetRequest_decode :: "bytes \<Rightarrow> ResetRequest option" where
  "ResetRequest_decode data =
     (if length data < RESET_REQUEST_SIZE \<or> data ! 0 \<noteq> RESET_REQUEST_MSG_TYPE then None
      else case ResetReason_from_u8 (data ! 1) of
             None \<Rightarrow> None
           | Some reason \<Rightarrow>
               Some \<lparr> rr_reason = reason, rr_frame_seq = from_le_bytes (bslice 2 6 data) \<rparr>)"

lemma length_ResetRequest_encode [size_simps]: "length (ResetRequest_encode r buf) = length buf + 6"
  by (simp add: ResetRequest_encode_def)

lemma ResetRequest_roundtrip: "ResetRequest_decode (ResetRequest_encode r [] @ rest) = Some r"
  by (simp add: ResetRequest_decode_def ResetRequest_encode_def bslice_simps)

section \<open>Inbound classification\<close>

datatype InboundKind =
    IK_Empty | IK_Unknown | IK_Hello | IK_AckBatchV1 | IK_AckBatch | IK_TileParity
  | IK_TileNack | IK_FrameAck | IK_FrameFragment | IK_TileFragment

definition classify_inbound :: "bytes \<Rightarrow> InboundKind" where
  "classify_inbound data =
     (case data of
        [] \<Rightarrow> IK_Empty
      | first # _ \<Rightarrow>
          if first = FEEDBACK_MSG_TYPE then IK_Hello
          else if 0x02 \<le> first \<and> first \<le> 0x04 then IK_AckBatchV1
          else if first = ACK_BATCH_MSG_TYPE then IK_AckBatch
          else if first = TILE_NACK_ENVELOPE then IK_TileNack
          else if first = FRAME_ACK_ENVELOPE then IK_FrameAck
          else if first < 0x10 then IK_Unknown
          else if first < 0x80 then IK_FrameFragment
          else IK_TileFragment)"

section \<open>Properties\<close>

text \<open>
  C5. Client datagrams reach their handler.  An ACK batch of 1 to 72 entries, a NACK envelope of at
  most 64 entries and a frame acknowledgement are each classified as what they are, and the server's
  decoder for that kind gives back exactly what the client encoded, for the first two even with bytes
  behind the message.
\<close>

theorem inbound_routing:
  assumes "ab_entries b \<noteq> []" "length (ab_entries b) \<le> MAX_ACK_ENTRIES_PER_BATCH"
    and "length (nk_entries n) \<le> TILE_NACK_MAX_ENTRIES"
  shows "classify_inbound (AckBatch_encode b @ rest) = IK_AckBatch \<and>
      AckBatch_decode (AckBatch_encode b @ rest) = Inr b \<and>
    classify_inbound (TileNackEnvelope_encode n [] @ rest) = IK_TileNack \<and>
      TileNackEnvelope_decode (TileNackEnvelope_encode n [] @ rest) = Inr n \<and>
    classify_inbound (FrameAck_encode a []) = IK_FrameAck \<and>
      FrameAck_decode (FrameAck_encode a []) = Inr a"
  using assms AckBatch_roundtrip[OF assms(1,2)] TileNackEnvelope_roundtrip[of n] FrameAck_roundtrip[of a]
  by (simp add: classify_inbound_def AckBatch_encode_def TileNackEnvelope_encode_def
      TileNackEnvelope_write_def FrameAck_encode_def msg_types ACK_BATCH_MSG_TYPE_def
      TILE_NACK_ENVELOPE_def FRAME_ACK_ENVELOPE_def)

theorem inbound_routing_witness:
  "AckBatch_decode (AckBatch_encode \<lparr> ab_entries = [\<lparr> ae_wire_seq = 5, ae_arrival_time_ms_lo16 = 9 \<rparr>] \<rparr> @ [])
     = Inr \<lparr> ab_entries = [\<lparr> ae_wire_seq = 5, ae_arrival_time_ms_lo16 = 9 \<rparr>] \<rparr>"
  using inbound_routing[of "\<lparr> ab_entries = [\<lparr> ae_wire_seq = 5, ae_arrival_time_ms_lo16 = 9 \<rparr>] \<rparr>"
      "\<lparr> nk_entries = [] \<rparr>" "[]"]
  by (simp add: ack_sizes)

text \<open>
  C6. Eviction notice.  Building the notice never panics; it is a tile datagram at the eviction
  sentinel, and parsing it gives the reason back, an unknown byte as itself (the byte 1 is the known
  reason).  No datagram of a tile at another position is taken for a notice.
\<close>

theorem eviction_roundtrip:
  "\<exists>d. build_eviction_datagram r = Some d \<and> is_tile_datagram d \<and>
     parse_eviction d = Some (if r = Unknown 1 then DisplacedByNewSession else r) \<and>
     (\<forall>th dh p. (th_tile_x th, th_tile_y th) \<noteq> (EVICTION_SENTINEL_X, EVICTION_SENTINEL_Y) \<longrightarrow>
        parse_eviction (TileHeader_encode th (DatagramHeader_encode dh []) @ p) = None)"
proof -
  have neg: "parse_eviction (TileHeader_encode th (DatagramHeader_encode dh []) @ p) = None"
    if "(th_tile_x th, th_tile_y th) \<noteq> (EVICTION_SENTINEL_X, EVICTION_SENTINEL_Y)" for th dh p
    using that by (auto simp: parse_eviction_def decode_tile_datagram_encoded)
  have flag: "bit TILE_DATAGRAM_FLAG 31" by (simp add: TILE_DATAGRAM_FLAG_bit)
  have rs: "EvictionReason_from_byte (EvictionReason_to_byte r) =
      (if r = Unknown 1 then DisplacedByNewSession else r)"
    by (cases r) (auto simp: EvictionReason_from_byte_def)
  show ?thesis
    using neg flag
    by (simp add: build_eviction_datagram_def fragment_tile_single tile_fragment_headers_def
        parse_eviction_def decode_tile_datagram_encoded[unfolded append_assoc] rs
        is_tile_datagram_encoded[unfolded append_assoc])
qed

theorem eviction_roundtrip_witness:
  "\<exists>d. build_eviction_datagram (Unknown 9) = Some d \<and> parse_eviction d = Some (Unknown 9)"
  using eviction_roundtrip[of "Unknown 9"] by auto

end
