(* ===== verification/Pal_Rle.thy ===== *)
theory Pal_Rle
  imports Prelude
begin

text \<open>
  The PalRLE and Solid tile codecs of \<^verbatim>\<open>ghostframe-protocol/src/codec\<close>: 1024 palette indices of
  four bits, two to a byte, run-length encoded one byte per run of at most 16, behind a header that
  names a palette slot and may carry the palette.  An array \<^verbatim>\<open>[u8; 4]\<close> is a 4-tuple.
\<close>

section \<open>Solid\<close>

datatype SolidDecodeError = WrongSize nat

text \<open>\<open>None\<close> is the panic on a tile of fewer than four bytes.\<close>

type_synonym quad = "u8 \<times> u8 \<times> u8 \<times> u8"

fun quad_bytes :: "quad \<Rightarrow> bytes" where
  "quad_bytes (a, b, c, d) = [a, b, c, d]"

definition quad_at :: "bytes \<Rightarrow> nat \<Rightarrow> quad" where
  "quad_at bs off = (bs ! off, bs ! (off + 1), bs ! (off + 2), bs ! (off + 3))"

definition encode_solid :: "bytes \<Rightarrow> quad option" where
  "encode_solid tile_bgra = (if length tile_bgra < 4 then None else Some (quad_at tile_bgra 0))"

definition decode_solid :: "bytes \<Rightarrow> (SolidDecodeError, quad) result" where
  "decode_solid payload =
     (if length payload \<noteq> 4 then Inl (WrongSize (length payload)) else Inr (quad_at payload 0))"

lemma length_quad_bytes [simp]: "length (quad_bytes q) = 4"
  by (cases q) simp

lemma quad_at_bytes [simp]: "quad_at (quad_bytes q @ rest) 0 = q"
  by (cases q) (simp add: quad_at_def)

lemma quad_at_drop: "off \<le> length bs \<Longrightarrow> quad_at bs off = quad_at (drop off bs) 0"
  by (simp add: quad_at_def)

lemma quad_bytes_at: "off + 4 \<le> length bs \<Longrightarrow> quad_bytes (quad_at bs off) = take 4 (drop off bs)"
  by (rule nth_equalityI) (auto simp: quad_at_def nth_Cons' numeral_eq_Suc less_Suc_eq)

section \<open>Palettes\<close>

definition MAX_PALETTE_COUNT :: nat where [simp]: "MAX_PALETTE_COUNT = 16"

record PaletteEntry =
  pe_colors :: "quad list"
  pe_count :: u8

definition PaletteEntry_default :: PaletteEntry where
  "PaletteEntry_default = \<lparr> pe_colors = replicate MAX_PALETTE_COUNT (0, 0, 0, 0), pe_count = 0 \<rparr>"

text \<open>The array bound of \<open>colors\<close>, and a count within it.\<close>

definition palette_wf :: "PaletteEntry \<Rightarrow> bool" where
  "palette_wf p \<longleftrightarrow> length (pe_colors p) = MAX_PALETTE_COUNT \<and>
     1 \<le> unat (pe_count p) \<and> unat (pe_count p) \<le> MAX_PALETTE_COUNT"

definition palette_fingerprint_bgra :: "bytes \<Rightarrow> u32" where
  "palette_fingerprint_bgra bgra =
     foldl (\<lambda>acc b. acc * 0x01000193 + ucast b) (push_bit 24 (of_nat (length bgra div 4) AND 0xFF)) bgra"

definition palette_fingerprint :: "PaletteEntry \<Rightarrow> u32" where
  "palette_fingerprint p =
     (let count = min (unat (pe_count p)) MAX_PALETTE_COUNT
      in palette_fingerprint_bgra (concat (map quad_bytes (take count (pe_colors p)))))"

section \<open>Run-length coding of the indices\<close>

text \<open>The 1024 nibbles in scan order: the low nibble of a byte is the earlier pixel.\<close>

definition nibbles :: "bytes \<Rightarrow> u8 list" where
  "nibbles packed = concat (map (\<lambda>byte. [lo_nibble byte, hi_nibble byte]) packed)"

text \<open>One pixel: extend the current run, or close it and start the next.\<close>

fun pal_rle_step :: "u8 \<times> u8 \<times> bytes \<Rightarrow> u8 \<Rightarrow> u8 \<times> u8 \<times> bytes" where
  "pal_rle_step (cur_idx, cur_run, out) idx =
     (if idx = cur_idx \<and> cur_run < 16 then (cur_idx, cur_run + 1, out)
      else (idx, 1, out @ [pack_nibbles cur_idx (cur_run - 1)]))"

definition encode_pal_rle_indices :: "bytes \<Rightarrow> bytes" where
  "encode_pal_rle_indices packed_indices =
     (let (cur_idx, cur_run, out) =
            foldl pal_rle_step (lo_nibble (packed_indices ! 0), 0, []) (nibbles packed_indices)
      in out @ [pack_nibbles cur_idx (cur_run - 1)])"

text \<open>What a run byte stands for, and the specification of a run-length stream.\<close>

definition run_pixels :: "u8 \<Rightarrow> u8 list" where
  "run_pixels b = replicate (unat (lo_nibble b) + 1) (hi_nibble b)"

definition expand_runs :: "bytes \<Rightarrow> u8 list" where
  "expand_runs bs = concat (map run_pixels bs)"

lemma length_run_pixels: "length (run_pixels b) = unat (lo_nibble b) + 1"
  by (simp add: run_pixels_def)

lemma expand_runs_simps [simp]:
  "expand_runs [] = []" "expand_runs (b # bs) = run_pixels b @ expand_runs bs"
  "expand_runs (xs @ ys) = expand_runs xs @ expand_runs ys"
  by (simp_all add: expand_runs_def)

lemma length_expand_runs_ge: "length bs \<le> length (expand_runs bs)"
  by (induction bs) (simp_all add: length_run_pixels)

lemma length_nibbles [simp]: "length (nibbles p) = 2 * length p"
  by (induction p) (simp_all add: nibbles_def)

lemma nibbles_Nil_iff [simp]: "nibbles p = [] \<longleftrightarrow> p = []"
  by (metis length_0_conv length_nibbles mult_eq_0_iff zero_neq_numeral)

lemma nibbles_less: "n \<in> set (nibbles p) \<Longrightarrow> unat n < 16"
  by (auto simp: nibbles_def lo_nibble_less hi_nibble_less)

lemma run_pixels_pack:
  assumes "unat i < 16" "0 < r" "r \<le> 16"
  shows "run_pixels (pack_nibbles i (r - 1)) = replicate (unat r) i"
proof -
  have r: "unat (r - 1) = unat r - 1" using assms by (simp add: unat_minus_one)
  have r1: "unat r \<le> 16" "0 < unat r" using assms by (simp_all add: word_le_nat_alt word_less_nat_alt)
  then have "lo_nibble (r - 1) = r - 1" by (intro lo_nibble_small) (simp add: r)
  moreover have "lo_nibble i = i" using assms by (intro lo_nibble_small) simp
  ultimately have "hi_nibble (pack_nibbles i (r - 1)) = i" "lo_nibble (pack_nibbles i (r - 1)) = r - 1"
    using hi_pack_nibbles[of i "r - 1"] lo_pack_nibbles[of i "r - 1"] by simp_all
  then show ?thesis using r r1 by (simp add: run_pixels_def)
qed

text \<open>The encoder's state after a non-empty prefix: a legal open run, and the pixels seen so far.\<close>

fun rle_state_ok :: "u8 \<times> u8 \<times> bytes \<Rightarrow> bool" where
  "rle_state_ok (i, r, out) \<longleftrightarrow> unat i < 16 \<and> 0 < r \<and> r \<le> 16"

fun rle_state_pixels :: "u8 \<times> u8 \<times> bytes \<Rightarrow> u8 list" where
  "rle_state_pixels (i, r, out) = expand_runs out @ replicate (unat r) i"

lemma pal_rle_step_ok:
  assumes "rle_state_ok s" "unat n < 16"
  shows "rle_state_ok (pal_rle_step s n) \<and> rle_state_pixels (pal_rle_step s n) = rle_state_pixels s @ [n]"
proof (cases s)
  case (fields i r out)
  show ?thesis
  proof (cases "n = i \<and> r < 16")
    case True
    then have "unat (r + 1) = unat r + 1"
      by (simp add: word_less_nat_alt unat_word_ariths)
    then show ?thesis using True assms fields
      by (simp add: word_le_nat_alt word_less_nat_alt replicate_append_same)
  next
    case False
    then show ?thesis using assms fields run_pixels_pack[of i r]
      by (auto simp: word_le_nat_alt word_less_nat_alt)
  qed
qed

lemma pal_rle_foldl_ok:
  assumes "rle_state_ok s" "\<And>n. n \<in> set ns \<Longrightarrow> unat n < 16"
  shows "rle_state_ok (foldl pal_rle_step s ns) \<and>
     rle_state_pixels (foldl pal_rle_step s ns) = rle_state_pixels s @ ns"
  using assms
proof (induction ns arbitrary: s)
  case (Cons n ns)
  then show ?case using pal_rle_step_ok[of s n] by (simp del: pal_rle_step.simps)
qed simp

theorem expand_encode_indices:
  assumes "packed \<noteq> []"
  shows "expand_runs (encode_pal_rle_indices packed) = nibbles packed"
proof -
  obtain b bs where p: "packed = b # bs" using assms by (cases packed) auto
  let ?ns = "hi_nibble b # nibbles bs"
  have ns: "nibbles packed = lo_nibble b # ?ns" by (simp add: p nibbles_def)
  have hd0: "packed ! 0 = b" by (simp add: p)
  have first: "pal_rle_step (lo_nibble b, 0, []) (lo_nibble b) = (lo_nibble b, 1, [])" by simp
  have small: "\<And>n. n \<in> set ?ns \<Longrightarrow> unat n < 16"
    using nibbles_less[of _ packed] by (simp add: ns)
  define s where "s = foldl pal_rle_step (lo_nibble b, 1, []) ?ns"
  have "rle_state_ok (lo_nibble b, 1, [])" by (simp add: lo_nibble_less)
  then have s: "rle_state_ok s" "rle_state_pixels s = lo_nibble b # ?ns"
    using pal_rle_foldl_ok[of "(lo_nibble b, 1, [])" ?ns] small by (simp_all add: s_def)
  have "foldl pal_rle_step (lo_nibble (packed ! 0), 0, []) (nibbles packed) = s"
    unfolding ns s_def foldl_Cons hd0 first ..
  then show ?thesis
    using s run_pixels_pack by (cases s) (simp add: encode_pal_rle_indices_def ns)
qed

section \<open>Payloads\<close>

definition MAX_PAL_RLE_PAYLOAD :: nat where
  "MAX_PAL_RLE_PAYLOAD = 2 + 1 + MAX_PALETTE_COUNT * 4 + 1024"

text \<open>\<open>None\<close> is the panic on a bundled palette whose count exceeds its array.\<close>

definition encode_pal_rle_payload :: "bytes \<Rightarrow> PaletteEntry \<Rightarrow> u8 \<Rightarrow> bool \<Rightarrow> bytes option" where
  "encode_pal_rle_payload packed_indices palette palette_id bundled =
     (let header = [if bundled then 0x01 else 0x00, palette_id];
          count = unat (pe_count palette) in
      if bundled then
        if length (pe_colors palette) < count then None
        else Some (header @ [pe_count palette] @
                   concat (map quad_bytes (take count (pe_colors palette))) @
                   encode_pal_rle_indices packed_indices)
      else Some (header @ encode_pal_rle_indices packed_indices))"

definition encode_pal_rle_payload_indices_raw :: "bytes \<Rightarrow> u8 \<Rightarrow> bytes" where
  "encode_pal_rle_payload_indices_raw packed_indices palette_id =
     [0x02, palette_id] @ packed_indices"

datatype PalRleDecodeError =
    Truncated (pt_needed: nat) (pt_offset: nat) (pt_got: nat)
  | UncachedPalette u8
  | IndexOutOfRange u8 u8
  | PixelCountMismatch nat
  | PaletteCountOutOfRange u8

record DecodedPalRle =
  dp_pixels :: bytes
  dp_updated_palette :: "(u8 \<times> PaletteEntry) option"

text \<open>The check \<open>needed(n, off)\<close> against a payload of length \<open>len\<close>.\<close>

definition pal_needed :: "nat \<Rightarrow> nat \<Rightarrow> nat \<Rightarrow> (PalRleDecodeError, unit) result" where
  "pal_needed len n off = (if len < off + n then Inl (Truncated n off (len - off)) else Inr ())"

text \<open>The bundled palette block at offset 2: the palette and the offset behind it.\<close>

definition decode_bundled_palette ::
    "bytes \<Rightarrow> nat \<Rightarrow> (PalRleDecodeError, PaletteEntry \<times> nat) result" where
  "decode_bundled_palette payload cursor =
     res_bind (pal_needed (length payload) 1 cursor) (\<lambda>_.
     let count = payload ! cursor; cursor = cursor + 1 in
     if unat count > MAX_PALETTE_COUNT \<or> count = 0 then Inl (PaletteCountOutOfRange count)
     else res_bind (pal_needed (length payload) (unat count * 4) cursor) (\<lambda>_.
     Inr (PaletteEntry_default\<lparr> pe_count := count,
            pe_colors := map (\<lambda>i. quad_at payload (cursor + i * 4)) [0..<unat count]
                         @ drop (unat count) (pe_colors PaletteEntry_default) \<rparr>,
          cursor + unat count * 4)))"

text \<open>Alpha 0 in the source means opaque.\<close>

fun fix_alpha :: "quad \<Rightarrow> quad" where
  "fix_alpha (b, g, r, a) = (b, g, r, if a = 0 then 255 else a)"

text \<open>\<^verbatim>\<open>pixels[off..off + 4].copy_from_slice(..)\<close>\<close>

definition write_at :: "nat \<Rightarrow> bytes \<Rightarrow> bytes \<Rightarrow> bytes" where
  "write_at off bs buf = take off buf @ bs @ drop (off + length bs) buf"

primrec write_run :: "nat \<Rightarrow> quad \<Rightarrow> nat \<Rightarrow> bytes \<Rightarrow> bytes" where
  "write_run 0 color pixel_idx pixels = pixels"
| "write_run (Suc n) color pixel_idx pixels =
     write_run n color (pixel_idx + 1) (write_at (pixel_idx * 4) (quad_bytes color) pixels)"

fun decode_pal_rle_loop ::
    "PaletteEntry \<Rightarrow> bytes \<Rightarrow> nat \<Rightarrow> bytes \<Rightarrow> (PalRleDecodeError, nat \<times> bytes) result" where
  "decode_pal_rle_loop palette [] pixel_idx pixels = Inr (pixel_idx, pixels)"
| "decode_pal_rle_loop palette (b # rest) pixel_idx pixels =
     (let idx = hi_nibble b; run_len = unat (lo_nibble b) + 1 in
      if idx \<ge> pe_count palette then Inl (IndexOutOfRange idx (pe_count palette))
      else
        let color = fix_alpha (pe_colors palette ! unat idx) in
        if pixel_idx + run_len > 1024 then Inl (PixelCountMismatch (pixel_idx + run_len))
        else decode_pal_rle_loop palette rest (pixel_idx + run_len)
               (write_run run_len color pixel_idx pixels))"

definition decode_pal_rle ::
    "bytes \<Rightarrow> PaletteEntry option \<Rightarrow> (PalRleDecodeError, DecodedPalRle) result" where
  "decode_pal_rle payload cached_palette =
     res_bind (pal_needed (length payload) 2 0) (\<lambda>_.
     let flags = payload ! 0; palette_id = payload ! 1; bundled = (flags AND 0x01 \<noteq> 0) in
     res_bind (if bundled
               then res_bind (decode_bundled_palette payload 2) (\<lambda>(p, cursor). Inr (Some p, cursor))
               else Inr (None, 2)) (\<lambda>(palette_owned, cursor).
     res_bind (case (palette_owned, cached_palette) of
                 (Some p, _) \<Rightarrow> Inr p
               | (None, Some p) \<Rightarrow> Inr p
               | (None, None) \<Rightarrow> Inl (UncachedPalette palette_id)) (\<lambda>palette.
     res_bind (decode_pal_rle_loop palette (drop cursor payload) 0 (replicate (1024 * 4) 0))
       (\<lambda>(pixel_idx, pixels).
     if pixel_idx \<noteq> 1024 then Inl (PixelCountMismatch pixel_idx)
     else Inr \<lparr> dp_pixels = pixels,
                dp_updated_palette = map_option (\<lambda>p. (palette_id, p)) palette_owned \<rparr>))))"

text \<open>Writing pixels in order fills the buffer from the front.\<close>

lemma write_run_prefix:
  assumes "length (concat (map quad_bytes cs)) = 4 * n" "4 * (n + k) \<le> length buf"
  shows "write_run k c n (concat (map quad_bytes cs) @ drop (4 * n) buf) =
           concat (map quad_bytes (cs @ replicate k c)) @ drop (4 * (n + k)) buf"
  using assms
proof (induction k arbitrary: n cs)
  case (Suc k)
  have "write_at (n * 4) (quad_bytes c) (concat (map quad_bytes cs) @ drop (4 * n) buf) =
      concat (map quad_bytes (cs @ [c])) @ drop (4 * (n + 1)) buf"
    using Suc.prems by (simp add: write_at_def mult.commute[of n 4] add.commute)
  then have "write_run (Suc k) c n (concat (map quad_bytes cs) @ drop (4 * n) buf) =
      write_run k c (n + 1) (concat (map quad_bytes (cs @ [c])) @ drop (4 * (n + 1)) buf)"
    by simp
  also have "\<dots> = concat (map quad_bytes ((cs @ [c]) @ replicate k c)) @ drop (4 * (n + 1 + k)) buf"
    using Suc.prems by (intro Suc.IH) simp_all
  finally show ?case by simp
qed simp

definition pixel_color :: "PaletteEntry \<Rightarrow> u8 \<Rightarrow> quad" where
  "pixel_color p idx = fix_alpha (pe_colors p ! unat idx)"

lemma hi_nibble_in_run: "hi_nibble b \<in> set (run_pixels b)"
  by (simp add: run_pixels_def)

lemma decode_pal_rle_loop_expand:
  assumes "\<And>i. i \<in> set (expand_runs bs) \<Longrightarrow> i < pe_count p"
    and "length cs = n" "n + length (expand_runs bs) \<le> 1024" "length buf = 4096"
  shows "decode_pal_rle_loop p bs n (concat (map quad_bytes cs) @ drop (4 * n) buf) =
      Inr (n + length (expand_runs bs),
           concat (map quad_bytes (cs @ map (pixel_color p) (expand_runs bs)))
           @ drop (4 * (n + length (expand_runs bs))) buf)"
  using assms
proof (induction bs arbitrary: n cs)
  case (Cons b bs)
  let ?k = "unat (lo_nibble b) + 1" and ?c = "pixel_color p (hi_nibble b)"
  have idx: "hi_nibble b < pe_count p" using Cons.prems(1) hi_nibble_in_run[of b] by auto
  have len: "length (run_pixels b) = ?k" by (rule length_run_pixels)
  have cslen: "length (concat (map quad_bytes cs)) = 4 * n"
    using length_concat_map_const[of cs quad_bytes 4] Cons.prems(2) by simp
  have run: "write_run ?k ?c n (concat (map quad_bytes cs) @ drop (4 * n) buf) =
      concat (map quad_bytes (cs @ replicate ?k ?c)) @ drop (4 * (n + ?k)) buf"
    using Cons.prems len by (intro write_run_prefix cslen) simp
  have "decode_pal_rle_loop p (b # bs) n (concat (map quad_bytes cs) @ drop (4 * n) buf) =
      decode_pal_rle_loop p bs (n + ?k) (concat (map quad_bytes (cs @ replicate ?k ?c)) @ drop (4 * (n + ?k)) buf)"
    using idx Cons.prems(3) len run
    by (simp add: Let_def pixel_color_def not_le[symmetric] del: write_run.simps not_le)
  also have "\<dots> = Inr (n + ?k + length (expand_runs bs),
       concat (map quad_bytes ((cs @ replicate ?k ?c) @ map (pixel_color p) (expand_runs bs)))
           @ drop (4 * (n + ?k + length (expand_runs bs))) buf)"
    using Cons.prems len by (intro Cons.IH) auto
  also have "replicate ?k ?c = map (pixel_color p) (run_pixels b)"
    by (simp add: run_pixels_def)
  finally show ?case by (simp add: len add.assoc)
qed simp

lemma bundled_palette_roundtrip:
  assumes wf: "palette_wf p"
  defines "blk \<equiv> pe_count p # concat (map quad_bytes (take (unat (pe_count p)) (pe_colors p)))"
  shows "\<exists>q. decode_bundled_palette ([f, i] @ blk @ rest) 2 = Inr (q, 2 + length blk) \<and>
     pe_count q = pe_count p \<and> length (pe_colors q) = 16 \<and>
     take (unat (pe_count p)) (pe_colors q) = take (unat (pe_count p)) (pe_colors p)"
proof -
  let ?n = "unat (pe_count p)" and ?cs = "take (unat (pe_count p)) (pe_colors p)"
  let ?data = "[f, i] @ blk @ rest"
  have n: "1 \<le> ?n" "?n \<le> 16" "length ?cs = ?n" using wf by (auto simp: palette_wf_def)
  then have nz: "pe_count p \<noteq> 0" by (metis not_one_le_zero unat_0)
  have len: "length (concat (map quad_bytes ?cs)) = ?n * 4"
    using length_concat_map_const[of ?cs quad_bytes 4] n by simp
  have data: "?data = [f, i, pe_count p] @ concat (map quad_bytes ?cs) @ rest"
    by (simp add: blk_def)
  have tab: "map (\<lambda>j. quad_at ?data (length [f, i, pe_count p] + j * 4)) [0..<length ?cs] = ?cs"
    unfolding data
    by (rule decode_table[where dec = "\<lambda>d. quad_at d 0"])
      (rule length_quad_bytes quad_at_bytes quad_at_drop, assumption?)+
  then have tab': "map (\<lambda>j. quad_at ?data (3 + j * 4)) [0..<?n] = ?cs"
    using n by (simp add: numeral_3_eq_3)
  have "decode_bundled_palette ?data 2 = Inr (PaletteEntry_default\<lparr> pe_count := pe_count p,
            pe_colors := ?cs @ drop ?n (pe_colors PaletteEntry_default) \<rparr>, 2 + length blk)"
    using n nz len tab' unfolding decode_bundled_palette_def
    by (simp add: pal_needed_def Let_def blk_def)
  then show ?thesis using n by (simp add: PaletteEntry_default_def)
qed

text \<open>The tail of the decoder: runs that expand to 1024 legal indices fill the tile.\<close>

lemma decode_pal_rle_loop_full:
  assumes "packed \<noteq> []" "2 * length packed = 1024" "\<And>i. i \<in> set (nibbles packed) \<Longrightarrow> i < pe_count p"
  shows "decode_pal_rle_loop p (encode_pal_rle_indices packed) 0 (replicate 4096 0) =
     Inr (1024, concat (map (\<lambda>i. quad_bytes (pixel_color p i)) (nibbles packed)))"
  using decode_pal_rle_loop_expand[of "encode_pal_rle_indices packed" p "[]" 0 "replicate 4096 0"] assms
  by (simp add: expand_encode_indices comp_def)

lemma decode_thin:
  assumes "length packed = 512" "\<And>i. i \<in> set (nibbles packed) \<Longrightarrow> i < pe_count p"
    and "encode_pal_rle_payload packed q palette_id False = Some payload"
  shows "decode_pal_rle payload (Some p) =
     Inr \<lparr> dp_pixels = concat (map (\<lambda>i. quad_bytes (pixel_color p i)) (nibbles packed)),
           dp_updated_palette = None \<rparr>"
proof -
  have ne: "packed \<noteq> []" "2 * length packed = 1024" using assms(1) by auto
  show ?thesis using assms(3) decode_pal_rle_loop_full[OF ne assms(2)]
    by (auto simp: decode_pal_rle_def encode_pal_rle_payload_def pal_needed_def Let_def)
qed

lemma pixel_color_take:
  assumes "i < pe_count p" "take (unat (pe_count p)) (pe_colors q) = take (unat (pe_count p)) (pe_colors p)"
  shows "pixel_color q i = pixel_color p i"
  using assms by (metis nth_take pixel_color_def word_less_nat_alt)

lemma decode_bundled:
  assumes "palette_wf p" "length packed = 512" "\<And>i. i \<in> set (nibbles packed) \<Longrightarrow> i < pe_count p"
    and "encode_pal_rle_payload packed p palette_id True = Some payload"
  shows "\<exists>q. decode_pal_rle payload cached =
     Inr \<lparr> dp_pixels = concat (map (\<lambda>i. quad_bytes (pixel_color p i)) (nibbles packed)),
           dp_updated_palette = Some (palette_id, q) \<rparr> \<and>
     pe_count q = pe_count p \<and> take (unat (pe_count p)) (pe_colors q) = take (unat (pe_count p)) (pe_colors p)"
proof -
  let ?blk = "pe_count p # concat (map quad_bytes (take (unat (pe_count p)) (pe_colors p)))"
  let ?rle = "encode_pal_rle_indices packed"
  have pl: "payload = [1, palette_id] @ ?blk @ ?rle"
    using assms(4) by (auto simp: encode_pal_rle_payload_def Let_def split: if_splits)
  obtain q where q: "decode_bundled_palette payload 2 = Inr (q, 2 + length ?blk)"
    "pe_count q = pe_count p"
    "take (unat (pe_count p)) (pe_colors q) = take (unat (pe_count p)) (pe_colors p)"
    using bundled_palette_roundtrip[OF assms(1)] unfolding pl by blast
  have ne: "packed \<noteq> []" "2 * length packed = 1024" using assms(2) by auto
  have col: "map (\<lambda>i. quad_bytes (pixel_color q i)) (nibbles packed) =
      map (\<lambda>i. quad_bytes (pixel_color p i)) (nibbles packed)"
    using pixel_color_take[OF assms(3) q(3)] by simp
  have loop: "decode_pal_rle_loop q ?rle 0 (replicate 4096 0) =
      Inr (1024, concat (map (\<lambda>i. quad_bytes (pixel_color p i)) (nibbles packed)))"
    using decode_pal_rle_loop_full[OF ne, of q] assms(3) q(2) col by simp
  have hd: "payload ! 0 = 1" "payload ! 1 = palette_id" "\<not> length payload < 2"
    "drop (2 + length ?blk) payload = ?rle" unfolding pl by simp_all
  have "decode_pal_rle payload cached =
      Inr \<lparr> dp_pixels = concat (map (\<lambda>i. quad_bytes (pixel_color p i)) (nibbles packed)),
           dp_updated_palette = Some (palette_id, q) \<rparr>"
    unfolding decode_pal_rle_def using hd q(1) loop by (simp add: pal_needed_def)
  then show ?thesis using q by blast
qed

text \<open>The length of an encoding: never more runs than pixels.\<close>

lemma length_encode_indices_le:
  assumes "packed \<noteq> []"
  shows "length (encode_pal_rle_indices packed) \<le> 2 * length packed"
  using length_expand_runs_ge[of "encode_pal_rle_indices packed"] expand_encode_indices[OF assms] by simp

lemma encode_pal_rle_payload_Some:
  assumes "palette_wf p" "length packed = 512"
  obtains payload where "encode_pal_rle_payload packed p pid bundled = Some payload"
    "length payload \<le> MAX_PAL_RLE_PAYLOAD"
proof -
  let ?cs = "take (unat (pe_count p)) (pe_colors p)"
  have cs: "length (concat (map quad_bytes ?cs)) = unat (pe_count p) * 4" "unat (pe_count p) \<le> 16"
    using length_concat_map_const[of ?cs quad_bytes 4] assms(1) by (simp_all add: palette_wf_def)
  have "length (encode_pal_rle_indices packed) \<le> 1024"
    using length_encode_indices_le[of packed] assms(2) by fastforce
  then show thesis using that assms cs
    by (cases bundled) (auto simp: encode_pal_rle_payload_def palette_wf_def MAX_PAL_RLE_PAYLOAD_def Let_def)
qed

section \<open>Properties\<close>

text \<open>
  C7. PalRLE round trip.  A tile of 1024 indices into a legal palette encodes without panic in at
  most \<open>MAX_PAL_RLE_PAYLOAD\<close> bytes.  Decoding, with the palette in the client's cache for a thin
  payload and with any cache for a bundled one, gives every pixel the colour its index names (alpha 0
  read as opaque), and a bundled payload delivers the palette for the cache under its slot id.
\<close>

theorem pal_rle_roundtrip:
  assumes "palette_wf p" "length packed = 512" "\<forall>i \<in> set (nibbles packed). i < pe_count p"
    and "bundled \<or> cached = Some p"
  shows "\<exists>payload q. encode_pal_rle_payload packed p pid bundled = Some payload \<and>
     length payload \<le> MAX_PAL_RLE_PAYLOAD \<and>
     decode_pal_rle payload cached = Inr
       \<lparr> dp_pixels = concat (map (\<lambda>i. quad_bytes (fix_alpha (pe_colors p ! unat i))) (nibbles packed)),
         dp_updated_palette = (if bundled then Some (pid, q) else None) \<rparr> \<and>
     pe_count q = pe_count p \<and>
     take (unat (pe_count p)) (pe_colors q) = take (unat (pe_count p)) (pe_colors p)"
proof -
  obtain payload where p: "encode_pal_rle_payload packed p pid bundled = Some payload"
    "length payload \<le> MAX_PAL_RLE_PAYLOAD"
    using encode_pal_rle_payload_Some[OF assms(1,2)] .
  show ?thesis
  proof (cases bundled)
    case True
    then show ?thesis
      using p decode_bundled[OF assms(1,2) bspec[OF assms(3)], of pid payload cached]
      by (auto simp: pixel_color_def)
  next
    case False
    then show ?thesis
      using p assms(4) decode_thin[OF assms(2) bspec[OF assms(3)], of p pid payload]
      by (auto simp: pixel_color_def)
  qed
qed

theorem pal_rle_roundtrip_witness:
  "\<exists>payload. encode_pal_rle_payload (replicate 512 0)
       \<lparr> pe_colors = replicate 16 (1, 2, 3, 0), pe_count = 1 \<rparr> 5 False = Some payload \<and>
     length payload \<le> MAX_PAL_RLE_PAYLOAD"
proof -
  have n: "i \<in> set (nibbles (replicate 512 0)) \<Longrightarrow> i = 0" for i
    by (auto simp: nibbles_def lo_nibble_def hi_nibble_def)
  show ?thesis
    using pal_rle_roundtrip[of "\<lparr> pe_colors = replicate 16 (1, 2, 3, 0), pe_count = 1 \<rparr>"
        "replicate 512 0" False "Some \<lparr> pe_colors = replicate 16 (1, 2, 3, 0), pe_count = 1 \<rparr>" 5]
    by (auto simp: palette_wf_def dest: n)
qed

end
