(* ===== verification/Palette_Table.thy ===== *)
theory Palette_Table
  imports Pal_Rle "HOL-Library.Multiset"
begin

text \<open>
  The server's persistent 256-slot palette table (\<^verbatim>\<open>PaletteTable\<close> in
  \<^verbatim>\<open>codec/pal_rle.rs\<close>) and the three places of the server that move its counters: the encode
  phase, the acknowledgement and the supersession of a tile pass.  An array indexed by a slot id is a
  function of the id, a \<^verbatim>\<open>u8\<close>.
\<close>

datatype SlotState = Empty | Held | FreeButCached

record FramePaletteStats =
  fps_reused_or_allocated :: u32
  fps_fell_back_to_raw :: u32

record PaletteTable =
  pt_entries :: "u8 \<Rightarrow> PaletteEntry option"
  pt_slot_state :: "u8 \<Rightarrow> SlotState"
  pt_ref_count :: "u8 \<Rightarrow> u32"
  pt_delivered :: "u8 \<Rightarrow> bool"
  pt_in_flight_carrying :: "u8 \<Rightarrow> u32"
  pt_free_lru :: "u8 list"
  pt_stats_frame :: FramePaletteStats

definition PALETTE_TABLE_SLOTS :: nat where "PALETTE_TABLE_SLOTS = 256"

definition slot_ids :: "u8 list" where
  "slot_ids = map of_nat [0..<PALETTE_TABLE_SLOTS]"

definition FramePaletteStats_default :: FramePaletteStats where
  "FramePaletteStats_default = \<lparr> fps_reused_or_allocated = 0, fps_fell_back_to_raw = 0 \<rparr>"

definition PaletteTable_new :: PaletteTable where
  "PaletteTable_new = \<lparr> pt_entries = (\<lambda>_. None), pt_slot_state = (\<lambda>_. Empty), pt_ref_count = (\<lambda>_. 0),
     pt_delivered = (\<lambda>_. False), pt_in_flight_carrying = (\<lambda>_. 0), pt_free_lru = [],
     pt_stats_frame = FramePaletteStats_default \<rparr>"

definition find_matching :: "PaletteTable \<Rightarrow> PaletteEntry \<Rightarrow> u8 option" where
  "find_matching t palette =
     find (\<lambda>pid. pt_slot_state t pid \<noteq> Empty \<and> pt_entries t pid = Some palette) slot_ids"

definition acquire :: "u8 \<Rightarrow> PaletteTable \<Rightarrow> PaletteTable" where
  "acquire pid t =
     (let t = if pt_slot_state t pid = FreeButCached
              then t\<lparr> pt_slot_state := (pt_slot_state t)(pid := Held),
                      pt_free_lru := filter (\<lambda>x. x \<noteq> pid) (pt_free_lru t) \<rparr>
              else t
      in t\<lparr> pt_ref_count := (pt_ref_count t)(pid := sat_add (pt_ref_count t pid) 1) \<rparr>)"

definition release :: "u8 \<Rightarrow> PaletteTable \<Rightarrow> PaletteTable" where
  "release pid t =
     (let t = t\<lparr> pt_ref_count := (pt_ref_count t)(pid := sat_sub (pt_ref_count t pid) 1) \<rparr>
      in if pt_ref_count t pid = 0
         then t\<lparr> pt_slot_state := (pt_slot_state t)(pid := FreeButCached),
                 pt_free_lru := pt_free_lru t @ [pid] \<rparr>
         else t)"

definition overwrite_eligible :: "PaletteTable \<Rightarrow> u8 \<Rightarrow> bool" where
  "overwrite_eligible t pid =
     (if pt_ref_count t pid \<noteq> 0 then False
      else pt_delivered t pid \<or> pt_in_flight_carrying t pid = 0)"

definition write_bytes :: "u8 \<Rightarrow> PaletteEntry \<Rightarrow> PaletteTable \<Rightarrow> PaletteTable" where
  "write_bytes pid palette t =
     t\<lparr> pt_entries := (pt_entries t)(pid := Some palette),
        pt_slot_state := (pt_slot_state t)(pid := Held),
        pt_ref_count := (pt_ref_count t)(pid := 0),
        pt_delivered := (pt_delivered t)(pid := False),
        pt_in_flight_carrying := (pt_in_flight_carrying t)(pid := 0),
        pt_free_lru := filter (\<lambda>x. x \<noteq> pid) (pt_free_lru t) \<rparr>"

definition find_empty_slot :: "PaletteTable \<Rightarrow> u8 option" where
  "find_empty_slot t = find (\<lambda>pid. pt_slot_state t pid = Empty) slot_ids"

definition find_eligible_free_slot :: "PaletteTable \<Rightarrow> u8 option" where
  "find_eligible_free_slot t =
     find (\<lambda>pid. pt_slot_state t pid = FreeButCached \<and> overwrite_eligible t pid) (pt_free_lru t)"

definition on_session_reset :: "bool \<Rightarrow> PaletteTable \<Rightarrow> PaletteTable" where
  "on_session_reset preserve_delivered t =
     t\<lparr> pt_delivered := (if preserve_delivered then pt_delivered t else (\<lambda>_. False)),
        pt_in_flight_carrying := (\<lambda>_. 0),
        pt_ref_count := (\<lambda>_. 0),
        pt_free_lru := filter (\<lambda>pid. pt_entries t pid \<noteq> None) slot_ids,
        pt_slot_state := (\<lambda>pid. if pt_entries t pid \<noteq> None then FreeButCached else Empty),
        pt_stats_frame := FramePaletteStats_default \<rparr>"

definition force_rebundle :: "u8 \<Rightarrow> PaletteTable \<Rightarrow> PaletteTable" where
  "force_rebundle palette_id t = t\<lparr> pt_delivered := (pt_delivered t)(palette_id := False) \<rparr>"

definition acquire_or_allocate :: "PaletteEntry \<Rightarrow> PaletteTable \<Rightarrow> u8 option \<times> PaletteTable" where
  "acquire_or_allocate palette t =
     (case find_matching t palette of
        Some pid \<Rightarrow> (Some pid, acquire pid t)
      | None \<Rightarrow>
     (case find_empty_slot t of
        Some pid \<Rightarrow> (Some pid, acquire pid (write_bytes pid palette t))
      | None \<Rightarrow>
     (case find_eligible_free_slot t of
        Some pid \<Rightarrow> (Some pid, acquire pid (write_bytes pid palette t))
      | None \<Rightarrow> (None, t))))"

section \<open>Where the server moves the counters\<close>

text \<open>Encoding a tile: the slot and whether the palette travels with the tile.\<close>

definition palette_encode_tile ::
    "PaletteEntry \<Rightarrow> PaletteTable \<Rightarrow> (u8 \<times> bool) option \<times> PaletteTable" where
  "palette_encode_tile palette t =
     (case acquire_or_allocate palette t of
        (Some pid, t) \<Rightarrow>
          let bundled = \<not> pt_delivered t pid;
              t = (if bundled
                   then t\<lparr> pt_in_flight_carrying := (pt_in_flight_carrying t)
                             (pid := pt_in_flight_carrying t pid + 1) \<rparr>
                   else t)
          in (Some (pid, bundled),
              t\<lparr> pt_stats_frame := (pt_stats_frame t)
                   \<lparr> fps_reused_or_allocated := fps_reused_or_allocated (pt_stats_frame t) + 1 \<rparr> \<rparr>)
      | (None, t) \<Rightarrow>
          (None, t\<lparr> pt_stats_frame := (pt_stats_frame t)
                   \<lparr> fps_fell_back_to_raw := fps_fell_back_to_raw (pt_stats_frame t) + 1 \<rparr> \<rparr>))"

text \<open>Giving back the carry count of a bundled emission, and the reference.\<close>

definition palette_uncarry :: "u8 \<Rightarrow> PaletteTable \<Rightarrow> PaletteTable" where
  "palette_uncarry pid t =
     t\<lparr> pt_in_flight_carrying := (pt_in_flight_carrying t)
          (pid := sat_sub (pt_in_flight_carrying t pid) 1) \<rparr>"

text \<open>An acknowledged PalRle pass.\<close>

definition palette_on_ack :: "u8 option \<Rightarrow> bool \<Rightarrow> bool \<Rightarrow> PaletteTable \<Rightarrow> PaletteTable" where
  "palette_on_ack palette_id palette_bundled palette_held t =
     (case palette_id of
        None \<Rightarrow> t
      | Some pid \<Rightarrow>
          let t = (if \<not> pt_delivered t pid then t\<lparr> pt_delivered := (pt_delivered t)(pid := True) \<rparr> else t);
              t = (if palette_bundled then palette_uncarry pid t else t)
          in if palette_held \<and> pt_ref_count t pid > 0 then release pid t else t)"

text \<open>One superseded item of tile work.\<close>

definition palette_on_supersede :: "u8 option \<Rightarrow> bool \<Rightarrow> PaletteTable \<Rightarrow> PaletteTable" where
  "palette_on_supersede palette_id palette_bundled t =
     (case palette_id of
        None \<Rightarrow> t
      | Some pid \<Rightarrow>
          let t = (if palette_bundled then palette_uncarry pid t else t)
          in if pt_ref_count t pid > 0 then release pid t else t)"

section \<open>The slot invariant\<close>

definition pt_inv :: "PaletteTable \<Rightarrow> bool" where
  "pt_inv t \<longleftrightarrow>
     (\<forall>pid. pt_slot_state t pid = Empty \<longleftrightarrow> pt_entries t pid = None) \<and>
     (\<forall>pid. pt_slot_state t pid = Held \<longleftrightarrow> pt_ref_count t pid > 0) \<and>
     distinct (pt_free_lru t) \<and>
     (\<forall>pid. pid \<in> set (pt_free_lru t) \<longleftrightarrow> pt_slot_state t pid = FreeButCached)"

lemma pt_inv_slots:
  assumes "pt_inv t"
  shows "pt_slot_state t i = Empty \<longleftrightarrow> pt_entries t i = None"
    and "pt_slot_state t i = Held \<longleftrightarrow> pt_ref_count t i \<noteq> 0"
    and "pt_slot_state t i = FreeButCached \<longleftrightarrow> pt_entries t i \<noteq> None \<and> pt_ref_count t i = 0"
proof -
  show e: "pt_slot_state t i = Empty \<longleftrightarrow> pt_entries t i = None"
    and h: "pt_slot_state t i = Held \<longleftrightarrow> pt_ref_count t i \<noteq> 0"
    using assms by (simp_all add: pt_inv_def word_gt_0)
  show "pt_slot_state t i = FreeButCached \<longleftrightarrow> pt_entries t i \<noteq> None \<and> pt_ref_count t i = 0"
    using e h by (cases "pt_slot_state t i") auto
qed

lemma set_slot_ids [simp]: "set slot_ids = UNIV"
proof -
  have "x \<in> of_nat ` {0..<256}" for x :: u8
    using unsigned_less[of x, where 'a = nat] by (intro image_eqI[of _ _ "unat x"]) auto
  then show ?thesis by (auto simp: slot_ids_def PALETTE_TABLE_SLOTS_def)
qed

lemma distinct_slot_ids [simp]: "distinct slot_ids"
proof -
  have "inj_on (of_nat :: nat \<Rightarrow> u8) {0..<256}"
    by (rule inj_on_inverseI[of _ unat]) (simp add: unat_of_nat)
  then show ?thesis by (simp add: slot_ids_def PALETTE_TABLE_SLOTS_def distinct_map)
qed

lemma find_matching_Some: "find_matching t p = Some pid \<Longrightarrow> pt_slot_state t pid \<noteq> Empty \<and> pt_entries t pid = Some p"
  by (auto simp: find_matching_def find_Some_iff)

lemma find_matching_None:
  "pt_inv t \<Longrightarrow> find_matching t p = None \<longleftrightarrow> (\<forall>pid. pt_entries t pid \<noteq> Some p)"
  unfolding find_matching_def find_None_iff set_slot_ids
  by (simp only: pt_inv_slots) (metis UNIV_I option.distinct(1))

lemma find_empty_slot_Some: "find_empty_slot t = Some pid \<Longrightarrow> pt_slot_state t pid = Empty"
  by (auto simp: find_empty_slot_def find_Some_iff)

lemma find_empty_slot_None: "find_empty_slot t = None \<longleftrightarrow> (\<forall>pid. pt_slot_state t pid \<noteq> Empty)"
  by (auto simp: find_empty_slot_def find_None_iff)

lemma find_eligible_Some:
  "find_eligible_free_slot t = Some pid \<Longrightarrow> pt_slot_state t pid = FreeButCached \<and> overwrite_eligible t pid"
  by (auto simp: find_eligible_free_slot_def find_Some_iff)

lemma find_eligible_None:
  "pt_inv t \<Longrightarrow> find_eligible_free_slot t = None \<longleftrightarrow>
     (\<forall>pid. pt_slot_state t pid = FreeButCached \<longrightarrow> \<not> overwrite_eligible t pid)"
  by (auto simp: find_eligible_free_slot_def find_None_iff pt_inv_def)

lemmas find_slot_facts = find_matching_Some find_matching_None find_empty_slot_Some
  find_empty_slot_None find_eligible_Some find_eligible_None

lemma sat_add_one_pos: "sat_add (x :: u32) 1 > 0"
  by (simp add: word_less_nat_alt unat_sat_add)

lemma acquire_simps [simp]:
  "pt_entries (acquire pid t) = pt_entries t"
  "pt_delivered (acquire pid t) = pt_delivered t"
  "pt_in_flight_carrying (acquire pid t) = pt_in_flight_carrying t"
  "pt_ref_count (acquire pid t) = (pt_ref_count t)(pid := sat_add (pt_ref_count t pid) 1)"
  by (simp_all add: acquire_def Let_def)

lemma acquire_inv:
  assumes "pt_inv t" "pt_slot_state t pid \<noteq> Empty"
  shows "pt_inv (acquire pid t)"
proof -
  have "pt_entries t pid \<noteq> None" using assms by (simp add: pt_inv_def)
  then show ?thesis
    using assms sat_add_one_pos[of "pt_ref_count t pid"]
    by (cases "pt_slot_state t pid") (auto simp: pt_inv_def acquire_def)
qed

lemma write_acquire_inv:
  "pt_inv t \<Longrightarrow> pt_inv (acquire pid (write_bytes pid p t))"
  by (auto simp: pt_inv_def acquire_def write_bytes_def sat_add_one_pos)

lemma release_inv:
  assumes "pt_inv t" "pt_ref_count t pid > 0"
  shows "pt_inv (release pid t)"
proof -
  have "pt_slot_state t pid = Held" "pid \<notin> set (pt_free_lru t)" "pt_entries t pid \<noteq> None"
    using assms unfolding pt_inv_def by force+
  then show ?thesis using assms(1) by (auto simp: pt_inv_def release_def Let_def word_gt_0)
qed

lemma acquire_or_allocate_inv: "pt_inv t \<Longrightarrow> pt_inv (snd (acquire_or_allocate p t))"
  using find_matching_Some[of t p]
  by (auto simp: acquire_or_allocate_def split: option.splits intro!: acquire_inv write_acquire_inv)

lemma pt_inv_update [simp]:
  "pt_inv (t\<lparr> pt_delivered := d \<rparr>) = pt_inv t"
  "pt_inv (t\<lparr> pt_in_flight_carrying := c \<rparr>) = pt_inv t"
  "pt_inv (t\<lparr> pt_stats_frame := s \<rparr>) = pt_inv t"
  by (simp_all add: pt_inv_def)

lemma pt_inv_new: "pt_inv PaletteTable_new"
  by (simp add: pt_inv_def PaletteTable_new_def)

lemma on_session_reset_inv: "pt_inv (on_session_reset b t)"
  by (simp add: pt_inv_def on_session_reset_def)

lemma palette_encode_tile_inv: "palette_encode_tile p t = (r, t') \<Longrightarrow> pt_inv t \<Longrightarrow> pt_inv t'"
  using acquire_or_allocate_inv[of t p]
  by (auto simp: palette_encode_tile_def Let_def split: prod.splits option.splits)

lemma palette_uncarry_simps [simp]:
  "pt_inv (palette_uncarry pid t) = pt_inv t" "pt_ref_count (palette_uncarry pid t) = pt_ref_count t"
  "pt_entries (palette_uncarry pid t) = pt_entries t"
  by (simp_all add: palette_uncarry_def)

lemma palette_on_ack_inv: "pt_inv t \<Longrightarrow> pt_inv (palette_on_ack pid b h t)"
  by (auto simp: palette_on_ack_def Let_def split: option.splits intro!: release_inv)

lemma palette_on_supersede_inv: "pt_inv t \<Longrightarrow> pt_inv (palette_on_supersede pid b t)"
  by (auto simp: palette_on_supersede_def Let_def split: option.splits intro!: release_inv)

text \<open>The two outcomes of the ladder: a slot that already holds the palette gains a reference, or a
  slot nobody references, empty or safe to overwrite, is rewritten.\<close>

definition slot_reused :: "PaletteEntry \<Rightarrow> PaletteTable \<Rightarrow> u8 \<Rightarrow> PaletteTable \<Rightarrow> bool" where
  "slot_reused p t pid t' \<longleftrightarrow>
     pt_entries t pid = Some p \<and> pt_entries t' = pt_entries t \<and> pt_delivered t' = pt_delivered t \<and>
     pt_in_flight_carrying t' = pt_in_flight_carrying t \<and>
     pt_ref_count t' = (pt_ref_count t)(pid := sat_add (pt_ref_count t pid) 1)"

definition slot_rewritten :: "PaletteEntry \<Rightarrow> PaletteTable \<Rightarrow> u8 \<Rightarrow> PaletteTable \<Rightarrow> bool" where
  "slot_rewritten p t pid t' \<longleftrightarrow>
     pt_ref_count t pid = 0 \<and> (pt_entries t pid = None \<or> overwrite_eligible t pid) \<and>
     (\<forall>i. pt_entries t i \<noteq> Some p) \<and> pt_entries t' = (pt_entries t)(pid := Some p) \<and>
     pt_delivered t' = (pt_delivered t)(pid := False) \<and>
     pt_in_flight_carrying t' = (pt_in_flight_carrying t)(pid := 0) \<and>
     pt_ref_count t' = (pt_ref_count t)(pid := 1)"

lemma write_acquire_rewritten:
  assumes "pt_inv t" "find_matching t p = None" "pt_ref_count t pid = 0"
    "pt_entries t pid = None \<or> overwrite_eligible t pid"
  shows "slot_rewritten p t pid (acquire pid (write_bytes pid p t))"
  using assms find_matching_None[OF assms(1)]
  by (simp add: slot_rewritten_def write_bytes_def sat_add_def)

lemma acquire_or_allocate_Some:
  assumes "pt_inv t" "acquire_or_allocate p t = (Some pid, t')"
  shows "slot_reused p t pid t' \<or> slot_rewritten p t pid t'"
proof -
  consider
      (hit) "find_matching t p = Some pid" "t' = acquire pid t"
    | (fresh) "find_matching t p = None" "find_empty_slot t = Some pid"
        "t' = acquire pid (write_bytes pid p t)"
    | (evict) "find_matching t p = None" "find_eligible_free_slot t = Some pid"
        "t' = acquire pid (write_bytes pid p t)"
    using assms(2) by (auto simp: acquire_or_allocate_def split: option.splits)
  then show ?thesis
  proof cases
    case hit
    then show ?thesis using find_matching_Some[OF hit(1)] by (auto simp: slot_reused_def)
  next
    case fresh
    then have "pt_entries t pid = None" "pt_ref_count t pid = 0"
      using find_empty_slot_Some[OF fresh(2)] pt_inv_slots[OF assms(1), of pid] by auto
    then show ?thesis using write_acquire_rewritten[OF assms(1) fresh(1)] fresh(3) by simp
  next
    case evict
    then show ?thesis
      using find_eligible_Some[OF evict(2)] write_acquire_rewritten[OF assms(1) evict(1), of pid]
      by (simp add: overwrite_eligible_def split: if_splits)
  qed
qed

lemma acquire_or_allocate_None:
  assumes "pt_inv t"
  shows "fst (acquire_or_allocate p t) = None \<longleftrightarrow>
     (\<forall>i. pt_entries t i \<noteq> None \<and> pt_entries t i \<noteq> Some p \<and>
          (pt_ref_count t i = 0 \<longrightarrow> \<not> overwrite_eligible t i))"
proof -
  have "fst (acquire_or_allocate p t) = None \<longleftrightarrow> find_matching t p = None \<and> find_empty_slot t = None
      \<and> find_eligible_free_slot t = None"
    by (auto simp: acquire_or_allocate_def split: option.splits)
  then show ?thesis
    unfolding find_matching_None[OF assms] find_empty_slot_None find_eligible_None[OF assms]
      pt_inv_slots[OF assms] by blast
qed

lemma acquire_or_allocate_None_same: "acquire_or_allocate p t = (None, t') \<Longrightarrow> t' = t"
  by (auto simp: acquire_or_allocate_def split: option.splits)

lemma force_rebundle_inv: "pt_inv t \<Longrightarrow> pt_inv (force_rebundle pid t)"
  by (simp add: force_rebundle_def)

section \<open>Outstanding emissions\<close>

text \<open>
  The table together with the emissions that still hold a reference: slot, whether the palette
  travelled with the tile, and the palette the tile was encoded with.  One rule per place the server
  moves the table; a settled emission may still be acknowledged (its record has both flags cleared).
  The size guard of \<open>encode\<close> keeps the \<^verbatim>\<open>u32\<close> counters below saturation.
\<close>

type_synonym emission = "u8 \<times> bool \<times> PaletteEntry"

inductive palette_step ::
    "PaletteTable \<times> emission multiset \<Rightarrow> PaletteTable \<times> emission multiset \<Rightarrow> bool" where
  encode: "palette_encode_tile p t = (Some (pid, b), t') \<Longrightarrow> size out < 2 ^ 32 - 1 \<Longrightarrow>
     palette_step (t, out) (t', add_mset (pid, b, p) out)"
| fall_back: "palette_encode_tile p t = (None, t') \<Longrightarrow> palette_step (t, out) (t', out)"
| ack: "palette_step (t, add_mset (pid, b, p) out) (palette_on_ack (Some pid) b True t, out)"
| late_ack: "palette_step (t, out) (palette_on_ack (Some pid) False False t, out)"
| supersede: "palette_step (t, add_mset (pid, b, p) out) (palette_on_supersede (Some pid) b t, out)"
| rebundle: "palette_step (t, out) (force_rebundle pid t, out)"
| session_reset: "palette_step (t, out) (on_session_reset b t, {#})"

inductive_cases palette_stepE: "palette_step s s'"

definition held_by :: "u8 \<Rightarrow> emission multiset \<Rightarrow> nat" where
  "held_by pid out = size (filter_mset (\<lambda>(i, b, p). i = pid) out)"

definition carried_by :: "u8 \<Rightarrow> emission multiset \<Rightarrow> nat" where
  "carried_by pid out = size (filter_mset (\<lambda>(i, b, p). i = pid \<and> b) out)"

definition palette_sys_inv :: "PaletteTable \<times> emission multiset \<Rightarrow> bool" where
  "palette_sys_inv s \<longleftrightarrow> (case s of (t, out) \<Rightarrow>
     pt_inv t \<and> size out < 2 ^ 32 \<and>
     (\<forall>i. unat (pt_ref_count t i) = held_by i out \<and>
          unat (pt_in_flight_carrying t i) = carried_by i out) \<and>
     (\<forall>(i, b, p) \<in># out. pt_entries t i = Some p))"

lemma held_carried_simps [simp]:
  "held_by i {#} = 0" "carried_by i {#} = 0"
  "held_by i (add_mset (j, b, p) out) = (if i = j then 1 else 0) + held_by i out"
  "carried_by i (add_mset (j, b, p) out) = (if i = j \<and> b then 1 else 0) + carried_by i out"
  by (auto simp: held_by_def carried_by_def)

lemma carried_le_held: "carried_by i out \<le> held_by i out"
  by (induction out) auto

lemma held_le_size: "held_by i out \<le> size out"
  unfolding held_by_def by (rule size_filter_mset_lesseq)

lemma held_zero: "held_by i out = 0 \<Longrightarrow> (i, b, p) \<notin># out"
  by (auto simp: held_by_def)

lemma pt_inv_step: "palette_step s s' \<Longrightarrow> pt_inv (fst s) \<Longrightarrow> pt_inv (fst s')"
  by (induction rule: palette_step.induct)
    (auto simp: palette_on_ack_inv palette_on_supersede_inv force_rebundle_inv on_session_reset_inv
      dest: palette_encode_tile_inv)

text \<open>What encoding a tile does to the counters and the slot bytes.\<close>

lemma palette_encode_tile_Some:
  assumes "palette_encode_tile p t = (Some (pid, b), t')"
  obtains t1 where "acquire_or_allocate p t = (Some pid, t1)" "b = (\<not> pt_delivered t1 pid)"
    "pt_entries t' = pt_entries t1" "pt_ref_count t' = pt_ref_count t1"
    "pt_delivered t' = pt_delivered t1"
    "pt_in_flight_carrying t' =
       (if b then (pt_in_flight_carrying t1)(pid := pt_in_flight_carrying t1 pid + 1)
        else pt_in_flight_carrying t1)"
  using assms by (auto simp: palette_encode_tile_def Let_def split: prod.splits option.splits if_splits)

lemma release_simps [simp]:
  "pt_entries (release pid t) = pt_entries t"
  "pt_in_flight_carrying (release pid t) = pt_in_flight_carrying t"
  "pt_ref_count (release pid t) = (pt_ref_count t)(pid := sat_sub (pt_ref_count t pid) 1)"
  by (simp_all add: release_def Let_def)

text \<open>Both ways of settling an emission give back the same counts and no bytes.\<close>

lemma settle_counts:
  assumes "t' = palette_on_ack (Some pid) b True t \<or> t' = palette_on_supersede (Some pid) b t"
  shows "pt_entries t' = pt_entries t"
    "pt_ref_count t' = (pt_ref_count t)(pid := sat_sub (pt_ref_count t pid) 1)"
    "pt_in_flight_carrying t' = (if b then (pt_in_flight_carrying t)
        (pid := sat_sub (pt_in_flight_carrying t pid) 1) else pt_in_flight_carrying t)"
proof -
  have z: "\<not> r > 0 \<Longrightarrow> sat_sub r 1 = r" for r :: u32 by (simp add: sat_sub_def word_gt_0)
  show "pt_entries t' = pt_entries t" using assms
    by (auto simp: palette_on_ack_def palette_on_supersede_def Let_def)
  show "pt_ref_count t' = (pt_ref_count t)(pid := sat_sub (pt_ref_count t pid) 1)" using assms z
    by (auto simp: palette_on_ack_def palette_on_supersede_def Let_def)
  show "pt_in_flight_carrying t' = (if b then (pt_in_flight_carrying t)
        (pid := sat_sub (pt_in_flight_carrying t pid) 1) else pt_in_flight_carrying t)" using assms
    by (auto simp: palette_on_ack_def palette_on_supersede_def palette_uncarry_def Let_def)
qed

lemma sys_inv_settle:
  assumes "palette_sys_inv (t, add_mset (pid, b, p) out)" "pt_inv t'"
    "t' = palette_on_ack (Some pid) b True t \<or> t' = palette_on_supersede (Some pid) b t"
  shows "palette_sys_inv (t', out)"
  using assms(1,2) settle_counts[OF assms(3)]
  by (auto simp: palette_sys_inv_def unat_sat_sub)

lemma unat_Suc_u32: "unat (r :: u32) < 2 ^ 32 - 1 \<Longrightarrow> unat (r + 1) = unat r + 1"
  by (simp add: unat_word_ariths)

lemma sys_inv_encode:
  assumes "palette_sys_inv (t, out)" "palette_encode_tile p t = (Some (pid, b), t')"
    "size out < 2 ^ 32 - 1" "pt_inv t'"
  shows "palette_sys_inv (t', add_mset (pid, b, p) out)"
proof -
  have inv: "pt_inv t" and refs: "\<And>i. unat (pt_ref_count t i) = held_by i out"
    and carr: "\<And>i. unat (pt_in_flight_carrying t i) = carried_by i out"
    and ent: "\<And>i b p. (i, b, p) \<in># out \<Longrightarrow> pt_entries t i = Some p"
    using assms(1) by (auto simp: palette_sys_inv_def)
  obtain t1 where t1: "acquire_or_allocate p t = (Some pid, t1)" "b = (\<not> pt_delivered t1 pid)"
    "pt_entries t' = pt_entries t1" "pt_ref_count t' = pt_ref_count t1"
    "pt_in_flight_carrying t' =
       (if b then (pt_in_flight_carrying t1)(pid := pt_in_flight_carrying t1 pid + 1)
        else pt_in_flight_carrying t1)"
    using palette_encode_tile_Some[OF assms(2)] by metis
  have small: "held_by i out < 2 ^ 32 - 1" "carried_by i out < 2 ^ 32 - 1" for i
    using held_le_size[of i out] carried_le_held[of i out] assms(3) by simp_all
  from acquire_or_allocate_Some[OF inv t1(1)] show ?thesis
  proof
    assume r: "slot_reused p t pid t1"
    have "unat (sat_add (pt_ref_count t pid) 1) = held_by pid out + 1"
      using small[of pid] refs[of pid] by (simp add: unat_sat_add)
    moreover have "unat (pt_in_flight_carrying t pid + 1) = carried_by pid out + 1"
      using unat_Suc_u32[of "pt_in_flight_carrying t pid"] small(2)[of pid] carr by simp
    ultimately show ?thesis using r assms(3,4) t1(3,4,5) refs carr ent
      by (auto simp: palette_sys_inv_def slot_reused_def)
  next
    assume r: "slot_rewritten p t pid t1"
    then have z: "held_by pid out = 0" using refs[of pid] by (simp add: slot_rewritten_def)
    then have "carried_by pid out = 0" "\<And>b p. (pid, b, p) \<notin># out"
      using carried_le_held[of pid out] held_zero by auto
    then show ?thesis using z r assms(3,4) t1(3,4,5) refs carr ent
      by (auto simp: palette_sys_inv_def slot_rewritten_def)
  qed
qed

lemma sys_inv_step:
  assumes "palette_step s s'" "palette_sys_inv s"
  shows "palette_sys_inv s'"
proof -
  have inv': "pt_inv (fst s')" using pt_inv_step[OF assms(1)] assms(2)
    by (auto simp: palette_sys_inv_def)
  from assms(1) show ?thesis
  proof (cases rule: palette_step.cases)
    case (encode p t pid b t' out)
    then show ?thesis using sys_inv_encode inv' assms(2) by simp
  next
    case (fall_back p t t' out)
    then have "pt_entries t' = pt_entries t \<and> pt_ref_count t' = pt_ref_count t \<and>
        pt_in_flight_carrying t' = pt_in_flight_carrying t"
      using acquire_or_allocate_None_same[of p t]
      by (auto simp: palette_encode_tile_def Let_def split: prod.splits option.splits)
    then show ?thesis using fall_back inv' assms(2) by (simp add: palette_sys_inv_def)
  next
    case (ack t pid b p out)
    then show ?thesis using sys_inv_settle inv' assms(2) by auto
  next
    case (late_ack t out pid)
    then show ?thesis using inv' assms(2) by (simp add: palette_sys_inv_def palette_on_ack_def Let_def)
  next
    case (supersede t pid b p out)
    then show ?thesis using sys_inv_settle inv' assms(2) by auto
  next
    case (rebundle t out pid)
    then show ?thesis using inv' assms(2) by (simp add: palette_sys_inv_def force_rebundle_def)
  next
    case (session_reset t out b)
    then show ?thesis using inv' assms(2) by (simp add: palette_sys_inv_def on_session_reset_def)
  qed
qed

interpretation palette_sys: step_system palette_step palette_sys_inv
  by unfold_locales (rule sys_inv_step)

lemma sys_inv_init: "palette_sys_inv (PaletteTable_new, {#})"
  using pt_inv_new by (simp add: palette_sys_inv_def) (simp add: PaletteTable_new_def)

lemma sys_inv_eligible:
  assumes "palette_sys_inv (t, out)"
  shows "overwrite_eligible t i \<longleftrightarrow> pt_ref_count t i = 0"
proof -
  have r: "unat (pt_ref_count t i) = held_by i out" "unat (pt_in_flight_carrying t i) = carried_by i out"
    using assms by (auto simp: palette_sys_inv_def)
  then have "pt_ref_count t i = 0 \<Longrightarrow> pt_in_flight_carrying t i = 0"
    using carried_le_held[of i out] by (simp add: unat_eq_zero)
  then show ?thesis by (simp add: overwrite_eligible_def)
qed

section \<open>Properties\<close>

text \<open>
  C1. Outstanding emissions.  Along every run of the server from the empty table, every emission that
  has not been settled still finds its own palette in the slot it names, and each slot's reference
  and carry counters count exactly the outstanding emissions (the bundled ones for the latter): no
  reference leaks and none is given back twice.
\<close>

theorem palette_outstanding_sound:
  assumes "palette_step\<^sup>*\<^sup>* (PaletteTable_new, {#}) (t, out)"
  shows "((i, b, p) \<in># out \<longrightarrow> pt_entries t i = Some p) \<and>
     unat (pt_ref_count t i) = held_by i out \<and> unat (pt_in_flight_carrying t i) = carried_by i out"
proof -
  have "palette_sys_inv (t, out)" using palette_sys.inv_run[OF assms sys_inv_init] .
  then show ?thesis by (auto simp: palette_sys_inv_def)
qed

text \<open>A first tile on the empty table, for the witnesses.\<close>

definition grey_palette :: PaletteEntry where
  "grey_palette = \<lparr> pe_colors = replicate 16 (128, 128, 128, 255), pe_count = 1 \<rparr>"

lemma slot_ids_Cons: "slot_ids = 0 # map of_nat [1..<256]"
  by (simp add: slot_ids_def PALETTE_TABLE_SLOTS_def upt_conv_Cons)

lemma first_tile:
  "fst (palette_encode_tile p PaletteTable_new) = Some (0, True)"
proof -
  have "find_matching PaletteTable_new p = None"
    by (subst find_matching_None[OF pt_inv_new]) (simp add: PaletteTable_new_def)
  moreover have "find_empty_slot PaletteTable_new = Some 0"
    by (simp add: find_empty_slot_def slot_ids_Cons PaletteTable_new_def)
  ultimately show ?thesis
    by (simp add: palette_encode_tile_def acquire_or_allocate_def Let_def)
      (simp add: write_bytes_def)
qed

lemma first_tile_run:
  "palette_step\<^sup>*\<^sup>* (PaletteTable_new, {#})
     (snd (palette_encode_tile p PaletteTable_new), {#(0, True, p)#})"
proof -
  have "palette_step (PaletteTable_new, {#})
     (snd (palette_encode_tile p PaletteTable_new), add_mset (0, True, p) {#})"
    by (rule palette_step.encode) (simp_all add: prod_eq_iff first_tile)
  then show ?thesis by auto
qed

theorem palette_outstanding_sound_witness:
  "pt_entries (snd (palette_encode_tile grey_palette PaletteTable_new)) 0 = Some grey_palette \<and>
   unat (pt_ref_count (snd (palette_encode_tile grey_palette PaletteTable_new)) 0) = 1"
  using palette_outstanding_sound[OF first_tile_run, of 0 True grey_palette grey_palette] by simp

text \<open>
  C2. The allocation ladder.  In a reachable table a tile falls back exactly when its palette is in
  no slot and all 256 slots are referenced by outstanding emissions; otherwise it gets a slot that
  holds its palette afterwards, and no slot that an outstanding emission references is rewritten.
\<close>

theorem palette_ladder_sound:
  assumes "palette_step\<^sup>*\<^sup>* (PaletteTable_new, {#}) (t, out)"
  shows "case palette_encode_tile p t of
      (None, t') \<Rightarrow> (\<forall>i. pt_entries t i \<noteq> Some p \<and> held_by i out > 0)
    | (Some (i, b), t') \<Rightarrow> pt_entries t' i = Some p \<and>
        (\<forall>j. pt_entries t' j \<noteq> pt_entries t j \<longrightarrow> j = i \<and> held_by j out = 0)"
proof -
  have sys: "palette_sys_inv (t, out)" using palette_sys.inv_run[OF assms sys_inv_init] .
  then have inv: "pt_inv t" and "\<And>i. unat (pt_ref_count t i) = held_by i out"
    by (auto simp: palette_sys_inv_def)
  then have held: "\<And>i. pt_ref_count t i = 0 \<longleftrightarrow> held_by i out = 0" by (metis unat_eq_zero)
  show ?thesis
  proof (cases "palette_encode_tile p t")
    case (Pair r t')
    show ?thesis
    proof (cases r)
      case None
      then have "fst (acquire_or_allocate p t) = None" using Pair
        by (auto simp: palette_encode_tile_def Let_def split: prod.splits option.splits)
      then have "pt_entries t i \<noteq> Some p \<and> held_by i out > 0" for i
        using acquire_or_allocate_None[OF inv, of p] sys_inv_eligible[OF sys, of i] held[of i] by blast
      then show ?thesis using None Pair by simp
    next
      case (Some ib)
      obtain i b where ib: "ib = (i, b)" by (cases ib)
      obtain t1 where t1: "acquire_or_allocate p t = (Some i, t1)" "pt_entries t' = pt_entries t1"
        using Pair Some ib palette_encode_tile_Some[of p t i b t'] by metis
      from acquire_or_allocate_Some[OF inv t1(1)]
      have "pt_entries t' i = Some p \<and> (\<forall>j. pt_entries t' j \<noteq> pt_entries t j \<longrightarrow> j = i \<and> held_by j out = 0)"
        using t1(2) held[of i] by (auto simp: slot_reused_def slot_rewritten_def split: if_splits)
      then show ?thesis using Pair Some ib by simp
    qed
  qed
qed

theorem palette_ladder_sound_witness:
  "case palette_encode_tile grey_palette PaletteTable_new of
      (None, t') \<Rightarrow> False
    | (Some (i, b), t') \<Rightarrow> pt_entries t' i = Some grey_palette \<and>
        (\<forall>j. pt_entries t' j \<noteq> pt_entries PaletteTable_new j \<longrightarrow> j = i)"
  using palette_ladder_sound[OF rtranclp.rtrancl_refl, of grey_palette] first_tile[of grey_palette]
  by (auto split: prod.splits option.splits)

end
