(* ===== verification/Cdf53.thy ===== *)
theory Cdf53
  imports Prelude
begin

text \<open>
  The CDF 5/3 lifting transform of \<^verbatim>\<open>ghostframe-protocol/src/codec/cdf53.rs\<close>: three levels of
  a two-dimensional integer wavelet on each of the B, G and R channels of a 32 by 32 tile, and its
  inverse.  The \<^verbatim>\<open>i32\<close> working values are integers; on tile input they stay far below the width
  (lemma \<open>forward_channel_bound\<close>).  An \<^verbatim>\<open>i16\<close> is an integer too, with the cast written out.
\<close>

definition CDF53_PASS_COUNT :: nat where [simp]: "CDF53_PASS_COUNT = 14"
definition CDF53_COEFFS_PER_CHANNEL :: nat where [simp]: "CDF53_COEFFS_PER_CHANNEL = 1024"
definition CDF53_CHANNELS :: nat where [simp]: "CDF53_CHANNELS = 3"
definition CDF53_TOTAL_COEFFS :: nat where
  [simp]: "CDF53_TOTAL_COEFFS = CDF53_CHANNELS * CDF53_COEFFS_PER_CHANNEL"
definition BIT_PLANE_BYTES_PER_CHANNEL :: nat where
  [simp]: "BIT_PLANE_BYTES_PER_CHANNEL = CDF53_COEFFS_PER_CHANNEL div 8"

text \<open>\<^verbatim>\<open>v as i16\<close>\<close>

definition as_i16 :: "int \<Rightarrow> int" where "as_i16 v = signed_take_bit 15 v"

lemma as_i16_id: "- 32768 \<le> v \<Longrightarrow> v < 32768 \<Longrightarrow> as_i16 v = v"
  unfolding as_i16_def by (rule signed_take_bit_int_eq_self) simp_all

section \<open>Lifting one row or column\<close>

text \<open>\<^verbatim>\<open>(1..n).step_by(2)\<close> and \<^verbatim>\<open>(0..n).step_by(2)\<close>.\<close>

definition odds :: "nat \<Rightarrow> nat list" where "odds n = filter odd [0..<n]"
definition evens :: "nat \<Rightarrow> nat list" where "evens n = filter even [0..<n]"

text \<open>An in-place loop that adds \<open>d\<close> of the current buffer to each listed element.\<close>

definition lift :: "(int list \<Rightarrow> nat \<Rightarrow> int) \<Rightarrow> nat list \<Rightarrow> int list \<Rightarrow> int list" where
  "lift d ks buf = foldl (\<lambda>b i. b[i := b ! i + d b i]) buf ks"

definition predict_at :: "nat \<Rightarrow> int list \<Rightarrow> nat \<Rightarrow> int" where
  "predict_at n buf i =
     (let left = buf ! (i - 1);
          right = (if i + 1 < n then buf ! (i + 1) else buf ! (i - 1))
      in (left + right) div 2)"

definition update_at :: "nat \<Rightarrow> int list \<Rightarrow> nat \<Rightarrow> int" where
  "update_at n buf i =
     (let left = (if i = 0 then buf ! 1 else buf ! (i - 1));
          right = (if i + 1 < n then buf ! (i + 1) else buf ! (i - 1))
      in (left + right + 2) div 4)"

text \<open>Even elements first, then odd ones; the scratch buffer starts as zeros.\<close>

definition deinterleave :: "nat \<Rightarrow> int list \<Rightarrow> int list" where
  "deinterleave n buf =
     map (\<lambda>i. buf ! (2 * i)) [0..<n div 2] @ map (\<lambda>i. buf ! (2 * i + 1)) [0..<n div 2] @
     replicate (n mod 2) 0 @ drop n buf"

definition interleave :: "nat \<Rightarrow> int list \<Rightarrow> int list" where
  "interleave n buf =
     concat (map (\<lambda>i. [buf ! i, buf ! (n div 2 + i)]) [0..<n div 2]) @
     replicate (n mod 2) 0 @ drop n buf"

definition row_forward :: "nat \<Rightarrow> int list \<Rightarrow> int list" where
  "row_forward n buf =
     (let buf = lift (\<lambda>b i. - predict_at n b i) (odds n) buf;
          buf = lift (update_at n) (evens n) buf
      in deinterleave n buf)"

definition row_inverse :: "nat \<Rightarrow> int list \<Rightarrow> int list" where
  "row_inverse n buf =
     (let buf = interleave n buf;
          buf = lift (\<lambda>b i. - update_at n b i) (evens n) buf
      in lift (predict_at n) (odds n) buf)"

subsection \<open>In-place loops that read outside what they write\<close>

definition reads_outside :: "nat set \<Rightarrow> (int list \<Rightarrow> nat \<Rightarrow> int) \<Rightarrow> bool" where
  "reads_outside S d \<longleftrightarrow>
     (\<forall>i \<in> S. \<forall>b b'. (\<forall>j. j \<notin> S \<longrightarrow> b ! j = b' ! j) \<longrightarrow> d b i = d b' i)"

lemma length_lift [simp]: "length (lift d ks buf) = length buf"
  unfolding lift_def by (induction ks arbitrary: buf) simp_all

lemma lift_nth:
  assumes "reads_outside S d" "set ks \<subseteq> S" "distinct ks" "\<And>i. i \<in> set ks \<Longrightarrow> i < length buf"
  shows "lift d ks buf ! j = (if j \<in> set ks then buf ! j + d buf j else buf ! j)"
  using assms
proof (induction ks arbitrary: buf)
  case (Cons i ks)
  let ?b = "buf[i := buf ! i + d buf i]"
  have "d ?b j = d buf j" if "j \<in> set ks" for j
    using that Cons.prems(1,2) unfolding reads_outside_def
    by (metis (no_types, lifting) list.set_intros(1) nth_list_update_neq set_subset_Cons subsetD)
  moreover have "lift d (i # ks) buf = lift d ks ?b" by (simp add: lift_def)
  ultimately show ?case using Cons by (auto simp: nth_list_update)
qed (simp add: lift_def)

lemma lift_inverse:
  assumes "reads_outside S d" "set ks \<subseteq> S" "distinct ks" "\<And>i. i \<in> set ks \<Longrightarrow> i < length buf"
  shows "lift (\<lambda>b i. - d b i) ks (lift d ks buf) = buf"
proof (rule nth_equalityI)
  fix j assume "j < length (lift (\<lambda>b i. - d b i) ks (lift d ks buf))"
  have neg: "reads_outside S (\<lambda>b i. - d b i)" using assms(1) by (simp add: reads_outside_def)
  have "d (lift d ks buf) j = d buf j" if "j \<in> set ks"
  proof -
    have "j \<in> S" using that assms(2) by auto
    moreover have "lift d ks buf ! k = buf ! k" if "k \<notin> S" for k
      using lift_nth[OF assms] assms(2) that by auto
    ultimately show ?thesis using assms(1) unfolding reads_outside_def by blast
  qed
  then show "lift (\<lambda>b i. - d b i) ks (lift d ks buf) ! j = buf ! j"
    using assms lift_nth[OF neg assms(2,3), of "lift d ks buf" j] lift_nth[OF assms, of j] by auto
qed simp

lemma odds_evens_props [simp]:
  "distinct (odds n)" "distinct (evens n)"
  "i \<in> set (odds n) \<longleftrightarrow> odd i \<and> i < n" "i \<in> set (evens n) \<longleftrightarrow> even i \<and> i < n"
  by (auto simp: odds_def evens_def)

lemma predict_reads: "reads_outside {i. odd i} (predict_at n)"
  unfolding reads_outside_def predict_at_def Let_def by (auto elim!: oddE)

lemma update_reads: "even n \<Longrightarrow> reads_outside {i. even i \<and> i < n} (update_at n)"
  unfolding reads_outside_def update_at_def Let_def
  by (auto elim!: evenE)

lemma neg_reads: "reads_outside S d \<Longrightarrow> reads_outside S (\<lambda>b i. - d b i)"
  by (simp add: reads_outside_def)

subsection \<open>The inverse undoes a row\<close>

lemma length_interleave_pairs: "length (concat (map (\<lambda>i. [f i, g i]) [0..<k])) = 2 * k"
  by (induction k) simp_all

lemma nth_interleave_pairs:
  "j < 2 * k \<Longrightarrow> concat (map (\<lambda>i. [f i, g i]) [0..<k]) ! j = (if even j then f (j div 2) else g (j div 2))"
proof (induction k)
  case (Suc k)
  have split: "concat (map (\<lambda>i. [f i, g i]) [0..<Suc k]) = concat (map (\<lambda>i. [f i, g i]) [0..<k]) @ [f k, g k]"
    by simp
  show ?case
  proof (cases "j < 2 * k")
    case True
    then show ?thesis using Suc.IH unfolding split by (simp add: nth_append length_interleave_pairs)
  next
    case False
    then have "j = 2 * k \<or> j = 2 * k + 1" using Suc.prems by auto
    then show ?thesis unfolding split by (auto simp: nth_append length_interleave_pairs)
  qed
qed simp

lemma length_deinterleave: "n \<le> length buf \<Longrightarrow> length (deinterleave n buf) = length buf"
  by (simp add: deinterleave_def) presburger

lemma length_interleave: "n \<le> length buf \<Longrightarrow> length (interleave n buf) = length buf"
  by (simp add: interleave_def length_interleave_pairs)

lemma deinterleave_nth:
  assumes "even n" "n \<le> length buf"
  shows "i < n div 2 \<Longrightarrow> deinterleave n buf ! i = buf ! (2 * i)"
    and "i < n div 2 \<Longrightarrow> deinterleave n buf ! (n div 2 + i) = buf ! (2 * i + 1)"
    and "n \<le> j \<Longrightarrow> j < length buf \<Longrightarrow> deinterleave n buf ! j = buf ! j"
  using assms by (auto simp: deinterleave_def nth_append elim!: evenE)

lemma interleave_deinterleave:
  assumes "even n" "n \<le> length buf"
  shows "interleave n (deinterleave n buf) = buf"
proof (rule nth_equalityI)
  show len: "length (interleave n (deinterleave n buf)) = length buf"
    using assms by (simp add: length_interleave length_deinterleave)
  fix j assume "j < length (interleave n (deinterleave n buf))"
  then have j: "j < length buf" using len by simp
  obtain h where h: "n = 2 * h" using assms(1) by (auto elim: evenE)
  show "interleave n (deinterleave n buf) ! j = buf ! j"
  proof (cases "j < n")
    case True
    then have "j div 2 < n div 2" using h by auto
    then show ?thesis
      using True h assms deinterleave_nth(1,2)[OF assms, of "j div 2"]
      by (auto simp: interleave_def nth_append length_interleave_pairs nth_interleave_pairs elim!: evenE oddE)
  next
    case False
    then show ?thesis using h j assms deinterleave_nth(3)[OF assms, of j]
      by (simp add: interleave_def nth_append length_interleave_pairs length_deinterleave)
  qed
qed

lemma length_row_forward: "n \<le> length buf \<Longrightarrow> length (row_forward n buf) = length buf"
  by (simp add: row_forward_def Let_def length_deinterleave)

lemma length_row_inverse: "n \<le> length buf \<Longrightarrow> length (row_inverse n buf) = length buf"
  by (simp add: row_inverse_def Let_def length_interleave)

lemma row_inverse_forward:
  assumes "even n" "n \<le> length buf"
  shows "row_inverse n (row_forward n buf) = buf"
proof -
  let ?p = "lift (\<lambda>b i. - predict_at n b i) (odds n) buf"
  have "lift (\<lambda>b i. - update_at n b i) (evens n) (lift (update_at n) (evens n) ?p) = ?p"
    using assms by (intro lift_inverse[OF update_reads]) auto
  moreover have "lift (\<lambda>b i. - (- predict_at n b i)) (odds n) ?p = buf"
    using assms by (intro lift_inverse[OF neg_reads[OF predict_reads]]) auto
  ultimately show ?thesis
    using assms by (simp add: row_inverse_def row_forward_def Let_def interleave_deinterleave)
qed

lemma lift_notin: "j \<notin> set ks \<Longrightarrow> lift d ks b ! j = b ! j"
  unfolding lift_def by (induction ks arbitrary: b) auto

lemma row_forward_tail:
  assumes "even n" "n \<le> length buf" "n \<le> j" "j < length buf"
  shows "row_forward n buf ! j = buf ! j"
  using assms by (simp add: row_forward_def Let_def deinterleave_nth(3) lift_notin)

section \<open>Rows and columns of the working square\<close>

type_synonym work = "int list list"

definition row_pass :: "(int list \<Rightarrow> int list) \<Rightarrow> nat \<Rightarrow> work \<Rightarrow> work" where
  "row_pass f sz work = foldl (\<lambda>w y. w[y := f (w ! y)]) work [0..<sz]"

definition get_column :: "nat \<Rightarrow> nat \<Rightarrow> work \<Rightarrow> int list" where
  "get_column sz x work = map (\<lambda>y. if y < sz then work ! y ! x else 0) [0..<32]"

definition put_column :: "nat \<Rightarrow> nat \<Rightarrow> int list \<Rightarrow> work \<Rightarrow> work" where
  "put_column sz x col work = foldl (\<lambda>w y. w[y := (w ! y)[x := col ! y]]) work [0..<sz]"

definition col_pass :: "(int list \<Rightarrow> int list) \<Rightarrow> nat \<Rightarrow> work \<Rightarrow> work" where
  "col_pass f sz work = foldl (\<lambda>w x. put_column sz x (f (get_column sz x w)) w) work [0..<sz]"

definition wf_work :: "work \<Rightarrow> bool" where
  "wf_work w \<longleftrightarrow> length w = 32 \<and> (\<forall>y < 32. length (w ! y) = 32)"

lemma wf_work_eqI:
  assumes "wf_work v" "wf_work w" "\<And>y x. y < 32 \<Longrightarrow> x < 32 \<Longrightarrow> v ! y ! x = w ! y ! x"
  shows "v = w"
  using assms by (intro nth_equalityI) (auto simp: wf_work_def)

lemma foldl_rows_nth:
  "k \<le> length w \<Longrightarrow>
     length (foldl (\<lambda>w y. w[y := g y (w ! y)]) w [0..<k]) = length w \<and>
     (\<forall>j. foldl (\<lambda>w y. w[y := g y (w ! y)]) w [0..<k] ! j = (if j < k then g j (w ! j) else w ! j))"
  by (induction k) (auto simp: nth_list_update less_Suc_eq)

lemma row_pass_nth:
  "sz \<le> length w \<Longrightarrow> row_pass f sz w ! j = (if j < sz then f (w ! j) else w ! j)"
  "sz \<le> length w \<Longrightarrow> length (row_pass f sz w) = length w"
  using foldl_rows_nth[of sz w "\<lambda>_. f"] by (simp_all add: row_pass_def)

lemma put_column_nth:
  "sz \<le> length w \<Longrightarrow> put_column sz x c w ! j = (if j < sz then (w ! j)[x := c ! j] else w ! j)"
  "sz \<le> length w \<Longrightarrow> length (put_column sz x c w) = length w"
  using foldl_rows_nth[of sz w "\<lambda>y r. r[x := c ! y]"] by (simp_all add: put_column_def)

lemma wf_put_column: "wf_work w \<Longrightarrow> sz \<le> 32 \<Longrightarrow> wf_work (put_column sz x c w)"
  by (simp add: wf_work_def put_column_nth)

lemma put_column_cell:
  "wf_work w \<Longrightarrow> sz \<le> 32 \<Longrightarrow> y < 32 \<Longrightarrow> x' < 32 \<Longrightarrow>
     put_column sz x c w ! y ! x' = (if y < sz \<and> x' = x then c ! y else w ! y ! x')"
  by (auto simp: wf_work_def put_column_nth nth_list_update)

lemma col_pass_upto:
  fixes f :: "int list \<Rightarrow> int list"
  assumes "wf_work w" "sz \<le> 32" "k \<le> sz"
  defines "v \<equiv> foldl (\<lambda>w x. put_column sz x (f (get_column sz x w)) w) w [0..<k]"
  shows "wf_work v \<and> (\<forall>y < 32. \<forall>x < 32.
     v ! y ! x = (if y < sz \<and> x < k then f (get_column sz x w) ! y else w ! y ! x))"
  using assms(3) unfolding v_def
proof (induction k)
  case (Suc k)
  let ?v = "foldl (\<lambda>w x. put_column sz x (f (get_column sz x w)) w) w [0..<k]"
  have IH: "wf_work ?v" "\<And>y x. y < 32 \<Longrightarrow> x < 32 \<Longrightarrow>
     ?v ! y ! x = (if y < sz \<and> x < k then f (get_column sz x w) ! y else w ! y ! x)"
    using Suc by auto
  have k: "k < 32" using Suc.prems assms(2) by simp
  have col: "get_column sz k ?v = get_column sz k w"
    using IH(2) k by (simp add: get_column_def)
  show ?case using IH k assms(2) by (auto simp: wf_put_column put_column_cell col less_Suc_eq)
qed (use assms(1) in simp)

lemma wf_col_pass: "wf_work w \<Longrightarrow> sz \<le> 32 \<Longrightarrow> wf_work (col_pass f sz w)"
  using col_pass_upto[of w sz sz f] by (simp add: col_pass_def)

lemma col_pass_cell:
  "wf_work w \<Longrightarrow> sz \<le> 32 \<Longrightarrow> y < 32 \<Longrightarrow> x < 32 \<Longrightarrow>
     col_pass f sz w ! y ! x = (if y < sz \<and> x < sz then f (get_column sz x w) ! y else w ! y ! x)"
  using col_pass_upto[of w sz sz f] by (simp add: col_pass_def)

text \<open>
  What the two-dimensional passes need of a line transform \<open>f\<close> with inverse \<open>g\<close> on the first \<open>sz\<close>
  of 32 elements; it is interpreted on the lifting at each of the three sizes.
\<close>

locale line_transform =
  fixes f g :: "int list \<Rightarrow> int list" and sz :: nat
  assumes size_le: "sz \<le> 32"
    and length_f: "length b = 32 \<Longrightarrow> length (f b) = 32"
    and g_f: "length b = 32 \<Longrightarrow> g (f b) = b"
    and f_tail: "length b = 32 \<Longrightarrow> sz \<le> j \<Longrightarrow> j < 32 \<Longrightarrow> f b ! j = b ! j"
begin

lemma wf_row_pass: "wf_work w \<Longrightarrow> wf_work (row_pass f sz w)"
  using size_le length_f by (simp add: wf_work_def row_pass_nth)

lemma row_pass_inverse: "wf_work w \<Longrightarrow> row_pass g sz (row_pass f sz w) = w"
  using size_le g_f by (intro nth_equalityI) (simp_all add: wf_work_def row_pass_nth)

lemma get_column_col_pass:
  assumes "wf_work w" "x < sz"
  shows "get_column sz x (col_pass f sz w) = f (get_column sz x w)"
proof (rule nth_equalityI)
  have len: "length (get_column sz x w) = 32" by (simp add: get_column_def)
  then show "length (get_column sz x (col_pass f sz w)) = length (f (get_column sz x w))"
    using length_f[OF len] by (simp add: get_column_def)
  fix j assume "j < length (get_column sz x (col_pass f sz w))"
  then have "j < 32" by (simp add: get_column_def)
  then show "get_column sz x (col_pass f sz w) ! j = f (get_column sz x w) ! j"
    using assms size_le f_tail[OF len, of j]
    by (cases "j < sz") (simp_all add: get_column_def col_pass_cell)
qed

lemma col_pass_inverse:
  assumes "wf_work w"
  shows "col_pass g sz (col_pass f sz w) = w"
proof (rule wf_work_eqI)
  show "wf_work (col_pass g sz (col_pass f sz w))" using assms size_le by (simp add: wf_col_pass)
  fix y x :: nat assume "y < 32" "x < 32"
  then show "col_pass g sz (col_pass f sz w) ! y ! x = w ! y ! x"
    using assms size_le g_f[of "get_column sz x w"]
    by (simp add: col_pass_cell wf_col_pass get_column_col_pass) (simp add: get_column_def)
qed (rule assms)

lemma level_inverse_forward:
  "wf_work w \<Longrightarrow> row_pass g sz (col_pass g sz (col_pass f sz (row_pass f sz w))) = w"
  by (simp add: col_pass_inverse wf_row_pass row_pass_inverse)

lemma wf_level: "wf_work w \<Longrightarrow> wf_work (col_pass f sz (row_pass f sz w))"
  by (simp add: wf_col_pass wf_row_pass size_le)

end

lemma line_transform_lifting: "even n \<Longrightarrow> n \<le> 32 \<Longrightarrow> line_transform (row_forward n) (row_inverse n) n"
  by unfold_locales (simp_all add: length_row_forward row_inverse_forward row_forward_tail)

interpretation l32: line_transform "row_forward 32" "row_inverse 32" 32
  by (rule line_transform_lifting) simp_all
interpretation l16: line_transform "row_forward 16" "row_inverse 16" 16
  by (rule line_transform_lifting) simp_all
interpretation l8: line_transform "row_forward 8" "row_inverse 8" 8
  by (rule line_transform_lifting) simp_all

section \<open>Three levels, packing, and the whole tile\<close>

definition level_forward :: "nat \<Rightarrow> work \<Rightarrow> work" where
  "level_forward sz work = col_pass (row_forward sz) sz (row_pass (row_forward sz) sz work)"

definition level_inverse :: "nat \<Rightarrow> work \<Rightarrow> work" where
  "level_inverse sz work = row_pass (row_inverse sz) sz (col_pass (row_inverse sz) sz work)"

definition decompose :: "nat \<Rightarrow> work \<Rightarrow> work" where
  "decompose levels work =
     fst (foldl (\<lambda>(w, sz) _. (level_forward sz w, sz div 2)) (work, 32) [0..<levels])"

definition recompose :: "work \<Rightarrow> work" where
  "recompose work = fst (foldl (\<lambda>(w, sz) _. (level_inverse sz w, sz * 2)) (work, 8) [0..<3])"

text \<open>One nested loop of the packing, \<open>y\<close> outside and \<open>x\<close> inside.\<close>

definition block :: "nat \<Rightarrow> nat \<Rightarrow> nat \<Rightarrow> nat \<Rightarrow> (nat \<times> nat) list" where
  "block y0 y1 x0 x1 = concat (map (\<lambda>y. map (\<lambda>x. (y, x)) [x0..<x1]) [y0..<y1])"

definition subband_order :: "(nat \<times> nat) list" where
  "subband_order =
     block 0 4 0 4 @ block 0 4 4 8 @ block 4 8 0 4 @ block 4 8 4 8 @
     block 0 8 8 16 @ block 8 16 0 8 @ block 8 16 8 16 @
     block 0 16 16 32 @ block 16 32 0 16 @ block 16 32 16 32"

definition load_channel :: "bytes \<Rightarrow> nat \<Rightarrow> work" where
  "load_channel tile_bgra ch =
     map (\<lambda>y. map (\<lambda>x. uint (tile_bgra ! ((y * 32 + x) * 4 + ch))) [0..<32]) [0..<32]"

definition pack_channel :: "(nat \<times> nat) list \<Rightarrow> work \<Rightarrow> int list" where
  "pack_channel order work = map (\<lambda>(y, x). as_i16 (work ! y ! x)) order"

definition unpack_channel :: "int list \<Rightarrow> work" where
  "unpack_channel coeffs =
     foldl (\<lambda>w ((y, x), c). w[y := (w ! y)[x := c]]) (replicate 32 (replicate 32 0))
       (zip subband_order coeffs)"

text \<open>\<open>None\<close> is the \<^verbatim>\<open>assert_eq!\<close> on the input's length.\<close>

definition forward :: "bytes \<Rightarrow> int list option" where
  "forward tile_bgra =
     (if length tile_bgra \<noteq> 32 * 32 * 4 then None
      else Some (concat (map (\<lambda>ch. pack_channel subband_order (decompose 3 (load_channel tile_bgra ch)))
                             [0..<CDF53_CHANNELS])))"

definition forward_level1_only :: "bytes \<Rightarrow> int list option" where
  "forward_level1_only tile_bgra =
     (if length tile_bgra \<noteq> 32 * 32 * 4 then None
      else Some (concat (map (\<lambda>ch. pack_channel
             (block 0 16 0 16 @ block 0 16 16 32 @ block 16 32 0 16 @ block 16 32 16 32)
             (decompose 1 (load_channel tile_bgra ch))) [0..<CDF53_CHANNELS])))"

definition forward_level2_only :: "bytes \<Rightarrow> int list option" where
  "forward_level2_only tile_bgra =
     (if length tile_bgra \<noteq> 32 * 32 * 4 then None
      else Some (concat (map (\<lambda>ch. pack_channel
             (block 0 8 0 8 @ block 0 8 8 16 @ block 8 16 0 8 @ block 8 16 8 16 @
              block 0 16 16 32 @ block 16 32 0 16 @ block 16 32 16 32)
             (decompose 2 (load_channel tile_bgra ch))) [0..<CDF53_CHANNELS])))"

definition clamp_u8 :: "int \<Rightarrow> u8" where
  "clamp_u8 v = of_int (max 0 (min 255 v))"

text \<open>The output pixel loop writes byte \<open>(y * 32 + x) * 3 + ch\<close>; here by that index.\<close>

definition inverse :: "int list \<Rightarrow> bytes option" where
  "inverse coefficients =
     (if length coefficients \<noteq> CDF53_TOTAL_COEFFS then None
      else
        let works = map (\<lambda>ch. recompose (unpack_channel
                (bslice (ch * CDF53_COEFFS_PER_CHANNEL)
                        (ch * CDF53_COEFFS_PER_CHANNEL + CDF53_COEFFS_PER_CHANNEL) coefficients)))
              [0..<CDF53_CHANNELS]
        in Some (map (\<lambda>i. clamp_u8 (works ! (i mod 3) ! (i div 3 div 32) ! (i div 3 mod 32)))
                     [0..<32 * 32 * 3]))"

subsection \<open>Levels\<close>

lemma decompose_3: "decompose 3 w = level_forward 8 (level_forward 16 (level_forward 32 w))"
  by (simp add: decompose_def numeral_3_eq_3)

lemma recompose_3: "recompose w = level_inverse 32 (level_inverse 16 (level_inverse 8 w))"
  by (simp add: recompose_def numeral_3_eq_3)

lemma wf_level_forward:
  "wf_work w \<Longrightarrow> wf_work (level_forward 32 w)" "wf_work w \<Longrightarrow> wf_work (level_forward 16 w)"
  "wf_work w \<Longrightarrow> wf_work (level_forward 8 w)"
  unfolding level_forward_def by (rule l32.wf_level l16.wf_level l8.wf_level; assumption)+

lemma recompose_decompose: "wf_work w \<Longrightarrow> recompose (decompose 3 w) = w"
  using l32.level_inverse_forward[of w] l16.level_inverse_forward[of "level_forward 32 w"]
    l8.level_inverse_forward[of "level_forward 16 (level_forward 32 w)"]
  by (simp add: decompose_3 recompose_3 wf_level_forward)
    (simp add: level_forward_def level_inverse_def)

subsection \<open>The subband order visits every cell once\<close>

lemma set_block [simp]: "set (block y0 y1 x0 x1) = {y0..<y1} \<times> {x0..<x1}"
  by (auto simp: block_def)

lemma distinct_block [simp]: "distinct (block y0 y1 x0 x1)"
proof -
  have "inj_on (\<lambda>y. map (Pair y) [x0..<x1]) A" if "x0 < x1" for A
    using that by (intro inj_onI) (simp add: upt_conv_Cons)
  then show ?thesis unfolding block_def
    by (cases "x0 < x1") (auto simp: distinct_concat_iff distinct_map inj_on_def removeAll_filter_not_eq)
qed

lemma length_block [simp]: "length (block y0 y1 x0 x1) = (y1 - y0) * (x1 - x0)"
  by (simp add: block_def length_concat comp_def sum_list_triv)

lemma length_subband_order [simp]: "length subband_order = 1024"
  by (simp add: subband_order_def)

lemma distinct_subband_order: "distinct subband_order"
  by (simp add: subband_order_def) auto

lemma set_subband_order: "(y, x) \<in> set subband_order \<longleftrightarrow> y < 32 \<and> x < 32"
  by (simp add: subband_order_def) presburger

lemma foldl_cells_nth:
  assumes "wf_work w" "distinct (map fst yxs)" "\<And>y x c. ((y, x), c) \<in> set yxs \<Longrightarrow> y < 32 \<and> x < 32"
  defines "v \<equiv> foldl (\<lambda>w ((y, x), c). w[y := (w ! y)[x := c]]) w yxs"
  shows "wf_work v \<and> (\<forall>y < 32. \<forall>x < 32.
     v ! y ! x = (case map_of yxs (y, x) of Some c \<Rightarrow> c | None \<Rightarrow> w ! y ! x))"
  using assms(1-3) unfolding v_def
proof (induction yxs arbitrary: w)
  case (Cons p yxs)
  obtain y0 x0 c0 where p: "p = ((y0, x0), c0)" by (cases p) auto
  let ?w = "w[y0 := (w ! y0)[x0 := c0]]"
  have b: "y0 < 32" "x0 < 32" using Cons.prems(3) p by auto
  have w': "wf_work ?w" using Cons.prems(1) b by (auto simp: wf_work_def nth_list_update)
  have cell: "?w ! y ! x = (if (y, x) = (y0, x0) then c0 else w ! y ! x)" if "y < 32" "x < 32" for y x
    using that b Cons.prems(1) by (auto simp: wf_work_def nth_list_update)
  have none: "map_of yxs (y0, x0) = None" using Cons.prems(2) p by (simp add: map_of_eq_None_iff)
  have d: "distinct (map fst yxs)" using Cons.prems(2) by simp
  have "\<And>y x c. ((y, x), c) \<in> set yxs \<Longrightarrow> y < 32 \<and> x < 32" using Cons.prems(3) by (meson list.set_intros(2))
  note IH = Cons.IH[OF w' d this]
  have "foldl (\<lambda>w ((y, x), c). w[y := (w ! y)[x := c]]) w (p # yxs) =
      foldl (\<lambda>w ((y, x), c). w[y := (w ! y)[x := c]]) ?w yxs" by (simp add: p)
  then show ?case using IH cell none p by (simp split: option.splits)
qed simp

lemma unpack_pack:
  assumes "wf_work w" "\<And>y x. y < 32 \<Longrightarrow> x < 32 \<Longrightarrow> as_i16 (w ! y ! x) = w ! y ! x"
  shows "unpack_channel (pack_channel subband_order w) = w"
proof -
  let ?cs = "pack_channel subband_order w"
  have len: "length ?cs = 1024" by (simp add: pack_channel_def)
  have zip: "zip subband_order ?cs = map (\<lambda>yx. (yx, as_i16 (w ! fst yx ! snd yx))) subband_order"
    by (simp add: pack_channel_def zip_map2 zip_same_conv_map case_prod_beta)
  have z: "wf_work (replicate 32 (replicate 32 0))" by (simp add: wf_work_def)
  have fst: "map fst (zip subband_order ?cs) = subband_order" using len by simp
  have cells: "wf_work (unpack_channel ?cs) \<and> (\<forall>y < 32. \<forall>x < 32. unpack_channel ?cs ! y ! x =
      (case map_of (zip subband_order ?cs) (y, x) of Some c \<Rightarrow> c | None \<Rightarrow> (replicate 32 (replicate 32 0)) ! y ! x))"
    unfolding unpack_channel_def
    by (rule foldl_cells_nth[OF z]) (auto simp: fst distinct_subband_order set_subband_order dest!: set_zip_leftD)
  have "map_of (zip subband_order ?cs) (y, x) = Some (w ! y ! x)" if "y < 32" "x < 32" for y x
    unfolding zip using that assms(2) set_subband_order by (simp add: map_of_map_restrict)
  then show ?thesis using cells assms(1) by (intro wf_work_eqI) auto
qed

subsection \<open>Bounds\<close>

text \<open>From values of magnitude at most \<open>m\<close>: the low-pass half and twice over.\<close>

definition low_bound :: "int \<Rightarrow> int" where "low_bound m = (3 * m + 1) div 2"

lemma high_pass_bound:
  fixes a b c m :: int
  assumes "\<bar>a\<bar> \<le> m" "\<bar>b\<bar> \<le> m" "\<bar>c\<bar> \<le> m"
  shows "\<bar>b - (a + c) div 2\<bar> \<le> 2 * m"
  using assms by linarith

lemma low_bound_halves:
  assumes "8 * s \<le> 12 * m + 6" "- (12 * m) - 2 \<le> 8 * s"
  shows "s \<le> low_bound m" "- s \<le> low_bound m"
proof -
  have "2 * s \<le> 3 * m + 1" using assms(1) by presburger
  then show "s \<le> low_bound m" unfolding low_bound_def by presburger
  have "2 * (- s) \<le> 3 * m + 1" using assms(2) by presburger
  then show "- s \<le> low_bound m" unfolding low_bound_def by presburger
qed

lemma low_pass_bound:
  fixes x a b c d m :: int
  assumes "\<bar>x\<bar> \<le> m" "\<bar>a\<bar> \<le> m" "\<bar>b\<bar> \<le> m" "\<bar>c\<bar> \<le> m" "\<bar>d\<bar> \<le> m"
  shows "\<bar>x + ((b - (a + x) div 2) + (c - (x + d) div 2) + 2) div 4\<bar> \<le> low_bound m"
proof -
  define p q where "p = (a + x) div 2" and "q = (x + d) div 2"
  define e where "e = ((b - p) + (c - q) + 2) div 4"
  have p: "a + x \<le> 2 * p + 1" "2 * p \<le> a + x" unfolding p_def by presburger+
  have q: "x + d \<le> 2 * q + 1" "2 * q \<le> x + d" unfolding q_def by presburger+
  have e: "4 * e \<le> b - p + (c - q) + 2" "b - p + (c - q) + 2 \<le> 4 * e + 3" unfolding e_def by presburger+
  have up: "8 * e \<le> 2 * b + 2 * c + 6 - a - 2 * x - d" using p(1) q(1) e(1) by linarith
  have lo: "2 * b + 2 * c - 2 - a - 2 * x - d \<le> 8 * e" using p(2) q(2) e(2) by linarith
  have le: "x \<le> m" "a \<le> m" "b \<le> m" "c \<le> m" "d \<le> m" using assms by (simp_all only: abs_le_iff)
  have ge: "- m \<le> x" "- m \<le> a" "- m \<le> b" "- m \<le> c" "- m \<le> d"
    using assms by (simp_all only: abs_le_iff minus_le_iff)
  have "8 * x + 8 * e \<le> 12 * m + 6" using up le(1,3,4) ge(2,5) by linarith
  moreover have "- 12 * m - 2 \<le> 8 * x + 8 * e" using lo ge(1,3,4) le(2,5) by linarith
  ultimately have "x + e \<le> low_bound m" "- (x + e) \<le> low_bound m"
    using low_bound_halves[of "x + e" m] by (simp_all add: distrib_left)
  then show ?thesis by (simp only: abs_le_iff e_def p_def q_def)
qed

lemma predict_step_nth:
  assumes "n \<le> length b"
  shows "lift (\<lambda>b i. - predict_at n b i) (odds n) b ! i =
     (if odd i \<and> i < n then b ! i - predict_at n b i else b ! i)"
  using assms by (subst lift_nth[OF neg_reads[OF predict_reads]]) auto

lemma update_step_nth:
  assumes "even n" "n \<le> length b"
  shows "lift (update_at n) (evens n) b ! i =
     (if even i \<and> i < n then b ! i + update_at n b i else b ! i)"
  using assms by (subst lift_nth[OF update_reads]) auto

lemma row_forward_low:
  assumes "even n" "n \<le> length b" "i < n div 2"
  shows "row_forward n b ! i = b ! (2 * i) + update_at n (lift (\<lambda>b i. - predict_at n b i) (odds n) b) (2 * i)"
proof -
  have "2 * i < n" using assms(1,3) by (auto elim!: evenE)
  then show ?thesis
    using assms by (simp add: row_forward_def Let_def deinterleave_nth update_step_nth predict_step_nth)
qed

lemma row_forward_high:
  assumes "even n" "n \<le> length b" "i < n div 2"
  shows "row_forward n b ! (n div 2 + i) = b ! (2 * i + 1) - predict_at n b (2 * i + 1)"
  using assms by (simp add: row_forward_def Let_def deinterleave_nth lift_notin predict_step_nth) presburger

lemma row_forward_high_bound:
  assumes "even n" "n \<le> length b" "i < n div 2" "\<And>j. j < n \<Longrightarrow> \<bar>b ! j\<bar> \<le> m"
  shows "\<bar>row_forward n b ! (n div 2 + i)\<bar> \<le> 2 * m"
proof -
  have "2 * i + 1 < n" using assms(1,3) by (auto elim!: evenE)
  then show ?thesis unfolding row_forward_high[OF assms(1-3)] predict_at_def Let_def
    using assms(4) by (intro high_pass_bound) auto
qed

lemma row_forward_low_bound:
  assumes "even n" "n \<le> length b" "i < n div 2" "\<And>j. j < n \<Longrightarrow> \<bar>b ! j\<bar> \<le> m"
  shows "\<bar>row_forward n b ! i\<bar> \<le> low_bound m"
proof -
  let ?p = "lift (\<lambda>b i. - predict_at n b i) (odds n) b"
  have i: "2 * i + 1 < n" using assms(1,3) by (auto elim!: evenE)
  define r where "r = (if 2 * i + 2 < n then b ! (2 * i + 2) else b ! (2 * i))"
  have right: "?p ! (2 * i + 1) = b ! (2 * i + 1) - (b ! (2 * i) + r) div 2"
    unfolding predict_step_nth[OF assms(2)] using i by (simp add: predict_at_def Let_def r_def)
  define k where "k = (if i = 0 then 1 else 2 * i - 1)"
  have k: "odd k" "k < n" "k - 1 < n" "k + 1 < n \<or> i = 0" using i by (auto simp: k_def)
  define l where "l = (if i = 0 then r else b ! (2 * i - 2))"
  have left: "?p ! k = b ! k - (l + b ! (2 * i)) div 2"
    unfolding predict_step_nth[OF assms(2)] using k i
    by (auto simp: predict_at_def Let_def l_def r_def k_def add.commute numeral_2_eq_2)
  have "row_forward n b ! i = b ! (2 * i) +
      ((b ! k - (l + b ! (2 * i)) div 2) + (b ! (2 * i + 1) - (b ! (2 * i) + r) div 2) + 2) div 4"
    unfolding row_forward_low[OF assms(1-3)] update_at_def Let_def using i left right
    by (simp add: k_def split: if_splits)
  moreover have "\<bar>r\<bar> \<le> m" "\<bar>l\<bar> \<le> m" "\<bar>b ! k\<bar> \<le> m" "\<bar>b ! (2 * i)\<bar> \<le> m" "\<bar>b ! (2 * i + 1)\<bar> \<le> m"
    using assms(4) i k by (auto simp: r_def l_def)
  ultimately show ?thesis using low_pass_bound[of "b ! (2 * i)" m l "b ! k" "b ! (2 * i + 1)" r]
    by (simp only:)
qed

lemma row_forward_bound:
  assumes "even n" "n \<le> length b" "i < n" "\<And>j. j < n \<Longrightarrow> \<bar>b ! j\<bar> \<le> m"
  shows "\<bar>row_forward n b ! i\<bar> \<le> 2 * m"
proof (cases "i < n div 2")
  case True
  have "0 \<le> m" using assms(3,4) by fastforce
  then show ?thesis using row_forward_low_bound[OF assms(1,2) True assms(4)]
    by (simp add: low_bound_def)
next
  case False
  then have "i - n div 2 < n div 2" "n div 2 + (i - n div 2) = i" using assms(1,3) by (auto elim!: evenE)
  then show ?thesis using row_forward_high_bound[OF assms(1,2) _ assms(4), of "i - n div 2"] by simp
qed

text \<open>One level: the next low-low square grows by the low bound twice, everything by at most 4.\<close>

lemma level_forward_bound:
  assumes "even sz" "sz \<le> 32" "wf_work w" "\<And>y x. y < sz \<Longrightarrow> x < sz \<Longrightarrow> \<bar>w ! y ! x\<bar> \<le> m"
  defines "v \<equiv> level_forward sz w"
  shows "y < sz div 2 \<Longrightarrow> x < sz div 2 \<Longrightarrow> \<bar>v ! y ! x\<bar> \<le> low_bound (low_bound m)"
    and "y < sz \<Longrightarrow> x < sz \<Longrightarrow> \<bar>v ! y ! x\<bar> \<le> 4 * m"
    and "y < 32 \<Longrightarrow> x < 32 \<Longrightarrow> \<not> (y < sz \<and> x < sz) \<Longrightarrow> v ! y ! x = w ! y ! x"
proof -
  let ?r = "row_pass (row_forward sz) sz w"
  have lt: "line_transform (row_forward sz) (row_inverse sz) sz" by (rule line_transform_lifting[OF assms(1,2)])
  have r: "wf_work ?r" by (rule line_transform.wf_row_pass[OF lt assms(3)])
  have len: "length (w ! y) = 32" if "y < 32" for y using assms(3) that by (simp add: wf_work_def)
  have row: "?r ! y = (if y < sz then row_forward sz (w ! y) else w ! y)" if "y < 32" for y
    using assms(2,3) that by (simp add: row_pass_nth wf_work_def)
  have col: "get_column sz x ?r ! y = ?r ! y ! x" if "y < sz" for x y
    using that assms(2) by (simp add: get_column_def)
  have cl: "sz \<le> length (get_column sz x ?r)" for x using assms(2) by (simp add: get_column_def)
  have wl: "sz \<le> length (w ! y)" if "y < sz" for y using that len[of y] assms(2) by simp
  have rhi: "\<bar>?r ! y ! x\<bar> \<le> 2 * m" if "y < sz" "x < sz" for y x
    using row_forward_bound[OF assms(1) wl[OF that(1)] that(2) assms(4)[OF that(1)]] row[of y] that assms(2)
    by simp
  have rlo: "\<bar>?r ! y ! x\<bar> \<le> low_bound m" if "y < sz" "x < sz div 2" for y x
    using row_forward_low_bound[OF assms(1) wl[OF that(1)] that(2) assms(4)[OF that(1)]] row[of y] that assms(2)
    by simp
  have cell: "v ! y ! x = (if y < sz \<and> x < sz then row_forward sz (get_column sz x ?r) ! y else ?r ! y ! x)"
    if "y < 32" "x < 32" for y x
    unfolding v_def level_forward_def by (rule col_pass_cell[OF r assms(2) that])
  show "\<bar>v ! y ! x\<bar> \<le> low_bound (low_bound m)" if "y < sz div 2" "x < sz div 2"
  proof -
    have yx: "y < sz" "x < sz" "y < 32" "x < 32" using that assms(2) by simp_all
    have "\<bar>get_column sz x ?r ! j\<bar> \<le> low_bound m" if "j < sz" for j
      unfolding col[OF that] by (rule rlo[OF that \<open>x < sz div 2\<close>])
    from row_forward_low_bound[OF assms(1) cl that(1) this] show ?thesis
      using cell[OF yx(3,4)] yx(1,2) by simp
  qed
  show "\<bar>v ! y ! x\<bar> \<le> 4 * m" if "y < sz" "x < sz"
  proof -
    have yx: "y < 32" "x < 32" using that assms(2) by simp_all
    have "\<bar>get_column sz x ?r ! j\<bar> \<le> 2 * m" if "j < sz" for j
      unfolding col[OF that] by (rule rhi[OF that \<open>x < sz\<close>])
    from row_forward_bound[OF assms(1) cl that(1) this] show ?thesis
      using cell[OF yx] that by simp
  qed
  show "v ! y ! x = w ! y ! x" if "y < 32" "x < 32" "\<not> (y < sz \<and> x < sz)"
  proof -
    have "x < length (w ! y)" using len[OF that(1)] that(2) by simp
    then show ?thesis
      using cell[OF that(1,2)] that(3) row[OF that(1)] row_forward_tail[OF assms(1) wl, of y x]
      by (cases "y < sz") auto
  qed
qed

text \<open>The bounds of one level at the three sizes.\<close>

definition cells_le :: "nat \<Rightarrow> int \<Rightarrow> work \<Rightarrow> bool" where
  "cells_le sz m w \<longleftrightarrow> (\<forall>y < sz. \<forall>x < sz. \<bar>w ! y ! x\<bar> \<le> m)"

lemma cells_le_mono: "cells_le sz m w \<Longrightarrow> m \<le> m' \<Longrightarrow> cells_le sz m' w"
  by (fastforce simp: cells_le_def)

lemma level_bounds:
  assumes "even sz" "sz \<le> 32" "wf_work w" "cells_le sz m w" "cells_le 32 (4 * m) w"
  shows "cells_le (sz div 2) (low_bound (low_bound m)) (level_forward sz w)"
    and "cells_le 32 (4 * m) (level_forward sz w)"
proof -
  have m: "\<And>y x. y < sz \<Longrightarrow> x < sz \<Longrightarrow> \<bar>w ! y ! x\<bar> \<le> m" using assms(4) by (simp add: cells_le_def)
  show "cells_le (sz div 2) (low_bound (low_bound m)) (level_forward sz w)"
    unfolding cells_le_def using level_forward_bound(1)[of sz w m] assms(1-3) m by blast
  show "cells_le 32 (4 * m) (level_forward sz w)"
    unfolding cells_le_def
  proof (intro allI impI)
    fix y x :: nat assume yx: "y < 32" "x < 32"
    show "\<bar>level_forward sz w ! y ! x\<bar> \<le> 4 * m"
    proof (cases "y < sz \<and> x < sz")
      case True then show ?thesis using level_forward_bound(2)[of sz w m y x] assms(1-3) m by blast
    next
      case False
      have "level_forward sz w ! y ! x = w ! y ! x"
        using level_forward_bound(3)[of sz w m y x] assms(1-3) m yx False by blast
      then show ?thesis using assms(5) yx by (simp add: cells_le_def)
    qed
  qed
qed

lemma low_bound_values: "low_bound (low_bound 255) = 575" "low_bound (low_bound 575) = 1295"
  by (simp_all add: low_bound_def)

lemma forward_channel_bound:
  assumes "wf_work w" "cells_le 32 255 w"
  shows "cells_le 32 5180 (decompose 3 w)"
proof -
  let ?w1 = "level_forward 32 w" and ?w2 = "level_forward 16 (level_forward 32 w)"
  have wf: "wf_work ?w1" "wf_work ?w2" using assms(1) by (simp_all add: wf_level_forward)
  have "cells_le 16 575 ?w1" "cells_le 32 (4 * 575) ?w1"
    using level_bounds[of 32 w 255] assms cells_le_mono[of 32 255 w "4 * 255"]
      cells_le_mono[of 32 "4 * 255" ?w1 "4 * 575"] by (simp_all add: low_bound_values)
  then have "cells_le 8 1295 ?w2" "cells_le 32 (4 * 1295) ?w2"
    using level_bounds[of 16 ?w1 575] wf(1) cells_le_mono[of 32 "4 * 575" ?w2 "4 * 1295"]
    by (simp_all add: low_bound_values)
  then show ?thesis using level_bounds(2)[of 8 ?w2 1295] wf(2) by (simp add: decompose_3)
qed

subsection \<open>A tile through the transform and back\<close>

lemma uint_byte: "uint (b :: u8) \<le> 255"
  using unsigned_less[of b, where 'a = int] by simp

lemma wf_load_channel: "wf_work (load_channel t ch)"
  by (simp add: wf_work_def load_channel_def)

lemma load_channel_cell:
  "y < 32 \<Longrightarrow> x < 32 \<Longrightarrow> load_channel t ch ! y ! x = uint (t ! ((y * 32 + x) * 4 + ch))"
  by (simp add: load_channel_def)

lemma wf_decompose: "wf_work w \<Longrightarrow> wf_work (decompose 3 w)"
  by (simp add: decompose_3 wf_level_forward)

lemma channel_coeff_bound: "c \<in> set (pack_channel subband_order (decompose 3 (load_channel t ch))) \<Longrightarrow> \<bar>c\<bar> \<le> 5180"
  and recompose_unpack_pack:
    "recompose (unpack_channel (pack_channel subband_order (decompose 3 (load_channel t ch)))) = load_channel t ch"
proof -
  let ?w = "decompose 3 (load_channel t ch)"
  have px: "cells_le 32 255 (load_channel t ch)"
    unfolding cells_le_def using uint_byte by (simp add: load_channel_cell)
  have b: "\<bar>?w ! y ! x\<bar> \<le> 5180" if "y < 32" "x < 32" for y x
    using forward_channel_bound[OF wf_load_channel px] that by (simp add: cells_le_def)
  have i16: "as_i16 (?w ! y ! x) = ?w ! y ! x" if "y < 32" "x < 32" for y x
    using b[OF that] by (intro as_i16_id) linarith+
  show "c \<in> set (pack_channel subband_order ?w) \<Longrightarrow> \<bar>c\<bar> \<le> 5180"
    using b i16 by (auto simp: pack_channel_def set_subband_order)
  show "recompose (unpack_channel (pack_channel subband_order ?w)) = load_channel t ch"
    using unpack_pack[OF wf_decompose[OF wf_load_channel] i16]
    by (simp add: recompose_decompose wf_load_channel)
qed

lemma length_pack_channel [simp]: "length (pack_channel order w) = length order"
  by (simp add: pack_channel_def)

lemma bslice_concat3:
  assumes "length a = 1024" "length b = 1024" "length c = 1024"
  shows "bslice 0 1024 (a @ b @ c) = a" "bslice 1024 2048 (a @ b @ c) = b" "bslice 2048 3072 (a @ b @ c) = c"
  using assms by (simp_all add: bslice_def)

lemma clamp_u8_uint: "clamp_u8 (uint b) = b"
  using uint_byte[of b] by (simp add: clamp_u8_def)

definition tile_bgr :: "bytes \<Rightarrow> bytes" where
  "tile_bgr tile_bgra = map (\<lambda>i. tile_bgra ! (i div 3 * 4 + i mod 3)) [0..<3072]"

lemma upt_0_3: "[0..<3] = [0, 1, 2 :: nat]"
  by (simp add: upt_rec numeral_eq_Suc)

lemma inverse_forward:
  assumes "forward t = Some cs"
  shows "inverse cs = Some (tile_bgr t)"
proof -
  let ?c = "\<lambda>ch. pack_channel subband_order (decompose 3 (load_channel t ch))"
  have cs: "cs = ?c 0 @ ?c 1 @ ?c 2"
    using assms by (simp add: forward_def upt_0_3 split: if_splits)
  have sl: "bslice 0 1024 cs = ?c 0" "bslice 1024 2048 cs = ?c 1" "bslice 2048 3072 cs = ?c 2"
    unfolding cs by (rule bslice_concat3; simp)+
  have len: "length cs = 3072" by (simp add: cs)
  have works: "map (\<lambda>ch. recompose (unpack_channel (bslice (ch * 1024) (ch * 1024 + 1024) cs))) [0..<3] =
      map (load_channel t) [0..<3]"
    using sl recompose_unpack_pack[of t] by (simp add: upt_0_3)
  have cell: "clamp_u8 (map (load_channel t) [0..<3] ! (i mod 3) ! (i div 3 div 32) ! (i div 3 mod 32)) =
      t ! (i div 3 * 4 + i mod 3)" if "i < 3072" for i
  proof -
    have "i div 3 div 32 < 32" "i mod 3 < 3" using that by auto
    moreover have "i div 3 div 32 * 32 + i div 3 mod 32 = i div 3" by simp
    ultimately show ?thesis by (simp add: load_channel_cell clamp_u8_uint)
  qed
  have n: "32 * 32 * 3 = (3072 :: nat)" by simp
  show ?thesis unfolding inverse_def tile_bgr_def n using len works cell
    by (simp add: Let_def del: upt_rec_numeral)
qed

end
