(* ===== verification/Cdf53_Passes.thy ===== *)
theory Cdf53_Passes
  imports Cdf53
begin

text \<open>
  Progressive passes of \<^verbatim>\<open>codec/cdf53.rs\<close>: the sign plane and thirteen magnitude bit planes of
  the coefficients, their byte run-length coding, the dense and the sparse pass encoders, and the
  decoders that put any prefix of the passes back together.  Magnitudes (\<^verbatim>\<open>u32\<close>) are natural
  numbers: they have 14 bits at most.
\<close>

section \<open>Bit planes\<close>

definition coeff_bit :: "nat \<Rightarrow> int \<Rightarrow> bool" where
  "coeff_bit pass_idx coeff =
     (if pass_idx = 0 then coeff < 0 else bit (nat \<bar>coeff\<bar>) (13 - pass_idx))"

definition set_plane_bit :: "nat \<Rightarrow> bytes \<Rightarrow> bytes" where
  "set_plane_bit i out = out[i div 8 := out ! (i div 8) OR push_bit (i mod 8) 1]"

definition extract_bit_plane :: "int list \<Rightarrow> nat \<Rightarrow> bytes" where
  "extract_bit_plane channel pass_idx =
     foldl (\<lambda>out (i, coeff). if coeff_bit pass_idx coeff then set_plane_bit i out else out)
       (replicate BIT_PLANE_BYTES_PER_CHANNEL 0) (List.enumerate 0 channel)"

definition plane_bit :: "bytes \<Rightarrow> nat \<Rightarrow> bool" where
  "plane_bit plane i = bit (plane ! (i div 8)) (i mod 8)"

lemma length_set_plane_bit [simp]: "length (set_plane_bit i out) = length out"
  by (simp add: set_plane_bit_def)

lemma plane_bit_set:
  assumes "j < 8 * length out"
  shows "plane_bit (set_plane_bit j out) i \<longleftrightarrow> plane_bit out i \<or> i = j"
proof -
  have j: "j div 8 < length out" using assms by auto
  have "bit (push_bit (j mod 8) 1 :: u8) (i mod 8) \<longleftrightarrow> i mod 8 = j mod 8"
    by (auto simp: bit_simps)
  moreover have "i = j \<longleftrightarrow> i div 8 = j div 8 \<and> i mod 8 = j mod 8" by (metis div_mult_mod_eq)
  ultimately show ?thesis using j
    by (cases "i div 8 = j div 8") (auto simp: plane_bit_def set_plane_bit_def bit_or_iff)
qed

lemma foldl_plane_bits:
  fixes p :: nat
  assumes "\<And>i c. (i, c) \<in> set ics \<Longrightarrow> i < 8 * length out"
  defines "v \<equiv> foldl (\<lambda>out (i, c). if coeff_bit p c then set_plane_bit i out else out) out ics"
  shows "length v = length out \<and> (\<forall>i. plane_bit v i \<longleftrightarrow> plane_bit out i \<or> (\<exists>c. (i, c) \<in> set ics \<and> coeff_bit p c))"
  using assms(1) unfolding v_def
proof (induction ics arbitrary: out)
  case (Cons ic ics)
  obtain i c where ic: "ic = (i, c)" by (cases ic)
  let ?out = "if coeff_bit p c then set_plane_bit i out else out"
  have b: "\<And>i' c'. (i', c') \<in> set ics \<Longrightarrow> i' < 8 * length ?out" using Cons.prems by auto
  have "i < 8 * length out" using Cons.prems ic by auto
  then show ?case using Cons.IH[OF b] ic by (auto simp: plane_bit_set)
qed simp

lemma length_extract_bit_plane:
  assumes "length channel = 1024"
  shows "length (extract_bit_plane channel p) = 128"
  using foldl_plane_bits[of "List.enumerate 0 channel" "replicate 128 0" p] assms
  by (auto simp: extract_bit_plane_def in_set_enumerate_eq)

lemma plane_bit_extract:
  assumes "length channel = 1024" "i < 1024"
  shows "plane_bit (extract_bit_plane channel p) i \<longleftrightarrow> coeff_bit p (channel ! i)"
proof -
  have "\<not> plane_bit (replicate 128 0) i" using assms(2) by (simp add: plane_bit_def)
  then show ?thesis
    using foldl_plane_bits[of "List.enumerate 0 channel" "replicate 128 0" p] assms
    by (auto simp: extract_bit_plane_def in_set_enumerate_eq)
qed

section \<open>Byte run-length coding\<close>

definition is_zero_run :: "u8 \<Rightarrow> bool" where "is_zero_run token \<longleftrightarrow> token AND 0x80 \<noteq> 0"
definition zero_run_len :: "u8 \<Rightarrow> nat" where "zero_run_len token = unat (token AND 0x7F) + 1"

text \<open>The inner loop: zeros from the front, at most 128.\<close>

definition zero_run :: "bytes \<Rightarrow> nat" where
  "zero_run data = length (takeWhile (\<lambda>b. b = 0) (take 128 data))"

definition zero_token :: "nat \<Rightarrow> u8" where
  "zero_token run_len = 0x80 OR of_nat (run_len - 1)"

function rle_encode :: "bytes \<Rightarrow> bytes" where
  "rle_encode [] = []"
| "rle_encode (d # data) =
     (if d = 0 then
        let run_len = zero_run (d # data)
        in zero_token run_len # rle_encode (drop run_len (d # data))
      else if d < 0x7F then d # rle_encode data
      else 0x7F # d # rle_encode data)"
  by pat_completeness auto
termination by (relation "measure length") (auto simp: zero_run_def)

fun rle_decode :: "bytes \<Rightarrow> bytes" where
  "rle_decode [] = []"
| "rle_decode (token # rle) =
     (if token = 0x7F then (case rle of [] \<Rightarrow> [] | b # rle' \<Rightarrow> b # rle_decode rle')
      else if is_zero_run token then replicate (zero_run_len token) 0 @ rle_decode rle
      else token # rle_decode rle)"

text \<open>\<^verbatim>\<open>out[n..end].fill(0)\<close>\<close>

definition fill_zero :: "nat \<Rightarrow> nat \<Rightarrow> bytes \<Rightarrow> bytes" where
  "fill_zero n e out = take n out @ replicate (e - n) 0 @ drop e out"

fun rle_decode_into_loop :: "bytes \<Rightarrow> nat \<Rightarrow> bytes \<Rightarrow> nat \<times> bytes" where
  "rle_decode_into_loop [] n out = (n, out)"
| "rle_decode_into_loop (token # rle) n out =
     (if token = 0x7F then
        (case rle of
           [] \<Rightarrow> (n, out)
         | b # rle' \<Rightarrow>
             let out = (if n < 128 then out[n := b] else out)
             in if n + 1 > 128 then (129, out) else rle_decode_into_loop rle' (n + 1) out)
      else if is_zero_run token then
        let run = zero_run_len token;
            e = min (n + run) 128;
            out = (if n < e then fill_zero n e out else out)
        in if n + run > 128 then (129, out) else rle_decode_into_loop rle (n + run) out
      else
        let out = (if n < 128 then out[n := token] else out)
        in if n + 1 > 128 then (129, out) else rle_decode_into_loop rle (n + 1) out)"

definition rle_decode_into :: "bytes \<Rightarrow> bytes \<Rightarrow> nat \<times> bytes" where
  "rle_decode_into rle out = rle_decode_into_loop rle 0 out"

function rle_len_loop :: "bytes \<Rightarrow> nat \<Rightarrow> nat \<Rightarrow> nat \<times> nat" where
  "rle_len_loop rle n i =
     (if i < length rle then
        let t = unat (rle ! i)
        in rle_len_loop rle (n + (1 + drop_bit 7 t * (t AND 0x7F))) (i + (1 + (if t = 0x7F then 1 else 0)))
      else (n, i))"
  by pat_completeness auto
termination by (relation "measure (\<lambda>(rle, n, i). length rle - i)") (auto simp: Let_def)

declare rle_len_loop.simps [simp del]

definition rle_expanded_len :: "bytes \<Rightarrow> nat" where
  "rle_expanded_len rle =
     (let (n, i) = rle_len_loop rle 0 0;
          n = (if i > length rle then n - 1 else n)
      in min n 129)"

subsection \<open>Tokens\<close>

lemma zero_run_token: "is_zero_run t \<longleftrightarrow> 128 \<le> unat t" "zero_run_len t = unat t mod 128 + 1"
proof -
  have m: "(0x7F :: u8) = mask 7" by (simp add: mask_eq_exp_minus_1)
  show "zero_run_len t = unat t mod 128 + 1"
    unfolding zero_run_len_def m by (simp add: take_bit_eq_mask[symmetric] take_bit_eq_mod unat_mod)
  have b: "(t AND 0x80 \<noteq> 0) = bit t 7"
    using and_exp_eq_0_iff_not_bit[of t 7] by simp
  have "bit t 7 \<longleftrightarrow> bit (unat t) 7" by (simp add: bit_unsigned_iff)
  also have "\<dots> \<longleftrightarrow> 128 \<le> unat t"
  proof (cases "128 \<le> unat t")
    case True
    then have "unat t div 128 = 1" using unsigned_less[of t, where 'a = nat] by (intro div_nat_eqI) simp_all
    then show ?thesis using True by (simp add: bit_iff_odd)
  qed (simp add: bit_iff_odd)
  finally show "is_zero_run t \<longleftrightarrow> 128 \<le> unat t" unfolding is_zero_run_def b .
qed

lemma zero_token_facts:
  assumes "0 < n" "n \<le> 128"
  shows "unat (zero_token n) = 128 + (n - 1)" "is_zero_run (zero_token n)"
    "zero_run_len (zero_token n) = n" "zero_token n \<noteq> 0x7F"
proof -
  define k where "k = n - 1"
  have k: "k < 128" "n = k + 1" using assms by (auto simp: k_def)
  have "(0x80 :: u8) AND of_nat k = 0"
  proof -
    have "bit (of_nat k :: u8) 7 \<longleftrightarrow> bit (unat (of_nat k :: u8)) 7" by (simp add: bit_unsigned_iff)
    then have "\<not> bit (of_nat k :: u8) 7" using k by (simp add: bit_iff_odd unat_of_nat)
    then show ?thesis using and_exp_eq_0_iff_not_bit[of "of_nat k :: u8" 7] by (simp add: and.commute)
  qed
  then have "zero_token n = 0x80 + of_nat k"
    unfolding zero_token_def k_def[symmetric] by (simp add: disjunctive_add_eq_or)
  then show u: "unat (zero_token n) = 128 + (n - 1)" using k by (simp add: unat_word_ariths unat_of_nat)
  then show "is_zero_run (zero_token n)" by (simp add: zero_run_token)
  show "zero_run_len (zero_token n) = n" unfolding zero_run_token u using k by simp
  have "unat (zero_token n) \<noteq> unat (0x7F :: u8)" unfolding u by simp
  then show "zero_token n \<noteq> 0x7F" by metis
qed

lemma literal_token: "\<not> is_zero_run t \<longleftrightarrow> unat t < 128"
  by (simp only: zero_run_token not_le)

lemma escape_literal [simp]: "\<not> is_zero_run 0x7F"
  by (simp add: zero_run_token)

lemma zero_run_props:
  "0 < zero_run (0 # data)" "zero_run data \<le> 128" "zero_run data \<le> length data"
  "take (zero_run data) data = replicate (zero_run data) 0"
proof -
  show "0 < zero_run (0 # data)" by (simp add: zero_run_def)
  show "zero_run data \<le> 128" "zero_run data \<le> length data"
    using length_takeWhile_le[of "\<lambda>b. b = 0" "take 128 data"] by (simp_all add: zero_run_def)
  let ?tw = "takeWhile (\<lambda>b. b = 0) (take 128 data)"
  have "take (length ?tw) data = ?tw"
    using takeWhile_eq_take[of "\<lambda>b. b = 0" "take 128 data"] length_takeWhile_le[of "\<lambda>b. b = 0" "take 128 data"]
    by (simp add: min.absorb1)
  moreover have "?tw = replicate (length ?tw) 0"
    by (rule replicate_length_same[symmetric]) (auto dest: set_takeWhileD)
  ultimately show "take (zero_run data) data = replicate (zero_run data) 0"
    unfolding zero_run_def by simp
qed

theorem rle_roundtrip: "rle_decode (rle_encode data) = data"
proof (induction data rule: rle_encode.induct)
  case (2 d data)
  consider "d = 0" | "d \<noteq> 0" "d < 0x7F" | "d \<noteq> 0" "\<not> d < 0x7F" by blast
  then show ?case
  proof cases
    case 1
    let ?n = "zero_run (d # data)"
    have "0 < ?n" "?n \<le> 128" using 1 zero_run_props by auto
    then have "rle_decode (rle_encode (d # data)) = replicate ?n 0 @ drop ?n (d # data)"
      using 1 2(1)[OF 1 refl] by (simp add: Let_def zero_token_facts)
    also have "\<dots> = d # data" using zero_run_props(4)[of "d # data"] by (metis append_take_drop_id)
    finally show ?thesis .
  next
    case 2
    then have "\<not> is_zero_run d" "d \<noteq> 0x7F" by (auto simp: zero_run_token word_less_nat_alt)
    then show ?thesis using 2 "2.IH"(2) by simp
  next
    case 3
    then show ?thesis using "2.IH"(3) by simp
  qed
qed simp

lemma length_rle_encode: "length (rle_encode data) \<le> 2 * length data"
proof (induction data rule: rle_encode.induct)
  case (2 d data)
  have "0 < zero_run (d # data) \<and> zero_run (d # data) \<le> length (d # data)" if "d = 0"
    using that zero_run_props(1)[of data] zero_run_props(3)[of "d # data"] by simp
  then show ?case using 2 by (auto simp: Let_def)
qed simp

subsection \<open>Decoding in place\<close>

text \<open>What \<open>rle_decode_into\<close> owes \<open>rle_decode\<close>, from position \<open>n\<close> on.\<close>

definition into_spec :: "nat \<Rightarrow> bytes \<Rightarrow> bytes \<Rightarrow> nat \<times> bytes" where
  "into_spec n d out = (min 129 (n + length d), take n out @ take (128 - n) d @ drop (n + length d) out)"

lemma into_spec_Nil: "n \<le> 128 \<Longrightarrow> into_spec n [] out = (n, out)"
  by (simp add: into_spec_def)

lemma into_spec_append:
  assumes "length out = 128" "n + length bs \<le> 128"
  shows "into_spec (n + length bs) d (take n out @ bs @ drop (n + length bs) out) = into_spec n (bs @ d) out"
  using assms by (simp add: into_spec_def ac_simps)

lemma into_spec_over:
  assumes "length out = 128" "n \<le> 128" "n + length bs > 128"
  shows "into_spec n (bs @ d) out = (129, take n out @ take (128 - n) bs)"
  using assms by (simp add: into_spec_def)

lemma write_one:
  "length out = 128 \<Longrightarrow> n < 128 \<Longrightarrow> out[n := b] = take n out @ [b] @ drop (n + length [b]) out"
  by (simp add: upd_conv_take_nth_drop)

lemma rle_decode_into_loop_spec:
  "length out = 128 \<Longrightarrow> n \<le> 128 \<Longrightarrow> rle_decode_into_loop rle n out = into_spec n (rle_decode rle) out"
proof (induction rle n out rule: rle_decode_into_loop.induct)
  case (1 n out)
  then show ?case by (simp add: into_spec_Nil)
next
  case (2 token rle n out)
  have literal: "(let out = (if n < 128 then out[n := b] else out)
      in if n + 1 > 128 then (129, out) else into_spec (n + 1) d out) = into_spec n (b # d) out" for b d
    using 2(4,5) into_spec_append[of out n "[b]" d] into_spec_over[of out n "[b]" d] write_one[of out n b]
    by (cases "n < 128") auto
  have len: "length (if n < 128 then out[n := b] else out) = 128" for b using 2(4) by simp
  consider (esc_end) "token = 0x7F" "rle = []" | (esc) b rle' where "token = 0x7F" "rle = b # rle'"
    | (run) "token \<noteq> 0x7F" "is_zero_run token" | (lit) "token \<noteq> 0x7F" "\<not> is_zero_run token"
    by (cases rle) auto
  then show ?case
  proof cases
    case esc_end
    then show ?thesis using 2(5) by (simp add: into_spec_Nil)
  next
    case esc
    have "rle_decode_into_loop (token # rle) n out =
       (let out = (if n < 128 then out[n := b] else out)
        in if n + 1 > 128 then (129, out) else into_spec (n + 1) (rle_decode rle') out)"
      using esc 2(1)[OF esc(1,2) refl _ len] by (auto simp: Let_def)
    then show ?thesis unfolding literal using esc by simp
  next
    case run
    let ?r = "zero_run_len token"
    let ?out = "take n out @ replicate (min (n + ?r) 128 - n) 0 @ drop (min (n + ?r) 128) out"
    have e: "n < min (n + ?r) 128 \<Longrightarrow> fill_zero n (min (n + ?r) 128) out = ?out"
      "\<not> n < min (n + ?r) 128 \<Longrightarrow> n = 128" "?out = out \<or> n < min (n + ?r) 128"
      using 2(4,5) by (auto simp: fill_zero_def zero_run_len_def)
    have o: "(if n < min (n + ?r) 128 then fill_zero n (min (n + ?r) 128) out else out) = ?out"
      using e by auto
    have step: "rle_decode_into_loop (token # rle) n out =
       (if n + ?r > 128 then (129, ?out) else rle_decode_into_loop rle (n + ?r) ?out)"
      unfolding rle_decode_into_loop.simps Let_def if_not_P[OF run(1)] if_P[OF run(2)] o ..
    show ?thesis
    proof (cases "n + ?r > 128")
      case True
      then show ?thesis using step run 2(4,5) into_spec_over[of out n "replicate ?r 0"] by simp
    next
      case False
      then have m: "min (n + ?r) 128 = n + ?r" by simp
      have "rle_decode_into_loop rle (n + ?r) ?out = into_spec (n + ?r) (rle_decode rle) ?out"
        using 2(2)[OF run refl refl o[symmetric] False] 2(4) False by simp
      then show ?thesis using False step run 2(4) into_spec_append[of out n "replicate ?r 0"] unfolding m by simp
    qed
  next
    case lit
    have "rle_decode_into_loop (token # rle) n out =
       (let out = (if n < 128 then out[n := token] else out)
        in if n + 1 > 128 then (129, out) else into_spec (n + 1) (rle_decode rle) out)"
      using lit 2(3)[OF lit refl _ len] by (auto simp: Let_def)
    then show ?thesis unfolding literal using lit by simp
  qed
qed

lemma rle_decode_into_spec:
  "length out = 128 \<Longrightarrow> rle_decode_into rle out = into_spec 0 (rle_decode rle) out"
  by (simp add: rle_decode_into_def rle_decode_into_loop_spec)

subsection \<open>The length without the bytes\<close>

lemma token_len:
  "1 + drop_bit 7 (unat t) * (unat t AND 0x7F) = (if is_zero_run t then zero_run_len t else 1)"
proof -
  have m: "(0x7F :: nat) = mask 7" by (simp add: mask_eq_exp_minus_1)
  have "unat t div 128 = 1" if "128 \<le> unat t"
    using that unsigned_less[of t, where 'a = nat] by (intro div_nat_eqI) simp_all
  then show ?thesis unfolding m zero_run_token take_bit_eq_mask[symmetric]
    by (cases "128 \<le> unat t") (simp_all add: drop_bit_eq_div take_bit_eq_mod)
qed

lemma rle_len_loop_stop: "\<not> i < length rle \<Longrightarrow> rle_len_loop rle n i = (n, i)"
  by (simp add: rle_len_loop.simps[of rle n i])

lemma rle_len_loop_go:
  assumes "i < length rle"
  shows "rle_len_loop rle n i = rle_len_loop rle
     (n + (if is_zero_run (rle ! i) then zero_run_len (rle ! i) else 1)) (i + (if rle ! i = 0x7F then 2 else 1))"
proof -
  have "unat (rle ! i) = unat (0x7F :: u8) \<longleftrightarrow> rle ! i = 0x7F" by (rule word_unat_eq_iff[symmetric])
  then have "unat (rle ! i) = 0x7F \<longleftrightarrow> rle ! i = 0x7F" by simp
  then show ?thesis
    unfolding rle_len_loop.simps[of rle n i] Let_def if_P[OF assms] token_len by simp
qed

lemma rle_len_loop_spec:
  assumes "i \<le> length rle" "rle_len_loop rle n i = (n', i')"
  shows "n' = n + length (rle_decode (drop i rle)) + (if i' > length rle then 1 else 0)"
  using assms
proof (induction "length rle - i" arbitrary: n i rule: less_induct)
  case less
  show ?case
  proof (cases "i < length rle")
    case False
    then show ?thesis using less.prems by (simp add: rle_len_loop_stop)
  next
    case True
    let ?t = "rle ! i"
    have d: "drop i rle = ?t # drop (i + 1) rle" using True by (simp add: Cons_nth_drop_Suc)
    note go = rle_len_loop_go[OF True, of n, unfolded less.prems(2)]
    consider (esc_end) "?t = 0x7F" "i + 1 = length rle" | (esc) "?t = 0x7F" "i + 1 < length rle"
      | (other) "?t \<noteq> 0x7F" using True by linarith
    then show ?thesis
    proof cases
      case esc_end
      then show ?thesis using go d by (simp add: rle_len_loop_stop)
    next
      case esc
      have "drop (i + 1) rle = rle ! (i + 1) # drop (i + 2) rle"
        using Cons_nth_drop_Suc[OF esc(2)] by simp
      moreover have "rle_len_loop rle (n + 1) (i + 2) = (n', i')" using go esc(1) by simp
      ultimately show ?thesis using less.hyps[of "i + 2" "n + 1"] esc d by simp
    next
      case other
      then show ?thesis using go less.hyps[of "i + 1"] True d by auto
    qed
  qed
qed

theorem rle_expanded_len_spec: "rle_expanded_len rle = min 129 (length (rle_decode rle))"
proof (cases "rle_len_loop rle 0 0")
  case (Pair n i)
  then show ?thesis using rle_len_loop_spec[of 0 rle 0 n i]
    by (auto simp: rle_expanded_len_def min.commute)
qed

section \<open>Passes\<close>

definition MAX_PASS_PAYLOAD :: nat where
  "MAX_PASS_PAYLOAD = 3 * (2 + 2 * (CDF53_COEFFS_PER_CHANNEL div 8)) + 2"

definition push_u16 :: "u16 \<Rightarrow> bytes" where
  "push_u16 x = [ucast (drop_bit 8 x), ucast x]"

definition encode_channel :: "bytes \<Rightarrow> bytes" where
  "encode_channel plane =
     (let rle = rle_encode plane; len = of_nat (length rle) in push_u16 len @ rle)"

definition channel_planes :: "int list \<Rightarrow> nat \<Rightarrow> bytes list" where
  "channel_planes coefficients pass_idx =
     map (\<lambda>ch. extract_bit_plane
            (bslice (ch * CDF53_COEFFS_PER_CHANNEL)
                    (ch * CDF53_COEFFS_PER_CHANNEL + CDF53_COEFFS_PER_CHANNEL) coefficients) pass_idx)
         [0..<CDF53_CHANNELS]"

definition pass_payload :: "u16 \<Rightarrow> nat \<Rightarrow> bytes list \<Rightarrow> bytes" where
  "pass_payload present_passes pass_idx planes =
     (if pass_idx = 0 then push_u16 present_passes else []) @ concat (map encode_channel planes)"

text \<open>\<open>None\<close> is the \<^verbatim>\<open>assert_eq!\<close> on the number of coefficients.\<close>

definition encode_passes :: "int list \<Rightarrow> bytes list option" where
  "encode_passes coefficients =
     (if length coefficients \<noteq> CDF53_TOTAL_COEFFS then None
      else Some (map (\<lambda>pass_idx. pass_payload (push_bit CDF53_PASS_COUNT 1 - 1) pass_idx
                         (channel_planes coefficients pass_idx))
                     [0..<CDF53_PASS_COUNT]))"

definition any_set :: "bytes list \<Rightarrow> bool" where
  "any_set planes \<longleftrightarrow> (\<exists>plane \<in> set planes. \<exists>b \<in> set plane. b \<noteq> 0)"

definition present_bitmap :: "int list \<Rightarrow> u16" where
  "present_bitmap coefficients =
     foldl (\<lambda>present p. if any_set (channel_planes coefficients p) then present OR push_bit p 1 else present)
       1 [0..<CDF53_PASS_COUNT]"

definition encode_passes_sparse :: "int list \<Rightarrow> (u16 \<times> (u8 \<times> bytes) list) option" where
  "encode_passes_sparse coefficients =
     (if length coefficients \<noteq> CDF53_TOTAL_COEFFS then None
      else
        let present_passes = present_bitmap coefficients in
        Some (present_passes,
              map (\<lambda>p. (of_nat p, pass_payload present_passes p (channel_planes coefficients p)))
                (filter (\<lambda>p. present_passes AND push_bit p 1 \<noteq> 0) [0..<CDF53_PASS_COUNT])))"

section \<open>Decoding passes\<close>

definition read_u16 :: "u8 \<Rightarrow> u8 \<Rightarrow> u16" where
  "read_u16 hi lo = push_bit 8 (ucast hi) OR ucast lo"

primrec decode_channels :: "nat \<Rightarrow> bytes \<Rightarrow> bytes option" where
  "decode_channels 0 payload = Some []"
| "decode_channels (Suc n) payload =
     (if length payload < 2 then None
      else
        let len = unat (read_u16 (payload ! 0) (payload ! 1)); rest = drop 2 payload in
        if length rest < len then None
        else map_option (\<lambda>plane. snd (rle_decode_into (take len rest)
                                       (replicate BIT_PLANE_BYTES_PER_CHANNEL 0)) @ plane)
               (decode_channels n (drop len rest)))"

definition decode_pass :: "nat \<Rightarrow> bytes \<Rightarrow> bytes option" where
  "decode_pass pass_idx payload =
     (if pass_idx = 0
      then if length payload < 2 then None else decode_channels CDF53_CHANNELS (drop 2 payload)
      else decode_channels CDF53_CHANNELS payload)"

definition plane_bit_at :: "bytes \<Rightarrow> nat \<Rightarrow> nat \<Rightarrow> bool" where
  "plane_bit_at plane ch i =
     (let off = ch * (CDF53_COEFFS_PER_CHANNEL div 8) + i div 8
      in bit (if off < length plane then plane ! off else 0) (i mod 8))"

definition plane_magnitude :: "bytes list \<Rightarrow> nat \<Rightarrow> nat \<Rightarrow> nat" where
  "plane_magnitude planes ch i =
     foldl (\<lambda>mag p. if plane_bit_at (planes ! p) ch i then mag OR push_bit (13 - p) 1 else mag)
       0 [1..<length planes]"

definition midpoint :: "nat \<Rightarrow> nat" where
  "midpoint k =
     (if 2 \<le> k \<and> k < CDF53_PASS_COUNT
      then let unknown_bits = CDF53_PASS_COUNT - k in push_bit (unknown_bits - 1) 1
      else 0)"

definition decode_coeff :: "bytes list \<Rightarrow> nat \<Rightarrow> nat \<Rightarrow> int" where
  "decode_coeff planes ch i =
     (let mag = plane_magnitude planes ch i;
          mid = midpoint (length planes);
          mag = (if mag \<noteq> 0 \<and> mid \<noteq> 0 then mag + mid else mag);
          mag = int (min mag 32767)
      in if planes \<noteq> [] \<and> plane_bit_at (planes ! 0) ch i then - mag else mag)"

text \<open>\<open>None\<close> is the \<^verbatim>\<open>assert!\<close> on the number of planes.\<close>

definition decode_planes :: "bytes list \<Rightarrow> int list option" where
  "decode_planes planes =
     (if length planes > CDF53_PASS_COUNT then None
      else Some (concat (map (\<lambda>ch. map (decode_coeff planes ch) [0..<CDF53_COEFFS_PER_CHANNEL])
                             [0..<CDF53_CHANNELS])))"

definition decode_passes :: "bytes list \<Rightarrow> int list option" where
  "decode_passes passes =
     (if length passes > CDF53_PASS_COUNT then None
      else case those (map (\<lambda>(pass_idx, payload). decode_pass pass_idx payload) (List.enumerate 0 passes)) of
             None \<Rightarrow> Some (replicate CDF53_TOTAL_COEFFS 0)
           | Some planes \<Rightarrow> decode_planes planes)"

subsection \<open>One pass through the wire\<close>

lemma read_push_u16: "read_u16 (ucast (drop_bit 8 x)) (ucast x) = x"
  unfolding read_u16_def by (rule bit_word_eqI) (auto simp: bit_simps)

lemma length_push_u16 [simp]: "length (push_u16 x) = 2"
  by (simp add: push_u16_def)

lemma length_encode_channel: "length plane = 128 \<Longrightarrow> length (encode_channel plane) \<le> 2 + 256"
  using length_rle_encode[of plane] by (simp add: encode_channel_def Let_def)

lemma decode_channels_encoded:
  assumes "length plane = 128"
  shows "decode_channels (Suc n) (encode_channel plane @ rest) =
    map_option ((@) plane) (decode_channels n rest)"
proof -
  let ?rle = "rle_encode plane"
  have "length ?rle \<le> 256" using length_rle_encode[of plane] assms by simp
  then have len: "unat (of_nat (length ?rle) :: u16) = length ?rle" by (simp add: unat_of_nat)
  have "snd (rle_decode_into ?rle (replicate 128 0)) = plane"
    using assms by (simp add: rle_decode_into_spec rle_roundtrip into_spec_def)
  then show ?thesis by (simp add: encode_channel_def Let_def push_u16_def read_push_u16 len)
qed

lemma decode_pass_payload:
  assumes "length planes = 3" "\<And>p. p \<in> set planes \<Longrightarrow> length p = 128"
  shows "decode_pass pass_idx (pass_payload present pass_idx planes) = Some (concat planes)"
proof -
  obtain a b c where planes: "planes = [a, b, c]"
    using assms(1) by (auto simp only: numeral_3_eq_3 length_Suc_conv length_0_conv)
  have "length a = 128" "length b = 128" and "length c = 128" using assms(2) planes by auto
  moreover have "decode_channels (Suc 0) (encode_channel c) = Some c"
    using decode_channels_encoded[OF \<open>length c = 128\<close>, of 0 "[]"] by (simp del: decode_channels.simps(2))
  ultimately have "decode_channels 3 (concat (map encode_channel planes)) = Some (concat planes)"
    unfolding planes numeral_3_eq_3 by (simp add: decode_channels_encoded del: decode_channels.simps(2))
  then show ?thesis by (simp add: decode_pass_def pass_payload_def)
qed

lemma length_pass_payload:
  assumes "length planes = 3" "\<And>p. p \<in> set planes \<Longrightarrow> length p = 128"
  shows "length (pass_payload present pass_idx planes) \<le> MAX_PASS_PAYLOAD"
proof -
  obtain a b c where planes: "planes = [a, b, c]"
    using assms(1) by (auto simp only: numeral_3_eq_3 length_Suc_conv length_0_conv)
  have "length (encode_channel p) \<le> 258" if "p \<in> set planes" for p
    using length_encode_channel[OF assms(2)[OF that]] by simp
  from this[of a] this[of b] this[of c] show ?thesis
    by (simp add: planes pass_payload_def MAX_PASS_PAYLOAD_def)
qed

lemma channel_planes_shape:
  assumes "length coeffs = 3072"
  shows "length (channel_planes coeffs p) = 3" "\<And>q. q \<in> set (channel_planes coeffs p) \<Longrightarrow> length q = 128"
proof -
  show "length (channel_planes coeffs p) = 3" by (simp add: channel_planes_def)
  fix q assume "q \<in> set (channel_planes coeffs p)"
  then obtain ch where ch: "ch < 3" "q = extract_bit_plane (bslice (ch * 1024) (ch * 1024 + 1024) coeffs) p"
    by (auto simp: channel_planes_def)
  then show "length q = 128" using assms
    by (auto intro!: length_extract_bit_plane simp: bslice_def)
qed

text \<open>The three planes of a pass, end to end as the decoder sees them.\<close>

definition pass_plane :: "int list \<Rightarrow> nat \<Rightarrow> bytes" where
  "pass_plane coeffs p = concat (channel_planes coeffs p)"

lemma plane_bit_at_pass_plane:
  assumes "length coeffs = 3072" "ch < 3" "i < 1024"
  shows "plane_bit_at (pass_plane coeffs p) ch i \<longleftrightarrow> coeff_bit p (coeffs ! (ch * 1024 + i))"
proof -
  let ?pl = "\<lambda>ch. extract_bit_plane (bslice (ch * 1024) (ch * 1024 + 1024) coeffs) p"
  have len: "length (?pl c) = 128" if "c < 3" for c
    using assms(1) that by (intro length_extract_bit_plane) (simp add: bslice_def)
  have pp: "pass_plane coeffs p = ?pl 0 @ ?pl 1 @ ?pl 2"
    by (simp add: pass_plane_def channel_planes_def upt_0_3)
  have i: "i div 8 < 128" using assms(3) by auto
  have "pass_plane coeffs p ! (ch * 128 + i div 8) = ?pl ch ! (i div 8)"
    and "ch * 128 + i div 8 < length (pass_plane coeffs p)"
    using i assms(2) len[of 0] len[of 1] len[of 2] unfolding pp
    by (auto simp: nth_append less_Suc_eq numeral_3_eq_3)
  then have "plane_bit_at (pass_plane coeffs p) ch i \<longleftrightarrow> plane_bit (?pl ch) i"
    by (simp add: plane_bit_at_def plane_bit_def Let_def)
  also have "\<dots> \<longleftrightarrow> coeff_bit p (bslice (ch * 1024) (ch * 1024 + 1024) coeffs ! i)"
    using assms by (intro plane_bit_extract) (simp_all add: bslice_def)
  finally show ?thesis using assms by (simp add: bslice_def)
qed

lemma decode_passes_prefix:
  assumes "encode_passes coeffs = Some passes" "k \<le> 14"
  shows "decode_passes (take k passes) = decode_planes (map (pass_plane coeffs) [0..<k])"
proof -
  have len: "length coeffs = 3072" and passes: "passes = map (\<lambda>p. pass_payload (push_bit 14 1 - 1) p
      (channel_planes coeffs p)) [0..<14]"
    using assms(1) by (auto simp: encode_passes_def split: if_splits)
  have tk: "take k passes = map (\<lambda>p. pass_payload (push_bit 14 1 - 1) p (channel_planes coeffs p)) [0..<k]"
    unfolding passes take_map using assms(2) by (simp add: take_upt)
  have "map (\<lambda>(i, p). decode_pass i p) (List.enumerate 0 (take k passes)) =
      map (\<lambda>p. Some (pass_plane coeffs p)) [0..<k]"
    unfolding tk by (rule nth_equalityI)
      (simp_all add: nth_enumerate_eq decode_pass_payload channel_planes_shape[OF len] pass_plane_def)
  moreover have "those (map (\<lambda>p. Some (f p)) ps) = Some (map f ps)" for f :: "nat \<Rightarrow> bytes" and ps
    by (induction ps) simp_all
  ultimately show ?thesis using assms(2) by (simp add: decode_passes_def tk)
qed

subsection \<open>What a prefix of the passes knows of a coefficient\<close>

lemma bit_foldl_or:
  "bit (foldl (\<lambda>m p. if P p then m OR push_bit (f p) 1 else m) m0 ps) j \<longleftrightarrow>
     bit (m0 :: nat) j \<or> (\<exists>p \<in> set ps. P p \<and> j = f p)"
  by (induction ps arbitrary: m0) (auto simp: bit_or_iff bit_exp_iff)

lemma bit_small_nat: "a < 2 ^ n \<Longrightarrow> bit (a :: nat) j \<Longrightarrow> j < n"
  by (metis bit_take_bit_iff take_bit_nat_eq_self)

lemma plane_magnitude_prefix:
  assumes "length coeffs = 3072" "ch < 3" "i < 1024" "1 \<le> k" "k \<le> 14"
  defines "a \<equiv> nat \<bar>coeffs ! (ch * 1024 + i)\<bar>"
  assumes "a < 8192"
  shows "plane_magnitude (map (pass_plane coeffs) [0..<k]) ch i = push_bit (14 - k) (drop_bit (14 - k) a)"
proof (rule bit_eqI)
  fix j
  have a: "bit a j \<Longrightarrow> j < 13" using bit_small_nat[of a 13 j] assms(7) by simp
  have "bit (plane_magnitude (map (pass_plane coeffs) [0..<k]) ch i) j \<longleftrightarrow>
      (\<exists>p \<in> {1..<k}. plane_bit_at (map (pass_plane coeffs) [0..<k] ! p) ch i \<and> j = 13 - p)"
    by (simp add: plane_magnitude_def bit_foldl_or)
  also have "\<dots> \<longleftrightarrow> (\<exists>p \<in> {1..<k}. bit a (13 - p) \<and> j = 13 - p)"
    using plane_bit_at_pass_plane[OF assms(1-3)] by (auto simp: coeff_bit_def a_def)
  also have "\<dots> \<longleftrightarrow> 14 - k \<le> j \<and> bit a j"
  proof
    assume "14 - k \<le> j \<and> bit a j"
    then show "\<exists>p \<in> {1..<k}. bit a (13 - p) \<and> j = 13 - p"
      using a assms(5) by (intro bexI[of _ "13 - j"]) auto
  qed auto
  finally show "bit (plane_magnitude (map (pass_plane coeffs) [0..<k]) ch i) j \<longleftrightarrow>
      bit (push_bit (14 - k) (drop_bit (14 - k) a)) j"
    by (auto simp: bit_push_bit_iff_nat bit_drop_bit_eq)
qed

text \<open>The kept bits of \<open>a\<close>, at the midpoint of what is unknown, are within the unknown range.\<close>

lemma midpoint_error:
  assumes "1 \<le> k" "k \<le> 14" "a < 8192"
  defines "m \<equiv> push_bit (14 - k) (drop_bit (14 - k) a)"
  defines "m' \<equiv> min (if m \<noteq> 0 \<and> midpoint k \<noteq> 0 then m + midpoint k else m) 32767"
  shows "\<bar>int m' - int a\<bar> < 2 ^ (14 - k)" and "m' \<le> 32767"
proof -
  let ?u = "14 - k"
  have m: "m + a mod 2 ^ ?u = a"
    unfolding m_def push_bit_eq_mult drop_bit_eq_div by (rule div_mult_mod_eq)
  have r: "a mod 2 ^ ?u < 2 ^ ?u" by simp
  show "m' \<le> 32767" by (simp add: m'_def)
  show "\<bar>int m' - int a\<bar> < 2 ^ ?u"
  proof (cases "m \<noteq> 0 \<and> midpoint k \<noteq> 0")
    case False
    then have "m' = m" using m assms(3) by (auto simp: m'_def)
    then have "int a - int m' = int (a mod 2 ^ ?u)" using m by linarith
    then show ?thesis using r by (metis abs_minus_commute abs_of_nat of_nat_less_iff of_nat_numeral of_nat_power)
  next
    case True
    then have k: "2 \<le> k" "k < 14" and mid: "midpoint k = 2 ^ (?u - 1)"
      by (auto simp: midpoint_def push_bit_of_1 Let_def split: if_splits)
    have half: "(2 :: nat) ^ ?u = 2 * 2 ^ (?u - 1)" using k by (metis Suc_diff_1 power_Suc zero_less_diff)
    have "?u - 1 \<le> 11" using k by simp
    then have "(2 :: nat) ^ (?u - 1) \<le> 2 ^ 11" by (rule power_increasing) simp
    then have "m' = m + 2 ^ (?u - 1)" using True mid m assms(3) by (simp add: m'_def)
    then have "int m' - int a = 2 ^ (?u - 1) - int (a mod 2 ^ ?u)" using m by simp
    moreover have "int (a mod 2 ^ ?u) < 2 * 2 ^ (?u - 1)" using r half by (metis of_nat_less_iff of_nat_mult of_nat_numeral of_nat_power)
    moreover have "(2 :: int) ^ ?u = 2 * 2 ^ (?u - 1)" using k by (metis Suc_diff_1 power_Suc zero_less_diff)
    moreover have "(0 :: int) < 2 ^ (?u - 1)" by simp
    ultimately show ?thesis by linarith
  qed
qed

lemma decode_coeff_error:
  assumes "length coeffs = 3072" "ch < 3" "i < 1024" "1 \<le> k" "k \<le> 14"
    and "\<bar>coeffs ! (ch * 1024 + i)\<bar> < 8192"
  shows "\<bar>decode_coeff (map (pass_plane coeffs) [0..<k]) ch i - coeffs ! (ch * 1024 + i)\<bar> < 2 ^ (14 - k)"
proof -
  let ?c = "coeffs ! (ch * 1024 + i)" and ?pl = "map (pass_plane coeffs) [0..<k]"
  have a: "nat \<bar>?c\<bar> < 8192" using assms(6) by simp
  have sign: "?pl \<noteq> [] \<and> plane_bit_at (?pl ! 0) ch i \<longleftrightarrow> ?c < 0"
    using plane_bit_at_pass_plane[OF assms(1-3), of 0] assms(4) by (simp add: coeff_bit_def)
  note mag = plane_magnitude_prefix[OF assms(1-5) a]
  define m' where "m' = min (if plane_magnitude ?pl ch i \<noteq> 0 \<and> midpoint k \<noteq> 0
      then plane_magnitude ?pl ch i + midpoint k else plane_magnitude ?pl ch i) 32767"
  have "\<bar>int m' - int (nat \<bar>?c\<bar>)\<bar> < 2 ^ (14 - k)"
    unfolding m'_def mag by (rule midpoint_error(1)[OF assms(4,5) a])
  moreover have "decode_coeff ?pl ch i = (if ?c < 0 then - int m' else int m')"
    unfolding decode_coeff_def Let_def sign m'_def by simp
  ultimately show ?thesis by (cases "?c < 0") auto
qed

subsection \<open>Whole tiles\<close>

lemma concat_channels_nth:
  assumes "j < 3072"
  shows "concat (map (\<lambda>ch. map (f ch) [0..<1024]) [0..<3]) ! j = f (j div 1024) (j mod 1024)"
proof -
  have nth: "concat (map (\<lambda>ch. map (f ch) [0..<1024]) [0..<3]) ! (c * 1024 + i) = f c i"
    if "c \<in> {0, 1, 2}" "i < 1024" for c i
    using that by (auto simp: upt_0_3 nth_append simp del: upt_rec_numeral)
  have "j div 1024 < 3" using assms by auto
  then have "j div 1024 \<in> {0, 1, 2}" by auto
  from nth[OF this, of "j mod 1024"] show ?thesis by (simp del: upt_rec_numeral)
qed

lemma length_decode_planes: "decode_planes planes = Some cs \<Longrightarrow> length cs = 3072"
  by (auto simp: decode_planes_def upt_0_3 simp del: upt_rec_numeral split: if_splits)

lemma decode_planes_nth:
  "decode_planes planes = Some cs \<Longrightarrow> j < 3072 \<Longrightarrow> cs ! j = decode_coeff planes (j div 1024) (j mod 1024)"
  using concat_channels_nth[of j "decode_coeff planes"]
  by (auto simp: decode_planes_def simp del: upt_rec_numeral split: if_splits)

text \<open>Coefficients the passes can carry: thirteen magnitude bits.\<close>

definition pass_range :: "int list \<Rightarrow> bool" where
  "pass_range cs \<longleftrightarrow> length cs = 3072 \<and> (\<forall>c \<in> set cs. \<bar>c\<bar> < 8192)"

lemma decode_planes_error:
  assumes "pass_range cs" "1 \<le> k" "k \<le> 14"
  obtains ds where "decode_planes (map (pass_plane cs) [0..<k]) = Some ds" "length ds = 3072"
    "\<And>j. j < 3072 \<Longrightarrow> \<bar>ds ! j - cs ! j\<bar> < 2 ^ (14 - k)"
proof -
  let ?pl = "map (pass_plane cs) [0..<k]"
  obtain ds where ds: "decode_planes ?pl = Some ds" using assms(3) by (auto simp: decode_planes_def)
  have "\<bar>ds ! j - cs ! j\<bar> < 2 ^ (14 - k)" if "j < 3072" for j
  proof -
    have j: "j div 1024 < 3" "j mod 1024 < 1024" "j div 1024 * 1024 + j mod 1024 = j" using that by auto
    have "\<bar>cs ! j\<bar> < 8192" using assms(1) that by (simp add: pass_range_def)
    then show ?thesis
      using decode_coeff_error[of cs "j div 1024" "j mod 1024" k] assms j decode_planes_nth[OF ds that]
      by (simp add: pass_range_def)
  qed
  then show thesis using that ds length_decode_planes[OF ds] by blast
qed

lemma decode_planes_exact:
  assumes "pass_range cs"
  shows "decode_planes (map (pass_plane cs) [0..<14]) = Some cs"
proof -
  obtain ds where ds: "decode_planes (map (pass_plane cs) [0..<14]) = Some ds" "length ds = 3072"
    "\<And>j. j < 3072 \<Longrightarrow> \<bar>ds ! j - cs ! j\<bar> < 2 ^ (14 - 14)"
    by (rule decode_planes_error[OF assms, of 14]) auto
  have "ds = cs" using ds(2,3) assms by (intro nth_equalityI) (auto simp: pass_range_def)
  then show ?thesis using ds(1) by simp
qed

lemma forward_pass_range: "forward t = Some cs \<Longrightarrow> pass_range cs"
proof -
  have "\<bar>c\<bar> < 8192" if "c \<in> set (pack_channel subband_order (decompose 3 (load_channel t ch)))" for c ch
    using channel_coeff_bound[OF that] by linarith
  then show "forward t = Some cs \<Longrightarrow> pass_range cs"
    by (auto simp: forward_def pass_range_def upt_0_3 simp del: upt_rec_numeral split: if_splits)
qed

lemma encode_passes_Some:
  assumes "length cs = 3072"
  obtains passes where "encode_passes cs = Some passes" "length passes = 14"
    "\<And>p. p \<in> set passes \<Longrightarrow> length p \<le> MAX_PASS_PAYLOAD"
proof -
  have "length (pass_payload present p (channel_planes cs p)) \<le> MAX_PASS_PAYLOAD" for present p
    by (rule length_pass_payload[OF channel_planes_shape[OF assms]])
  then show thesis using assms that by (auto simp: encode_passes_def simp del: upt_rec_numeral)
qed

subsection \<open>Sparse passes\<close>

lemma bit_present_bitmap:
  "p < 14 \<Longrightarrow> bit (present_bitmap cs) p \<longleftrightarrow> p = 0 \<or> any_set (channel_planes cs p)"
proof -
  have "bit (foldl (\<lambda>m p. if P p then m OR push_bit p 1 else m) m0 ps) j \<longleftrightarrow>
     bit (m0 :: u16) j \<or> (j < 16 \<and> (\<exists>p \<in> set ps. P p \<and> j = p))" for P m0 ps j
    by (induction ps arbitrary: m0) (auto simp: bit_or_iff bit_exp_iff)
  then show "p < 14 \<Longrightarrow> bit (present_bitmap cs) p \<longleftrightarrow> p = 0 \<or> any_set (channel_planes cs p)"
    by (auto simp: present_bitmap_def bit_1_iff)
qed

lemma not_any_set:
  assumes "length cs = 3072" "\<not> any_set (channel_planes cs p)"
  shows "pass_plane cs p = replicate 384 0"
proof -
  have sh: "length (channel_planes cs p) = 3" "\<And>q. q \<in> set (channel_planes cs p) \<Longrightarrow> length q = 128"
    using channel_planes_shape[OF assms(1)] by auto
  then have "length (pass_plane cs p) = 384"
    using length_concat_map_const[of "channel_planes cs p" "\<lambda>x. x" 128] by (simp add: pass_plane_def)
  moreover have "b = 0" if "b \<in> set (pass_plane cs p)" for b
    using that assms(2) by (auto simp: pass_plane_def any_set_def)
  ultimately show ?thesis by (metis replicate_length_same)
qed

text \<open>The receiver's view: a pass that was not listed is an empty plane.\<close>

definition sparse_plane :: "(u8 \<times> bytes) list \<Rightarrow> nat \<Rightarrow> bytes option" where
  "sparse_plane passes p =
     (case map_of passes (of_nat p) of
        Some payload \<Rightarrow> decode_pass p payload
      | None \<Rightarrow> Some (replicate 384 0))"

lemma sparse_plane_encoded:
  assumes "encode_passes_sparse cs = Some (present, passes)" "p < 14"
  shows "sparse_plane passes p = Some (pass_plane cs p)"
proof -
  let ?keep = "\<lambda>p. present AND push_bit p 1 \<noteq> 0"
  have len: "length cs = 3072" and pr: "present = present_bitmap cs" and
    ps: "passes = map (\<lambda>p. (of_nat p, pass_payload present p (channel_planes cs p))) (filter ?keep [0..<14])"
    using assms(1) by (auto simp: encode_passes_sparse_def Let_def simp del: upt_rec_numeral split: if_splits)
  have keep: "?keep p \<longleftrightarrow> p = 0 \<or> any_set (channel_planes cs p)"
    using bit_present_bitmap[OF assms(2)] and_exp_eq_0_iff_not_bit[of present p] by (simp add: pr)
  have inj: "inj_on (of_nat :: nat \<Rightarrow> u8) {0..<14}"
    by (rule inj_on_inverseI[of _ unat]) (simp add: unat_of_nat)
  have lookup: "map_of (map (\<lambda>p. (of_nat p :: u8, f p)) qs) (of_nat p) = (if p \<in> set qs then Some (f p) else None)"
    if "set qs \<subseteq> {0..<14}" for f :: "nat \<Rightarrow> bytes" and qs
    using that assms(2) by (induction qs) (auto simp: inj_on_eq_iff[OF inj])
  have "map_of passes (of_nat p) = (if ?keep p then Some (pass_payload present p (channel_planes cs p)) else None)"
    unfolding ps using assms(2) by (subst lookup) auto
  then show ?thesis
    using keep not_any_set[OF len] decode_pass_payload[OF channel_planes_shape[OF len]]
    by (auto simp: sparse_plane_def pass_plane_def)
qed

section \<open>Properties\<close>

text \<open>
  C8. Lossless tiles.  Every 32 by 32 tile goes through the transform, the fourteen passes and back
  without loss: the passes decode to exactly the coefficients, the inverse transform gives every
  blue, green and red byte of the tile, and no pass payload exceeds \<open>MAX_PASS_PAYLOAD\<close>.
\<close>

theorem cdf53_lossless:
  assumes "length tile = 4096"
  shows "\<exists>cs passes. forward tile = Some cs \<and> encode_passes cs = Some passes \<and> length passes = 14 \<and>
     (\<forall>p \<in> set passes. length p \<le> MAX_PASS_PAYLOAD) \<and>
     decode_passes passes = Some cs \<and> inverse cs = Some (tile_bgr tile)"
proof -
  obtain cs where cs: "forward tile = Some cs" using assms by (simp add: forward_def)
  have r: "pass_range cs" by (rule forward_pass_range[OF cs])
  obtain passes where ps: "encode_passes cs = Some passes" "length passes = 14"
    "\<And>p. p \<in> set passes \<Longrightarrow> length p \<le> MAX_PASS_PAYLOAD"
    using encode_passes_Some r by (metis pass_range_def)
  have "decode_passes passes = Some cs"
    using decode_passes_prefix[OF ps(1), of 14] ps(2) decode_planes_exact[OF r] by simp
  then show ?thesis using cs ps inverse_forward[OF cs] by blast
qed

theorem cdf53_lossless_witness:
  "\<exists>cs passes. forward (replicate 4096 7) = Some cs \<and> encode_passes cs = Some passes \<and>
     decode_passes passes = Some cs \<and> inverse cs = Some (tile_bgr (replicate 4096 7))"
  using cdf53_lossless[of "replicate 4096 7"] by auto

text \<open>
  C9. Progressive refinement.  From the first \<open>k\<close> passes of any coefficients with thirteen magnitude
  bits, every coefficient is known to within less than 2 to the power \<open>14 - k\<close>: each further pass
  halves the error bound, and all fourteen are exact.
\<close>

theorem progressive_error_bound:
  assumes "pass_range cs" "encode_passes cs = Some passes" "1 \<le> k" "k \<le> 14"
  shows "\<exists>ds. decode_passes (take k passes) = Some ds \<and> length ds = length cs \<and>
     (\<forall>j < length cs. \<bar>ds ! j - cs ! j\<bar> < 2 ^ (14 - k))"
proof -
  obtain ds where "decode_planes (map (pass_plane cs) [0..<k]) = Some ds" "length ds = 3072"
    "\<And>j. j < 3072 \<Longrightarrow> \<bar>ds ! j - cs ! j\<bar> < 2 ^ (14 - k)"
    using decode_planes_error[OF assms(1,3,4)] by blast
  then show ?thesis using decode_passes_prefix[OF assms(2,4)] assms(1) by (auto simp: pass_range_def)
qed

theorem progressive_error_bound_witness:
  "\<exists>passes ds. encode_passes (replicate 3072 (- 77)) = Some passes \<and>
     decode_passes (take 10 passes) = Some ds \<and> \<bar>ds ! 5 - (- 77)\<bar> < 16"
proof -
  have r: "pass_range (replicate 3072 (- 77))" by (simp add: pass_range_def)
  obtain passes where ps: "encode_passes (replicate 3072 (- 77)) = Some passes"
    using encode_passes_Some[of "replicate 3072 (- 77)"] by auto
  obtain ds where ds: "decode_passes (take 10 passes) = Some ds"
    "\<forall>j < length (replicate 3072 (- 77 :: int)). \<bar>ds ! j - replicate 3072 (- 77) ! j\<bar> < 2 ^ (14 - 10)"
    using progressive_error_bound[OF r ps, of 10] by auto
  have "(5 :: nat) < 3072" by simp
  then have "\<bar>ds ! 5 - (- 77)\<bar> < 16" using ds(2)[rule_format, of 5] by simp
  then show ?thesis using ps ds(1) by blast
qed

text \<open>
  C10. Sparse passes.  The sparse encoder lists pass 0 and exactly the passes with a bit set; a
  receiver that takes every unlisted pass for an empty plane recovers exactly the coefficients.
\<close>

theorem sparse_passes_complete:
  assumes "pass_range cs" "encode_passes_sparse cs = Some (present, passes)"
  shows "\<exists>planes. those (map (sparse_plane passes) [0..<14]) = Some planes \<and> decode_planes planes = Some cs \<and>
     (\<forall>p < 14. bit present p \<longleftrightarrow> p = 0 \<or> any_set (channel_planes cs p)) \<and>
     map fst passes = map of_nat (filter (bit present) [0..<14])"
proof -
  have "map (sparse_plane passes) [0..<14] = map (\<lambda>p. Some (pass_plane cs p)) [0..<14]"
    using sparse_plane_encoded[OF assms(2)] by (intro map_cong refl) auto
  moreover have "those (map (\<lambda>p. Some (f p)) ps) = Some (map f ps)" for f :: "nat \<Rightarrow> bytes" and ps
    by (induction ps) simp_all
  ultimately have "those (map (sparse_plane passes) [0..<14]) = Some (map (pass_plane cs) [0..<14])" by metis
  moreover have pr: "present = present_bitmap cs"
    using assms by (auto simp: encode_passes_sparse_def Let_def simp del: upt_rec_numeral split: if_splits)
  moreover have "map fst passes = map of_nat (filter (\<lambda>p. present AND push_bit p 1 \<noteq> 0) [0..<14])"
    using assms by (auto simp: encode_passes_sparse_def Let_def simp del: upt_rec_numeral split: if_splits)
  moreover have "filter (\<lambda>p. present AND push_bit p 1 \<noteq> 0) [0..<14] = filter (bit present) [0..<14]"
    using and_exp_eq_0_iff_not_bit[of present] by (intro filter_cong refl) auto
  ultimately show ?thesis using decode_planes_exact[OF assms(1)] bit_present_bitmap[of _ cs] by auto
qed

theorem sparse_passes_complete_witness:
  "\<exists>present passes planes. encode_passes_sparse (replicate 3072 5) = Some (present, passes) \<and>
     those (map (sparse_plane passes) [0..<14]) = Some planes \<and>
     decode_planes planes = Some (replicate 3072 5)"
proof -
  have r: "pass_range (replicate 3072 5)" by (simp add: pass_range_def)
  obtain present passes where e: "encode_passes_sparse (replicate 3072 5) = Some (present, passes)"
    by (cases "encode_passes_sparse (replicate 3072 5)") (auto simp: encode_passes_sparse_def Let_def)
  show ?thesis using sparse_passes_complete[OF r e] e by blast
qed

text \<open>
  C11. The run-length validator agrees with the decoders.  Encoding then decoding any bytes gives them
  back in at most twice the space; the length computed without decoding, the one the in-place decoder
  returns and the decoded length agree, capped at 129; and the in-place decoder writes the decoded
  bytes in front of what its buffer held.
\<close>

theorem rle_decoders_agree:
  assumes "length out = 128"
  shows "rle_decode (rle_encode data) = data \<and> length (rle_encode data) \<le> 2 * length data \<and>
     rle_expanded_len rle = min 129 (length (rle_decode rle)) \<and>
     rle_decode_into rle out =
       (rle_expanded_len rle, take 128 (rle_decode rle) @ drop (length (rle_decode rle)) out)"
  using rle_roundtrip length_rle_encode rle_expanded_len_spec[of rle] rle_decode_into_spec[OF assms, of rle]
  by (simp add: into_spec_def)

theorem rle_decoders_agree_witness:
  "rle_decode_into [0x7F, 0xFF, 0x81] (replicate 128 9) = (3, [0xFF, 0, 0] @ replicate 125 9)"
proof -
  have "is_zero_run 0x81" "zero_run_len 0x81 = 2" by (simp_all add: zero_run_token)
  then show ?thesis
    using rle_decoders_agree[of "replicate 128 9" "[]" "[0x7F, 0xFF, 0x81]"] by (simp add: numeral_2_eq_2)
qed

end
