(* ===== verification/Cdf53_Client.thy ===== *)
theory Cdf53_Client
  imports Cdf53_Passes
begin

text \<open>
  What the client does with the passes of a CDF 5/3 tile before and while they become pixels:
  \<^verbatim>\<open>cdf53_prevalidate.rs\<close> (a pass is checked, with or without expanding it) and
  \<^verbatim>\<open>cdf53_coverage.rs\<close> (which passes of which generation have arrived, and which to
  ask for again).
\<close>

section \<open>Decode errors\<close>

datatype DecodeErrorCode =
    PayloadTooShort | CountOutOfRange | ThinUncachedPalette | BundledTruncated | IndexOob
  | RleOvershoot | RleUndershoot | Cdf53BadPass | Cdf53Truncated | Cdf53RleLength

text \<open>The discriminants, \<^verbatim>\<open>code as u8\<close>.\<close>

fun DecodeErrorCode_to_u8 :: "DecodeErrorCode \<Rightarrow> u8" where
  "DecodeErrorCode_to_u8 PayloadTooShort = 1"
| "DecodeErrorCode_to_u8 CountOutOfRange = 2"
| "DecodeErrorCode_to_u8 ThinUncachedPalette = 3"
| "DecodeErrorCode_to_u8 BundledTruncated = 4"
| "DecodeErrorCode_to_u8 IndexOob = 5"
| "DecodeErrorCode_to_u8 RleOvershoot = 6"
| "DecodeErrorCode_to_u8 RleUndershoot = 7"
| "DecodeErrorCode_to_u8 Cdf53BadPass = 8"
| "DecodeErrorCode_to_u8 Cdf53Truncated = 9"
| "DecodeErrorCode_to_u8 Cdf53RleLength = 10"

section \<open>Prevalidation\<close>

record PrevalidatedCdf53 =
  pre_generation :: u8
  pre_pass_idx :: u8
  pre_bit_planes :: bytes
  pre_present_passes :: "u16 option"

text \<open>The range \<^verbatim>\<open>streams\<close> as its two ends.\<close>

record Cdf53WireInfo =
  wi_present_passes :: "u16 option"
  wi_streams :: "nat \<times> nat"

definition parse_prefix :: "bytes \<Rightarrow> u8 \<Rightarrow> (DecodeErrorCode, u16 option \<times> nat) result" where
  "parse_prefix payload pass_idx =
     (if pass_idx \<ge> 14 then Inl Cdf53BadPass
      else if pass_idx \<noteq> 0 then Inr (None, 0)
      else if length payload < 2 then Inl Cdf53Truncated
      else
        let bitmap = read_u16 (payload ! 0) (payload ! 1) in
        if bitmap AND 1 = 0 then Inl Cdf53BadPass else Inr (Some bitmap, 2))"

text \<open>The framed length at an offset, and the stream it frames.\<close>

definition channel_len :: "bytes \<Rightarrow> nat \<Rightarrow> nat" where
  "channel_len payload offset = unat (read_u16 (payload ! offset) (payload ! (offset + 1)))"

definition channel_rle :: "bytes \<Rightarrow> nat \<Rightarrow> bytes" where
  "channel_rle payload offset = bslice (offset + 2) (offset + 2 + channel_len payload offset) payload"

text \<open>
  The loop of \<^verbatim>\<open>walk_channels\<close> over the channels still to come.  The closure
  \<^verbatim>\<open>each\<close> is a function on the state it captures.
\<close>

fun walk_from :: "(nat \<Rightarrow> bytes \<Rightarrow> 's \<Rightarrow> (DecodeErrorCode, 's) result) \<Rightarrow> bytes \<Rightarrow> nat list \<Rightarrow> nat \<Rightarrow> 's \<Rightarrow>
    (DecodeErrorCode, nat \<times> 's) result" where
  "walk_from each payload [] offset s = Inr (offset, s)"
| "walk_from each payload (ch # chs) offset s =
     (if offset + 2 > length payload then Inl Cdf53Truncated
      else
        let len = channel_len payload offset in
        if offset + 2 + len > length payload then Inl Cdf53Truncated
        else res_bind (each ch (channel_rle payload offset) s)
               (\<lambda>s. walk_from each payload chs (offset + 2 + len) s))"

definition walk_channels :: "bytes \<Rightarrow> nat \<Rightarrow> (nat \<Rightarrow> bytes \<Rightarrow> 's \<Rightarrow> (DecodeErrorCode, 's) result) \<Rightarrow> 's \<Rightarrow>
    (DecodeErrorCode, nat \<times> 's) result" where
  "walk_channels payload offset each s = walk_from each payload [0..<3] offset s"

definition check_channel :: "nat \<Rightarrow> bytes \<Rightarrow> unit \<Rightarrow> (DecodeErrorCode, unit) result" where
  "check_channel ch rle u = (if rle_expanded_len rle \<noteq> 128 then Inl Cdf53RleLength else Inr ())"

definition validate_cdf53 :: "bytes \<Rightarrow> u8 \<Rightarrow> (DecodeErrorCode, Cdf53WireInfo) result" where
  "validate_cdf53 payload pass_idx =
     res_bind (parse_prefix payload pass_idx) (\<lambda>(present_passes, start).
     res_bind (walk_channels payload start check_channel ()) (\<lambda>(end, _).
       Inr \<lparr> wi_present_passes = present_passes, wi_streams = (start, end) \<rparr>))"

text \<open>The planes of a failed walk are never read, so they are not part of the result.\<close>

definition store_channel :: "nat \<Rightarrow> bytes \<Rightarrow> bytes \<Rightarrow> (DecodeErrorCode, bytes) result" where
  "store_channel ch rle planes =
     (let (n, dst) = rle_decode_into rle (bslice (ch * 128) (ch * 128 + 128) planes)
      in if n \<noteq> 128 then Inl Cdf53RleLength
         else Inr (take (ch * 128) planes @ dst @ drop (ch * 128 + 128) planes))"

definition decode_cdf53_wire :: "bytes \<Rightarrow> bytes \<Rightarrow> (DecodeErrorCode, bytes) result" where
  "decode_cdf53_wire streams planes =
     res_bind (walk_channels streams 0 store_channel planes) (\<lambda>(_, planes). Inr planes)"

definition prevalidate_cdf53 :: "bytes \<Rightarrow> u8 \<Rightarrow> u8 \<Rightarrow> (DecodeErrorCode, PrevalidatedCdf53) result" where
  "prevalidate_cdf53 payload generation pass_idx =
     res_bind (parse_prefix payload pass_idx) (\<lambda>(present_passes, start).
     res_bind (walk_channels payload start store_channel (replicate 384 0)) (\<lambda>(_, bit_planes).
       Inr \<lparr> pre_generation = generation, pre_pass_idx = pass_idx, pre_bit_planes = bit_planes,
             pre_present_passes = present_passes \<rparr>))"

subsection \<open>The three channel streams of a payload\<close>

text \<open>
  Both closures accept a stream exactly when it expands to 128 bytes.  A walk is then: collect the
  streams, fail where the first bad one is, and fold what the closure does over them.
\<close>

fun collect :: "bytes \<Rightarrow> nat list \<Rightarrow> nat \<Rightarrow> (DecodeErrorCode, nat \<times> (nat \<times> bytes) list) result" where
  "collect payload [] offset = Inr (offset, [])"
| "collect payload (ch # chs) offset =
     (if offset + 2 > length payload then Inl Cdf53Truncated
      else
        let len = channel_len payload offset; rle = channel_rle payload offset in
        if offset + 2 + len > length payload then Inl Cdf53Truncated
        else if length (rle_decode rle) \<noteq> 128 then Inl Cdf53RleLength
        else res_bind (collect payload chs (offset + 2 + len)) (\<lambda>(end, rles). Inr (end, (ch, rle) # rles)))"

lemma walk_collect:
  assumes each: "\<And>ch rle s. ch \<in> set chs \<Longrightarrow> I s \<Longrightarrow>
      each ch rle s = (if length (rle_decode rle) = 128 then Inr (f ch rle s) else Inl Cdf53RleLength)"
    and keep: "\<And>ch rle s. ch \<in> set chs \<Longrightarrow> length (rle_decode rle) = 128 \<Longrightarrow> I s \<Longrightarrow> I (f ch rle s)"
    and s: "I s"
  shows "walk_from each payload chs offset s =
    res_bind (collect payload chs offset) (\<lambda>(end, rles). Inr (end, foldl (\<lambda>s (ch, rle). f ch rle s) s rles))"
  using assms
proof (induction chs arbitrary: offset s)
  case (Cons ch chs)
  define len where "len = channel_len payload offset"
  define rle where "rle = channel_rle payload offset"
  note e = Cons.prems(1)[of ch s rle, OF list.set_intros(1) Cons.prems(3)]
  show ?case
  proof (cases "offset + 2 + len \<le> length payload \<and> length (rle_decode rle) = 128")
    case True
    have "walk_from each payload chs (offset + 2 + len) (f ch rle s) =
      res_bind (collect payload chs (offset + 2 + len))
        (\<lambda>(end, rles). Inr (end, foldl (\<lambda>s (ch, rle). f ch rle s) (f ch rle s) rles))"
      by (rule Cons.IH) (use Cons.prems True in auto)
    then show ?thesis using True e
      by (cases "collect payload chs (offset + 2 + len)")
        (auto simp: Let_def len_def[symmetric] rle_def[symmetric])
  next
    case False
    then show ?thesis using e by (auto simp: Let_def len_def[symmetric] rle_def[symmetric])
  qed
qed simp

lemma check_channel_spec:
  "check_channel ch rle u = (if length (rle_decode rle) = 128 then Inr () else Inl Cdf53RleLength)"
  by (auto simp: check_channel_def rle_expanded_len_spec)

definition put_channel :: "nat \<Rightarrow> bytes \<Rightarrow> bytes \<Rightarrow> bytes" where
  "put_channel ch rle planes = take (ch * 128) planes @ rle_decode rle @ drop (ch * 128 + 128) planes"

lemma store_channel_spec:
  assumes "ch < 3" "length planes = 384"
  shows "store_channel ch rle planes =
    (if length (rle_decode rle) = 128 then Inr (put_channel ch rle planes) else Inl Cdf53RleLength)"
proof -
  have "length (bslice (ch * 128) (ch * 128 + 128) planes) = 128" using assms by auto
  then show ?thesis
    by (auto simp: store_channel_def rle_decode_into_spec into_spec_def put_channel_def)
qed

lemma collect_Cons:
  "collect payload (ch # chs) offset = Inr (end, rles) \<longleftrightarrow>
     offset + 2 + channel_len payload offset \<le> length payload \<and>
     length (rle_decode (channel_rle payload offset)) = 128 \<and>
     (\<exists>rest. rles = (ch, channel_rle payload offset) # rest \<and>
        collect payload chs (offset + 2 + channel_len payload offset) = Inr (end, rest))"
  by (cases "collect payload chs (offset + 2 + channel_len payload offset)") (auto simp: Let_def)

declare collect.simps(2) [simp del]

lemma collect_streams:
  "collect payload chs offset = Inr (end, rles) \<Longrightarrow>
     map fst rles = chs \<and> (\<forall>(ch, rle) \<in> set rles. length (rle_decode rle) = 128)"
  by (induction chs arbitrary: offset rles) (fastforce simp: collect_Cons)+

lemma collect_end:
  "collect payload chs offset = Inr (end, rles) \<Longrightarrow>
     offset \<le> end \<and> (offset \<le> length payload \<longrightarrow> end \<le> length payload)"
proof (induction chs arbitrary: offset rles)
  case (Cons ch chs)
  obtain rest where "collect payload chs (offset + 2 + channel_len payload offset) = Inr (end, rest)"
    "offset + 2 + channel_len payload offset \<le> length payload"
    using Cons.prems unfolding collect_Cons by blast
  then show ?case using Cons.IH[of "offset + 2 + channel_len payload offset"] by simp
qed simp

lemma collect_slice:
  assumes "collect payload chs offset = Inr (end, rles)" "start \<le> offset" "offset \<le> length payload"
  shows "collect (bslice start end payload) chs (offset - start) = Inr (end - start, rles)"
  using assms
proof (induction chs arbitrary: offset rles)
  case (Cons ch chs)
  define len where "len = channel_len payload offset"
  define rle where "rle = channel_rle payload offset"
  obtain rest where rest: "collect payload chs (offset + 2 + len) = Inr (end, rest)" "rles = (ch, rle) # rest"
    and ok: "offset + 2 + len \<le> length payload" "length (rle_decode rle) = 128"
    using Cons.prems(1) unfolding collect_Cons len_def rle_def by blast
  have e: "offset + 2 + len \<le> end" "end \<le> length payload"
    using collect_end[OF rest(1)] ok(1) by auto
  have n: "channel_len (bslice start end payload) (offset - start) = len"
    using e Cons.prems(2) by (simp add: channel_len_def len_def bslice_def)
  have r: "channel_rle (bslice start end payload) (offset - start) = rle"
    using e Cons.prems(2) unfolding channel_rle_def n rle_def len_def[symmetric]
    by (simp add: bslice_def min_def drop_take)
  have "collect (bslice start end payload) chs (offset + 2 + len - start) = Inr (end - start, rest)"
    using Cons.IH[OF rest(1)] Cons.prems(2) ok by simp
  moreover have "offset + 2 + len - start = offset - start + 2 + len" using Cons.prems(2) by simp
  ultimately show ?case
    unfolding collect_Cons n r using e ok Cons.prems(2) rest(2) by simp
qed simp

lemma walk_validate:
  "walk_channels payload offset check_channel () =
     res_bind (collect payload [0..<3] offset) (\<lambda>(end, rles). Inr (end, ()))"
proof -
  have "foldl (\<lambda>s (ch, rle). ()) () rles = ()" for rles :: "(nat \<times> bytes) list" by simp
  then show ?thesis
    unfolding walk_channels_def
    by (subst walk_collect[where I = "\<lambda>_. True" and f = "\<lambda>_ _ _. ()"]) (simp_all add: check_channel_spec)
qed

lemma walk_store:
  assumes "length planes = 384"
  shows "walk_channels payload offset store_channel planes =
     res_bind (collect payload [0..<3] offset) (\<lambda>(end, rles). Inr (end, concat (map (\<lambda>x. rle_decode (snd x)) rles)))"
proof -
  have "walk_channels payload offset store_channel planes = res_bind (collect payload [0..<3] offset)
     (\<lambda>(end, rles). Inr (end, foldl (\<lambda>s (ch, rle). put_channel ch rle s) planes rles))"
    unfolding walk_channels_def
    by (rule walk_collect[where I = "\<lambda>s. length s = 384"])
      (use assms in \<open>auto simp: store_channel_spec put_channel_def\<close>)
  moreover have "foldl (\<lambda>s (ch, rle). put_channel ch rle s) planes rles = concat (map (\<lambda>x. rle_decode (snd x)) rles)"
    if c: "collect payload [0..<3] offset = Inr (end, rles)" for "end" rles
  proof -
    from collect_streams[OF c] obtain a b d where r: "rles = [(0, a), (1, b), (2, d)]"
      by (auto simp: upt_0_3 map_eq_Cons_conv simp del: upt_rec_numeral)
    have "length (rle_decode a) = 128" "length (rle_decode b) = 128" "length (rle_decode d) = 128"
      using collect_streams[OF c] by (auto simp: r)
    then show ?thesis using assms by (simp add: r put_channel_def)
  qed
  ultimately show ?thesis by (cases "collect payload [0..<3] offset") auto
qed

lemma decode_channels_collect:
  assumes "collect payload chs offset = Inr (end, rles)" "offset \<le> length payload"
  shows "decode_channels (length chs) (drop offset payload) = Some (concat (map (\<lambda>x. rle_decode (snd x)) rles))"
  using assms
proof (induction chs arbitrary: offset rles)
  case (Cons ch chs)
  define len where "len = channel_len payload offset"
  define rle where "rle = channel_rle payload offset"
  obtain rest where rest: "collect payload chs (offset + 2 + len) = Inr (end, rest)" "rles = (ch, rle) # rest"
    and ok: "offset + 2 + len \<le> length payload" "length (rle_decode rle) = 128"
    using Cons.prems(1) unfolding collect_Cons len_def rle_def by blast
  have "snd (rle_decode_into rle (replicate 128 0)) = rle_decode rle"
    using ok by (simp add: rle_decode_into_spec into_spec_def)
  moreover have "take len (drop 2 (drop offset payload)) = rle"
    by (simp add: rle_def channel_rle_def len_def[symmetric] bslice_def add.commute)
  moreover have "unat (read_u16 (drop offset payload ! 0) (drop offset payload ! 1)) = len"
    using ok by (simp add: len_def channel_len_def)
  moreover have "decode_channels (length chs) (drop len (drop 2 (drop offset payload))) =
      Some (concat (map (\<lambda>x. rle_decode (snd x)) rest))"
    using Cons.IH[OF rest(1)] ok by (simp add: add.commute add.left_commute)
  moreover have "2 \<le> length (drop offset payload)" "len \<le> length (drop 2 (drop offset payload))"
    using ok by auto
  ultimately show ?case
    unfolding list.size(4) add_0_right decode_channels.simps Let_def rest(2)
    by (simp del: drop_drop)
qed simp

lemma collect_encoded:
  assumes "\<And>p. p \<in> set planes \<Longrightarrow> length p = 128" "length chs = length planes"
  shows "collect (pre @ concat (map encode_channel planes) @ tail) chs (length pre) =
    Inr (length pre + length (concat (map encode_channel planes)), zip chs (map rle_encode planes))"
  using assms
proof (induction planes arbitrary: chs pre)
  case (Cons plane planes)
  obtain ch chs' where chs: "chs = ch # chs'" using Cons.prems(2) by (cases chs) auto
  let ?rle = "rle_encode plane"
  let ?pl = "pre @ concat (map encode_channel (plane # planes)) @ tail"
  have "length ?rle \<le> 256" using length_rle_encode[of plane] Cons.prems(1)[of plane] by simp
  then have l: "unat (of_nat (length ?rle) :: u16) = length ?rle" by (simp add: unat_of_nat)
  have e: "encode_channel plane = push_u16 (of_nat (length ?rle)) @ ?rle"
    by (simp add: encode_channel_def Let_def)
  have len: "channel_len ?pl (length pre) = length ?rle"
    by (simp add: channel_len_def e push_u16_def nth_append read_push_u16 l)
  have rle: "channel_rle ?pl (length pre) = ?rle"
    unfolding channel_rle_def len by (simp add: e push_u16_def bslice_def)
  have "collect ((pre @ encode_channel plane) @ concat (map encode_channel planes) @ tail) chs'
      (length (pre @ encode_channel plane)) =
    Inr (length (pre @ encode_channel plane) + length (concat (map encode_channel planes)),
         zip chs' (map rle_encode planes))"
    by (rule Cons.IH) (use Cons.prems chs in auto)
  then show ?case
    unfolding chs collect_Cons len rle using Cons.prems(1)[of plane]
    by (simp add: e rle_roundtrip ac_simps)
qed simp

lemma prevalidate_encoded:
  assumes "length planes = 3" "\<And>p. p \<in> set planes \<Longrightarrow> length p = 128" "bit present 0" "p < 14"
  shows "prevalidate_cdf53 (pass_payload present p planes @ tail) g (of_nat p) =
    Inr \<lparr> pre_generation = g, pre_pass_idx = of_nat p, pre_bit_planes = concat planes,
          pre_present_passes = if p = 0 then Some present else None \<rparr>"
proof -
  define pre where "pre = (if p = 0 then push_u16 present else [])"
  have c: "collect (pass_payload present p planes @ tail) [0..<3] (length pre) =
    Inr (length pre + length (concat (map encode_channel planes)), zip [0..<3] (map rle_encode planes))"
    using collect_encoded[of planes "[0..<3]" pre tail] assms(1,2)
    by (simp add: pass_payload_def pre_def del: upt_rec_numeral)
  have p: "\<not> (14 :: u8) \<le> of_nat p" "(of_nat p :: u8) = 0 \<longleftrightarrow> p = 0"
    using assms(4) by (simp_all add: word_le_nat_alt unat_of_nat word_unat_eq_iff)
  have "present AND 1 \<noteq> 0" using assms(3) and_exp_eq_0_iff_not_bit[of present 0] by simp
  then have "parse_prefix (pass_payload present p planes @ tail) (of_nat p) =
      Inr (if p = 0 then Some present else None, length pre)"
    using p by (simp add: parse_prefix_def pre_def pass_payload_def push_u16_def read_push_u16)
  moreover have "map (\<lambda>x. rle_decode (snd x)) (zip [0..<3] (map rle_encode planes)) = planes"
    using assms(1) by (intro nth_equalityI) (simp_all add: rle_roundtrip)
  ultimately show ?thesis by (simp add: prevalidate_cdf53_def walk_store c)
qed

lemma validate_prevalidate:
  "case validate_cdf53 payload pass_idx of
     Inl err \<Rightarrow> prevalidate_cdf53 payload g pass_idx = Inl err
   | Inr info \<Rightarrow> \<exists>planes. snd (wi_streams info) \<le> length payload \<and> length planes = 384 \<and>
       (\<forall>buf. length buf = 384 \<longrightarrow>
          decode_cdf53_wire (bslice (fst (wi_streams info)) (snd (wi_streams info)) payload) buf = Inr planes) \<and>
       prevalidate_cdf53 payload g pass_idx =
         Inr \<lparr> pre_generation = g, pre_pass_idx = pass_idx, pre_bit_planes = planes,
               pre_present_passes = wi_present_passes info \<rparr> \<and>
       decode_pass (unat pass_idx) payload = Some planes"
proof (cases "parse_prefix payload pass_idx")
  case (Inl e)
  then show ?thesis by (simp add: validate_cdf53_def prevalidate_cdf53_def)
next
  case (Inr ps)
  obtain present start where ps: "ps = (present, start)" by (cases ps)
  then have start: "start \<le> length payload" "start = (if pass_idx = 0 then 2 else 0)"
    using Inr by (auto simp: parse_prefix_def Let_def split: if_splits)
  show ?thesis
  proof (cases "collect payload [0..<3] start")
    case (Inl e)
    then show ?thesis using Inr ps
      by (simp add: validate_cdf53_def prevalidate_cdf53_def walk_validate walk_store)
  next
    case (Inr r)
    obtain "end" rles where r: "r = (end, rles)" by (cases r)
    note c = Inr[unfolded r]
    let ?planes = "concat (map (\<lambda>x. rle_decode (snd x)) rles)"
    have "length rles = 3" using arg_cong[OF conjunct1[OF collect_streams[OF c]], of length] by simp
    then have "length ?planes = 384"
      using collect_streams[OF c] length_concat_map_const[of rles "\<lambda>x. rle_decode (snd x)" 128] by fastforce
    moreover have "collect (bslice start end payload) [0..<3] 0 = Inr (end - start, rles)"
      using collect_slice[OF c order_refl start(1)] by simp
    moreover have "decode_pass (unat pass_idx) payload = Some ?planes"
      using decode_channels_collect[OF c start(1)] start by (auto simp: decode_pass_def unat_eq_0 simp del: upt_rec_numeral)
    ultimately show ?thesis
      using collect_end[OF c] start(1) c \<open>parse_prefix payload pass_idx = Inr ps\<close> ps
      by (simp add: validate_cdf53_def prevalidate_cdf53_def decode_cdf53_wire_def walk_validate walk_store
            del: upt_rec_numeral)
  qed
qed

section \<open>Coverage\<close>

record CoverageEntry =
  ce_generation :: u8
  ce_frame_seq :: u32
  ce_pass_mask :: u16
  ce_nacked_mask :: u16
  ce_present_passes :: "u16 option"
  ce_last_change_us :: nat
  ce_sweep_attempts :: u8
  ce_highest_pass_seen :: "u8 option"

definition gap_evidence_mask :: "u16 \<Rightarrow> CoverageEntry \<Rightarrow> u16" where
  "gap_evidence_mask missing e =
     (case ce_highest_pass_seen e of
        None \<Rightarrow> 0
      | Some h \<Rightarrow> missing AND (push_bit (unat (min h 14)) 2 - 1))"

record ArrivalOutcome =
  ao_entry :: CoverageEntry
  ao_nack_passes :: "u8 list"
  ao_new_generation :: bool
  ao_committed :: bool

definition generation_is_newer :: "u8 \<Rightarrow> u8 \<Rightarrow> bool" where
  "generation_is_newer candidate current =
     (let fwd = (candidate - current) AND 0x0F in fwd \<noteq> 0 \<and> fwd < 8)"

definition FRAME_SEQ_MASK :: u32 where "FRAME_SEQ_MASK = 0x7FFFFFFF"

definition frame_seq_is_newer :: "u32 \<Rightarrow> u32 \<Rightarrow> bool" where
  "frame_seq_is_newer a b =
     (let fwd = (a - b) AND FRAME_SEQ_MASK in fwd \<noteq> 0 \<and> fwd < push_bit 30 1)"

datatype ArrivalOrder = Current | NewGeneration | Stale

definition LABEL_WINDOW :: u32 where "LABEL_WINDOW = push_bit 12 1"
definition LABEL_EXPIRY :: u32 where "LABEL_EXPIRY = push_bit 29 1"

definition label_forward :: "u32 \<Rightarrow> u32 \<Rightarrow> u32" where
  "label_forward a b = ((a AND FRAME_SEQ_MASK) - (b AND FRAME_SEQ_MASK)) AND FRAME_SEQ_MASK"

definition label_runs_ahead :: "u32 \<Rightarrow> u32 option \<Rightarrow> bool" where
  "label_runs_ahead label newest_received =
     (case newest_received of
        None \<Rightarrow> False
      | Some newest \<Rightarrow>
          let ahead = label_forward label newest in ahead > LABEL_WINDOW \<and> ahead < push_bit 30 1)"

definition label_expired :: "u32 \<Rightarrow> u32 option \<Rightarrow> bool" where
  "label_expired held_label newest_received =
     (case newest_received of
        None \<Rightarrow> False
      | Some newest \<Rightarrow>
          let behind = label_forward newest held_label
          in behind > LABEL_EXPIRY \<and> behind < push_bit 31 1 - LABEL_WINDOW)"

definition classify_arrival :: "u8 \<Rightarrow> u32 \<Rightarrow> u8 \<Rightarrow> u32 \<Rightarrow> ArrivalOrder" where
  "classify_arrival held_generation held_frame_seq generation frame_seq =
     (let new = frame_seq AND FRAME_SEQ_MASK; old = held_frame_seq AND FRAME_SEQ_MASK in
      if new \<noteq> old then (if frame_seq_is_newer new old then NewGeneration else Stale)
      else if generation = held_generation then Current
      else if generation_is_newer generation held_generation then NewGeneration
      else Stale)"

definition arrival_is_stale :: "u8 \<Rightarrow> u32 \<Rightarrow> u8 \<Rightarrow> u32 \<Rightarrow> bool" where
  "arrival_is_stale held_generation held_frame_seq generation frame_seq \<longleftrightarrow>
     classify_arrival held_generation held_frame_seq generation frame_seq = Stale"

subsection \<open>Applying an arrival\<close>

text \<open>
  \<^verbatim>\<open>apply_cdf53_arrival\<close> in the order of the source: the order of the arrival, the entry it
  starts from, the failed and the accepted pass.  \<^verbatim>\<open>1u16 << pass_idx\<close> overflows for an
  index of 16 or more, which is \<open>None\<close>; a pass index on the wire has four bits.
\<close>

definition arrival_order :: "CoverageEntry option \<Rightarrow> u8 \<Rightarrow> u32 \<Rightarrow> ArrivalOrder" where
  "arrival_order prev generation frame_seq =
     (case prev of
        None \<Rightarrow> NewGeneration
      | Some entry \<Rightarrow> classify_arrival (ce_generation entry) (ce_frame_seq entry) generation frame_seq)"

definition fresh_entry :: "u8 \<Rightarrow> u32 \<Rightarrow> nat \<Rightarrow> CoverageEntry" where
  "fresh_entry generation frame_seq now_us =
     \<lparr> ce_generation = generation, ce_frame_seq = frame_seq, ce_pass_mask = 0, ce_nacked_mask = 0,
       ce_present_passes = None, ce_last_change_us = now_us, ce_sweep_attempts = 0,
       ce_highest_pass_seen = None \<rparr>"

definition arrival_entry ::
    "CoverageEntry option \<Rightarrow> bool \<Rightarrow> u8 \<Rightarrow> u8 \<Rightarrow> u32 \<Rightarrow> nat \<Rightarrow> u16 option \<Rightarrow> CoverageEntry" where
  "arrival_entry prev is_new_generation generation pass_idx frame_seq now_us present_passes =
     (let e = (case prev of
                 Some entry \<Rightarrow> if is_new_generation then fresh_entry generation frame_seq now_us else entry
               | None \<Rightarrow> fresh_entry generation frame_seq now_us);
          e = (case present_passes of Some p \<Rightarrow> e\<lparr> ce_present_passes := Some p \<rparr> | None \<Rightarrow> e)
      in if pass_idx < 14
         then e\<lparr> ce_highest_pass_seen :=
                   Some (case ce_highest_pass_seen e of None \<Rightarrow> pass_idx | Some h \<Rightarrow> max h pass_idx) \<rparr>
         else e)"

definition failed_arrival :: "CoverageEntry option \<Rightarrow> bool \<Rightarrow> u8 \<Rightarrow> CoverageEntry \<Rightarrow> ArrivalOutcome" where
  "failed_arrival prev is_new_generation pass_idx e =
     (let pass_bit = push_bit (unat pass_idx) 1;
          (nacks, e) = (if ce_nacked_mask e AND pass_bit = 0
                        then ([pass_idx], e\<lparr> ce_nacked_mask := ce_nacked_mask e OR pass_bit \<rparr>)
                        else ([], e));
          committed = (\<not> is_new_generation)
      in \<lparr> ao_entry = (if committed then e else (case prev of Some held \<Rightarrow> held | None \<Rightarrow> e)),
           ao_nack_passes = nacks, ao_new_generation = False, ao_committed = committed \<rparr>)"

definition accepted_arrival :: "bool \<Rightarrow> u8 \<Rightarrow> nat \<Rightarrow> CoverageEntry \<Rightarrow> ArrivalOutcome" where
  "accepted_arrival is_new_generation pass_idx now_us e =
     (let before = ce_pass_mask e;
          e = e\<lparr> ce_pass_mask := before OR push_bit (unat pass_idx) 1, ce_sweep_attempts := 0 \<rparr>;
          e = (if ce_pass_mask e \<noteq> before then e\<lparr> ce_last_change_us := now_us \<rparr> else e);
          expected = (case ce_present_passes e of Some p \<Rightarrow> p | None \<Rightarrow> 1);
          sentinel = push_bit (unat pass_idx) 1 - 1;
          missing_below = (if ce_pass_mask e \<noteq> before \<and> \<not> is_new_generation
                           then sentinel AND expected AND NOT (ce_pass_mask e) AND NOT (ce_nacked_mask e)
                           else 0)
      in \<lparr> ao_entry = e\<lparr> ce_nacked_mask := ce_nacked_mask e OR missing_below \<rparr>,
           ao_nack_passes = map of_nat (filter (\<lambda>p. missing_below AND push_bit p 1 \<noteq> 0) [0..<unat pass_idx]),
           ao_new_generation = is_new_generation, ao_committed = True \<rparr>)"

definition apply_cdf53_arrival ::
    "CoverageEntry option \<Rightarrow> u8 \<Rightarrow> u8 \<Rightarrow> u32 \<Rightarrow> nat \<Rightarrow> bool \<Rightarrow> u16 option \<Rightarrow> ArrivalOutcome option" where
  "apply_cdf53_arrival prev generation pass_idx frame_seq now_us prevalidation_ok present_passes =
     (let order = arrival_order prev generation frame_seq;
          is_new_generation = (order = NewGeneration);
          e = arrival_entry prev is_new_generation generation pass_idx frame_seq now_us present_passes
      in case (order, prev) of
           (Stale, Some held) \<Rightarrow>
             Some \<lparr> ao_entry = held, ao_nack_passes = [], ao_new_generation = False, ao_committed = False \<rparr>
         | _ \<Rightarrow>
             if unat pass_idx \<ge> 16 then None
             else if \<not> prevalidation_ok then Some (failed_arrival prev is_new_generation pass_idx e)
             else Some (accepted_arrival is_new_generation pass_idx now_us e))"

record Cdf53CoverageSummary =
  cs_tiles :: u32
  cs_complete :: u32
  cs_partial :: u32
  cs_bitmap_unknown :: u32
  cs_gave_up :: u32
  cs_pass_hist :: "u32 list"

definition count_ones :: "u16 \<Rightarrow> nat" where
  "count_ones x = length (filter (bit x) [0..<16])"

definition summarize_entry :: "u8 \<Rightarrow> Cdf53CoverageSummary \<Rightarrow> CoverageEntry \<Rightarrow> Cdf53CoverageSummary" where
  "summarize_entry max_sweeps s e =
     (let s = s\<lparr> cs_tiles := cs_tiles s + 1 \<rparr>;
          received = min (count_ones (ce_pass_mask e)) 14;
          s = s\<lparr> cs_pass_hist := (cs_pass_hist s)[received := cs_pass_hist s ! received + 1] \<rparr>;
          s = (case ce_present_passes e of
                 Some present \<Rightarrow>
                   if ce_pass_mask e AND present = present then s\<lparr> cs_complete := cs_complete s + 1 \<rparr>
                   else s\<lparr> cs_partial := cs_partial s + 1 \<rparr>
               | None \<Rightarrow> s\<lparr> cs_bitmap_unknown := cs_bitmap_unknown s + 1 \<rparr>)
      in if ce_sweep_attempts e \<ge> max_sweeps then s\<lparr> cs_gave_up := cs_gave_up s + 1 \<rparr> else s)"

definition summarize :: "CoverageEntry list \<Rightarrow> u8 \<Rightarrow> Cdf53CoverageSummary" where
  "summarize entries max_sweeps =
     foldl (summarize_entry max_sweeps)
       \<lparr> cs_tiles = 0, cs_complete = 0, cs_partial = 0, cs_bitmap_unknown = 0, cs_gave_up = 0,
         cs_pass_hist = replicate 15 0 \<rparr> entries"

subsection \<open>Labels as positions\<close>

text \<open>
  The position of a label after a base, modulo the 31 bits of a frame number.  Labels whose positions
  are less than 2 to the power 30 are ordered by them.
\<close>

definition label_off :: "u32 \<Rightarrow> u32 \<Rightarrow> nat" where
  "label_off base label = unat ((label - base) AND FRAME_SEQ_MASK)"

lemma FRAME_SEQ_MASK_mask: "FRAME_SEQ_MASK = mask 31"
  by (simp add: FRAME_SEQ_MASK_def mask_eq_exp_minus_1)

lemma uint_take_31: "uint (take_bit 31 (a - b :: u32)) = (uint a - uint b) mod 2 ^ 31"
proof -
  have "uint (a - b) = (uint a - uint b) mod 2 ^ 32" using uint_word_ariths(2)[of a b] by simp
  then have "uint (take_bit 31 (a - b)) = (uint a - uint b) mod 2 ^ 32 mod 2 ^ 31"
    unfolding unsigned_take_bit_eq by (simp only: take_bit_eq_mod)
  also have "\<dots> = (uint a - uint b) mod 2 ^ 31" by (rule mod_mod_cancel) simp
  finally show ?thesis .
qed

lemma label_off_int: "int (label_off base l) = (uint l - uint base) mod 2 ^ 31"
  unfolding label_off_def FRAME_SEQ_MASK_mask take_bit_eq_mask[symmetric] uint_take_31[symmetric] by simp

lemma forward_distance:
  "uint ((a - b) AND FRAME_SEQ_MASK) = (int (label_off base a) - int (label_off base b)) mod 2 ^ 31"
proof -
  have "(uint a - uint b) mod 2 ^ 31 = ((uint a - uint base) - (uint b - uint base)) mod 2 ^ 31" by simp
  also have "\<dots> = ((uint a - uint base) mod 2 ^ 31 - (uint b - uint base) mod 2 ^ 31) mod 2 ^ 31"
    by (rule mod_diff_eq[symmetric])
  finally show ?thesis
    unfolding FRAME_SEQ_MASK_mask take_bit_eq_mask[symmetric] uint_take_31 label_off_int .
qed

lemma uint_label: "uint (l AND FRAME_SEQ_MASK) = uint l mod 2 ^ 31"
  using uint_take_31[of l 0] by (simp add: FRAME_SEQ_MASK_mask flip: take_bit_eq_mask)

lemma label_off_mask [simp]: "label_off base (l AND FRAME_SEQ_MASK) = label_off base l"
proof -
  have "int (label_off base (l AND FRAME_SEQ_MASK)) = int (label_off base l)"
    unfolding label_off_int uint_label by (rule mod_diff_left_eq)
  then show ?thesis by simp
qed

lemma newer_label:
  assumes "label_off base a < 2 ^ 30" "label_off base b < 2 ^ 30"
  shows "frame_seq_is_newer a b \<longleftrightarrow> label_off base b < label_off base a"
proof -
  let ?A = "int (label_off base a)" and ?B = "int (label_off base b)"
  have d: "uint ((a - b) AND FRAME_SEQ_MASK) = (?A - ?B) mod 2 ^ 31" by (rule forward_distance)
  have "(?A - ?B) mod 2 ^ 31 = (if ?B \<le> ?A then ?A - ?B else ?A - ?B + 2 ^ 31)"
    using assms mod_pos_pos_trivial[of "?A - ?B" "2 ^ 31"] mod_pos_pos_trivial[of "?A - ?B + 2 ^ 31" "2 ^ 31"]
    by (auto simp: mod_add_self2)
  then show ?thesis
    using assms unfolding frame_seq_is_newer_def Let_def word_less_def word_uint_eq_iff d by auto
qed

lemma same_label:
  "a AND FRAME_SEQ_MASK = b AND FRAME_SEQ_MASK \<longleftrightarrow> label_off base a = label_off base b"
proof -
  have "a AND FRAME_SEQ_MASK = b AND FRAME_SEQ_MASK \<longleftrightarrow> uint a mod 2 ^ 31 = uint b mod 2 ^ 31"
    by (simp only: word_uint_eq_iff uint_label)
  also have "\<dots> \<longleftrightarrow> (uint a - uint base) mod 2 ^ 31 = (uint b - uint base) mod 2 ^ 31"
    by (simp only: mod_eq_dvd_iff) simp
  also have "\<dots> \<longleftrightarrow> int (label_off base a) = int (label_off base b)" by (simp only: label_off_int)
  finally show ?thesis by simp
qed

lemma classify_by_position:
  assumes "label_off base held < 2 ^ 30" "label_off base new < 2 ^ 30"
  shows "classify_arrival g held g' new =
    (if label_off base held < label_off base new then NewGeneration
     else if label_off base new < label_off base held then Stale
     else if g' = g then Current else if generation_is_newer g' g then NewGeneration else Stale)"
  using same_label[of new held base] newer_label[of base "new AND FRAME_SEQ_MASK" "held AND FRAME_SEQ_MASK"] assms
  by (auto simp: classify_arrival_def)

subsection \<open>A run of arrivals\<close>

text \<open>
  The arrivals of one tile as \<^verbatim>\<open>deliver_tile\<close> applies them: the outcome's entry is stored
  when it is committed.
\<close>

record Arrival =
  ar_generation :: u8
  ar_pass :: u8
  ar_frame_seq :: u32
  ar_now :: nat
  ar_ok :: bool
  ar_present :: "u16 option"

definition cover :: "Arrival \<Rightarrow> CoverageEntry option \<Rightarrow> CoverageEntry option option" where
  "cover a prev =
     map_option (\<lambda>out. if ao_committed out then Some (ao_entry out) else prev)
       (apply_cdf53_arrival prev (ar_generation a) (ar_pass a) (ar_frame_seq a) (ar_now a) (ar_ok a) (ar_present a))"

primrec coverage_run :: "Arrival list \<Rightarrow> CoverageEntry option \<Rightarrow> CoverageEntry option option" where
  "coverage_run [] prev = Some prev"
| "coverage_run (a # as) prev = Option.bind (cover a prev) (coverage_run as)"

lemma coverage_run_snoc: "coverage_run (as @ [a]) prev = Option.bind (coverage_run as prev) (cover a)"
  by (induction as arbitrary: prev) (auto split: bind_split)

text \<open>
  What the arrivals have to be: positions within the serial range, pass indices of a tile, one
  generation and one bitmap to a label, and no bitmap from a pass that failed.
\<close>

definition well_labelled :: "u32 \<Rightarrow> Arrival list \<Rightarrow> bool" where
  "well_labelled base as \<longleftrightarrow>
     (\<forall>a \<in> set as. label_off base (ar_frame_seq a) < 2 ^ 30 \<and> ar_pass a < 14 \<and>
        (\<not> ar_ok a \<longrightarrow> ar_present a = None) \<and>
        (\<forall>b \<in> set as. label_off base (ar_frame_seq b) = label_off base (ar_frame_seq a) \<longrightarrow>
           ar_generation b = ar_generation a \<and>
           (ar_present a = None \<or> ar_present b = None \<or> ar_present a = ar_present b)))"

text \<open>The entry is the newest accepted label, with exactly what was accepted under it.\<close>

definition arrived :: "u32 \<Rightarrow> Arrival list \<Rightarrow> nat \<Rightarrow> Arrival set" where
  "arrived base as pos = set (filter (\<lambda>a. ar_ok a \<and> label_off base (ar_frame_seq a) = pos) as)"

definition covers :: "u32 \<Rightarrow> Arrival list \<Rightarrow> CoverageEntry \<Rightarrow> bool" where
  "covers base as e \<longleftrightarrow>
     (let now = arrived base as (label_off base (ce_frame_seq e)) in
      (\<exists>a \<in> now. ar_generation a = ce_generation e) \<and>
      (\<forall>a \<in> set as. ar_ok a \<longrightarrow> label_off base (ar_frame_seq a) \<le> label_off base (ce_frame_seq e)) \<and>
      (\<forall>p. bit (ce_pass_mask e) p \<longleftrightarrow> (\<exists>a \<in> now. unat (ar_pass a) = p)) \<and>
      (\<forall>m. ce_present_passes e = Some m \<longleftrightarrow> (\<exists>a \<in> now. ar_present a = Some m)))"

definition cov_inv :: "u32 \<Rightarrow> Arrival list \<Rightarrow> CoverageEntry option \<Rightarrow> bool" where
  "cov_inv base as st \<longleftrightarrow>
     (case st of None \<Rightarrow> \<forall>a \<in> set as. \<not> ar_ok a | Some e \<Rightarrow> covers base as e)"

lemma arrived_snoc:
  "arrived base (as @ [a]) pos =
     arrived base as pos \<union> (if ar_ok a \<and> label_off base (ar_frame_seq a) = pos then {a} else {})"
  by (auto simp: arrived_def)

lemma pass_bit: "unat (p :: u8) < 16 \<Longrightarrow> bit (2 ^ unat p :: u16) n \<longleftrightarrow> unat p = n"
  by (auto simp: bit_simps)

lemma arrival_entry_fields [simp]:
  "ce_generation (arrival_entry prev nw g p l t pr) = (if nw \<or> prev = None then g else ce_generation (the prev))"
  "ce_frame_seq (arrival_entry prev nw g p l t pr) = (if nw \<or> prev = None then l else ce_frame_seq (the prev))"
  "ce_pass_mask (arrival_entry prev nw g p l t pr) = (if nw \<or> prev = None then 0 else ce_pass_mask (the prev))"
  "ce_nacked_mask (arrival_entry prev nw g p l t pr) = (if nw \<or> prev = None then 0 else ce_nacked_mask (the prev))"
  "ce_present_passes (arrival_entry prev nw g p l t pr) =
     (if pr \<noteq> None then pr else if nw \<or> prev = None then None else ce_present_passes (the prev))"
  by (auto simp: arrival_entry_def fresh_entry_def Let_def split: option.split)

lemma accepted_fields [simp]:
  "ce_generation (ao_entry (accepted_arrival nw p t e)) = ce_generation e"
  "ce_frame_seq (ao_entry (accepted_arrival nw p t e)) = ce_frame_seq e"
  "ce_pass_mask (ao_entry (accepted_arrival nw p t e)) = ce_pass_mask e OR push_bit (unat p) 1"
  "ce_present_passes (ao_entry (accepted_arrival nw p t e)) = ce_present_passes e"
  "ao_committed (accepted_arrival nw p t e)"
  "ao_new_generation (accepted_arrival nw p t e) = nw"
  by (simp_all add: accepted_arrival_def Let_def)

lemma failed_fields [simp]:
  "ao_committed (failed_arrival prev nw p e) \<longleftrightarrow> \<not> nw"
  "\<not> nw \<Longrightarrow> ce_generation (ao_entry (failed_arrival prev nw p e)) = ce_generation e"
  "\<not> nw \<Longrightarrow> ce_frame_seq (ao_entry (failed_arrival prev nw p e)) = ce_frame_seq e"
  "\<not> nw \<Longrightarrow> ce_pass_mask (ao_entry (failed_arrival prev nw p e)) = ce_pass_mask e"
  "\<not> nw \<Longrightarrow> ce_present_passes (ao_entry (failed_arrival prev nw p e)) = ce_present_passes e"
  by (simp_all add: failed_arrival_def Let_def split: prod.split)

lemma cover_none:
  assumes "well_labelled base (as @ [a])" "\<forall>a \<in> set as. \<not> ar_ok a"
  shows "\<exists>st. cover a None = Some st \<and> cov_inv base (as @ [a]) st"
proof -
  have p: "unat (ar_pass a) < 14" "\<not> ar_ok a \<longrightarrow> ar_present a = None"
    using assms(1) by (auto simp: well_labelled_def word_less_nat_alt)
  have "arrived base (as @ [a]) (label_off base (ar_frame_seq a)) = (if ar_ok a then {a} else {})"
    using assms(2) by (auto simp: arrived_snoc arrived_def)
  then show ?thesis using p assms(2)
    by (auto simp: cover_def apply_cdf53_arrival_def arrival_order_def Let_def cov_inv_def covers_def pass_bit)
qed

lemma cover_stale:
  assumes "classify_arrival (ce_generation e) (ce_frame_seq e) (ar_generation a) (ar_frame_seq a) = Stale"
  shows "cover a (Some e) = Some (Some e)"
  using assms by (simp add: cover_def apply_cdf53_arrival_def arrival_order_def)

lemma cover_fresh:
  assumes "classify_arrival (ce_generation e) (ce_frame_seq e) (ar_generation a) (ar_frame_seq a) = NewGeneration"
    "unat (ar_pass a) < 14"
  shows "cover a (Some e) = Some (Some (if ar_ok a
    then ao_entry (accepted_arrival True (ar_pass a) (ar_now a)
           (arrival_entry (Some e) True (ar_generation a) (ar_pass a) (ar_frame_seq a) (ar_now a) (ar_present a)))
    else e))"
  using assms by (simp add: cover_def apply_cdf53_arrival_def arrival_order_def Let_def)

lemma cover_current:
  assumes "classify_arrival (ce_generation e) (ce_frame_seq e) (ar_generation a) (ar_frame_seq a) = Current"
    "unat (ar_pass a) < 14"
  obtains e' where "cover a (Some e) = Some (Some e')" "ce_generation e' = ce_generation e"
    "ce_frame_seq e' = ce_frame_seq e"
    "ce_pass_mask e' = (if ar_ok a then ce_pass_mask e OR push_bit (unat (ar_pass a)) 1 else ce_pass_mask e)"
    "ce_present_passes e' = (if ar_present a \<noteq> None then ar_present a else ce_present_passes e)"
  using assms by (cases "ar_ok a") (simp_all add: cover_def apply_cdf53_arrival_def arrival_order_def Let_def)

lemma well_labelledD:
  assumes "well_labelled base as" "a \<in> set as"
  shows "label_off base (ar_frame_seq a) < 2 ^ 30" "unat (ar_pass a) < 14" "\<not> ar_ok a \<Longrightarrow> ar_present a = None"
  using assms by (auto simp: well_labelled_def word_less_nat_alt)

lemma well_labelled_same:
  assumes "well_labelled base as" "a \<in> set as" "b \<in> set as"
    "label_off base (ar_frame_seq b) = label_off base (ar_frame_seq a)"
  shows "ar_generation b = ar_generation a" "ar_present a = Some m \<Longrightarrow> ar_present b = Some n \<Longrightarrow> m = n"
  using assms unfolding well_labelled_def by (metis option.inject option.distinct(1))+

lemma coversD:
  assumes "covers base as e"
  defines "now \<equiv> arrived base as (label_off base (ce_frame_seq e))"
  shows "\<exists>a \<in> now. ar_generation a = ce_generation e"
    "a \<in> set as \<Longrightarrow> ar_ok a \<Longrightarrow> label_off base (ar_frame_seq a) \<le> label_off base (ce_frame_seq e)"
    "bit (ce_pass_mask e) p \<longleftrightarrow> (\<exists>a \<in> now. unat (ar_pass a) = p)"
    "ce_present_passes e = Some m \<longleftrightarrow> (\<exists>a \<in> now. ar_present a = Some m)"
  using assms(1) unfolding covers_def Let_def now_def by blast+

lemma coversI:
  assumes "a \<in> arrived base as (label_off base (ce_frame_seq e))" "ar_generation a = ce_generation e"
    "\<And>a. a \<in> set as \<Longrightarrow> ar_ok a \<Longrightarrow> label_off base (ar_frame_seq a) \<le> label_off base (ce_frame_seq e)"
    "\<And>p. bit (ce_pass_mask e) p \<longleftrightarrow> (\<exists>a \<in> arrived base as (label_off base (ce_frame_seq e)). unat (ar_pass a) = p)"
    "\<And>m. ce_present_passes e = Some m \<longleftrightarrow>
       (\<exists>a \<in> arrived base as (label_off base (ce_frame_seq e)). ar_present a = Some m)"
  shows "covers base as e"
  unfolding covers_def Let_def using assms by blast

lemma covers_unchanged:
  assumes "covers base as e" "ar_ok a \<Longrightarrow> label_off base (ar_frame_seq a) < label_off base (ce_frame_seq e)"
  shows "covers base (as @ [a]) e"
proof -
  have "arrived base (as @ [a]) (label_off base (ce_frame_seq e)) = arrived base as (label_off base (ce_frame_seq e))"
    using assms(2) by (auto simp: arrived_snoc)
  then show ?thesis using assms unfolding covers_def Let_def by (auto simp del: One_nat_def)
qed

lemma covers_fresh:
  assumes "covers base as e" "label_off base (ce_frame_seq e) < label_off base (ar_frame_seq a)" "ar_ok a"
    "ce_generation e' = ar_generation a" "ce_frame_seq e' = ar_frame_seq a"
    "ce_pass_mask e' = push_bit (unat (ar_pass a)) 1" "ce_present_passes e' = ar_present a"
    "unat (ar_pass a) < 14"
  shows "covers base (as @ [a]) e'"
proof -
  let ?new = "label_off base (ar_frame_seq a)"
  have old: "label_off base (ar_frame_seq c) < ?new" if "c \<in> set as" "ar_ok c" for c
    using coversD(2)[OF assms(1) that] assms(2) by simp
  then have "arrived base as ?new = {}" by (fastforce simp: arrived_def)
  then have now: "arrived base (as @ [a]) (label_off base (ce_frame_seq e')) = {a}"
    using assms(3,5) by (simp add: arrived_snoc)
  show ?thesis
    by (rule coversI[of a], unfold now) (use assms(3-8) in \<open>auto simp: pass_bit dest: old\<close>)
qed

lemma covers_current:
  assumes wl: "well_labelled base (as @ [a])" and e: "covers base as e"
    and same: "label_off base (ar_frame_seq a) = label_off base (ce_frame_seq e)"
    and e': "ce_generation e' = ce_generation e" "ce_frame_seq e' = ce_frame_seq e"
      "ce_pass_mask e' = (if ar_ok a then ce_pass_mask e OR push_bit (unat (ar_pass a)) 1 else ce_pass_mask e)"
      "ce_present_passes e' = (if ar_present a \<noteq> None then ar_present a else ce_present_passes e)"
  shows "covers base (as @ [a]) e'"
proof -
  let ?old = "arrived base as (label_off base (ce_frame_seq e))"
  have a: "a \<in> set (as @ [a])" by simp
  note wa = well_labelledD(2,3)[OF wl a]
  have now: "arrived base (as @ [a]) (label_off base (ce_frame_seq e')) = (if ar_ok a then insert a ?old else ?old)"
    using same by (simp add: arrived_snoc e'(2))
  obtain b where b: "b \<in> ?old" "ar_generation b = ce_generation e" using coversD(1)[OF e] by blast
  have agree: "m = n" if "ar_present a = Some m" "c \<in> ?old" "ar_present c = Some n" for c m n
    using well_labelled_same(2)[OF wl a, of c m n] that same by (simp add: arrived_def)
  show ?thesis
  proof (rule coversI[of b], unfold now)
    show "b \<in> (if ar_ok a then insert a ?old else ?old)" using b by simp
    show "ar_generation b = ce_generation e'" using b e' by simp
    show "label_off base (ar_frame_seq c) \<le> label_off base (ce_frame_seq e')"
      if "c \<in> set (as @ [a])" "ar_ok c" for c
      using that coversD(2)[OF e] same e'(2) by auto
    show "bit (ce_pass_mask e') p \<longleftrightarrow> (\<exists>c \<in> (if ar_ok a then insert a ?old else ?old). unat (ar_pass c) = p)" for p
      using coversD(3)[OF e, of p] wa(1) by (simp add: e'(3) bit_or_iff pass_bit) blast
    show "ce_present_passes e' = Some m \<longleftrightarrow>
        (\<exists>c \<in> (if ar_ok a then insert a ?old else ?old). ar_present c = Some m)" for m
      using coversD(4)[OF e, of m] wa(2) agree by (cases "ar_present a") (auto simp: e'(4))
  qed
qed

lemma cover_some:
  assumes wl: "well_labelled base (as @ [a])" and e: "covers base as e"
  shows "\<exists>st. cover a (Some e) = Some st \<and> cov_inv base (as @ [a]) st"
proof -
  let ?pos = "label_off base (ce_frame_seq e)" and ?new = "label_off base (ar_frame_seq a)"
  have a: "a \<in> set (as @ [a])" by simp
  note wa = well_labelledD[OF wl a]
  obtain b where b: "b \<in> arrived base as ?pos" "ar_generation b = ce_generation e"
    using coversD(1)[OF e] by blast
  then have bs: "b \<in> set (as @ [a])" "label_off base (ar_frame_seq b) = ?pos" by (simp_all add: arrived_def)
  have held: "?pos < 2 ^ 30" using well_labelledD(1)[OF wl bs(1)] bs(2) by simp
  note cl = classify_by_position[OF held wa(1), of "ce_generation e" "ar_generation a"]
  consider (newer) "?pos < ?new" | (older) "?new < ?pos" | (same) "?new = ?pos" by linarith
  then show ?thesis
  proof cases
    case newer
    show ?thesis
    proof (cases "ar_ok a")
      case True
      show ?thesis using newer cl wa(2) True
        by (simp add: cover_fresh cov_inv_def) (rule covers_fresh[OF e newer True]; simp)
    next
      case False
      then have "covers base (as @ [a]) e" using covers_unchanged[OF e, of a] by simp
      then show ?thesis using newer cl wa(2) False by (simp add: cover_fresh cov_inv_def)
    qed
  next
    case older
    then show ?thesis using cl covers_unchanged[OF e, of a] by (simp add: cover_stale cov_inv_def)
  next
    case same
    have "ar_generation a = ce_generation e"
      using well_labelled_same(1)[OF wl bs(1) a] same bs(2) b(2) by simp
    then have "classify_arrival (ce_generation e) (ce_frame_seq e) (ar_generation a) (ar_frame_seq a) = Current"
      using cl same by simp
    then obtain e' where "cover a (Some e) = Some (Some e')" and e': "ce_generation e' = ce_generation e"
      "ce_frame_seq e' = ce_frame_seq e"
      "ce_pass_mask e' = (if ar_ok a then ce_pass_mask e OR push_bit (unat (ar_pass a)) 1 else ce_pass_mask e)"
      "ce_present_passes e' = (if ar_present a \<noteq> None then ar_present a else ce_present_passes e)"
      using wa(2) by (rule cover_current)
    then show ?thesis using covers_current[OF wl e same e'] by (simp add: cov_inv_def)
  qed
qed

lemma well_labelled_snoc: "well_labelled base (as @ [a]) \<Longrightarrow> well_labelled base as"
  unfolding well_labelled_def set_append by blast

lemma coverage_run_inv:
  "well_labelled base as \<Longrightarrow> \<exists>st. coverage_run as None = Some st \<and> cov_inv base as st"
proof (induction as rule: rev_induct)
  case (snoc a as)
  then obtain st where st: "coverage_run as None = Some st" "cov_inv base as st"
    using well_labelled_snoc by blast
  have "\<exists>st'. cover a st = Some st' \<and> cov_inv base (as @ [a]) st'"
  proof (cases st)
    case None
    then show ?thesis using cover_none[OF snoc.prems] st(2) by (simp add: cov_inv_def)
  next
    case (Some e)
    then show ?thesis using cover_some[OF snoc.prems] st(2) by (simp add: cov_inv_def)
  qed
  then show ?case using st(1) by (simp add: coverage_run_snoc)
qed (simp add: cov_inv_def)

section \<open>Properties\<close>

text \<open>
  C30. Validation is prevalidation without the planes.  For every payload and pass index the check that
  expands nothing and the one that expands fail with the same error, or both accept; the byte range the
  first returns lies in the payload and expands, into any buffer, to the planes of the second, and these
  are the planes of the reference pass decoder.
\<close>

theorem validation_agrees:
  "case validate_cdf53 payload pass_idx of
     Inl err \<Rightarrow> prevalidate_cdf53 payload g pass_idx = Inl err
   | Inr info \<Rightarrow> \<exists>planes. snd (wi_streams info) \<le> length payload \<and> length planes = 384 \<and>
       (\<forall>buf. length buf = 384 \<longrightarrow>
          decode_cdf53_wire (bslice (fst (wi_streams info)) (snd (wi_streams info)) payload) buf = Inr planes) \<and>
       prevalidate_cdf53 payload g pass_idx =
         Inr \<lparr> pre_generation = g, pre_pass_idx = pass_idx, pre_bit_planes = planes,
               pre_present_passes = wi_present_passes info \<rparr> \<and>
       decode_pass (unat pass_idx) payload = Some planes"
  by (rule validate_prevalidate)

theorem validation_agrees_witness:
  "\<exists>planes. decode_cdf53_wire [0, 1, 255, 0, 1, 255, 0, 1, 255] (replicate 384 7) = Inr planes \<and>
     prevalidate_cdf53 [0, 1, 255, 0, 1, 255, 0, 1, 255, 42] 2 5 =
       Inr \<lparr> pre_generation = 2, pre_pass_idx = 5, pre_bit_planes = planes, pre_present_passes = None \<rparr>"
proof -
  have "validate_cdf53 [0, 1, 255, 0, 1, 255, 0, 1, 255, 42] 5 =
      Inr \<lparr> wi_present_passes = None, wi_streams = (0, 9) \<rparr>"
    by code_simp
  then show ?thesis
    using validation_agrees[of "[0, 1, 255, 0, 1, 255, 0, 1, 255, 42]" 2 5]
    by (auto simp: bslice_def)
qed


text \<open>A late pass of the generation before, one that fails validation, and a label that has wrapped.\<close>

definition demo_arrivals :: "Arrival list" where
  "demo_arrivals =
     (let arr = (\<lambda>g p l ok pr. \<lparr> ar_generation = g, ar_pass = p, ar_frame_seq = l, ar_now = 0, ar_ok = ok, ar_present = pr \<rparr>)
      in [arr 15 0 0x7FFFFFFF True (Some 3), arr 0 0 4 True (Some 0x2003), arr 15 1 0x7FFFFFFF True None,
          arr 1 0 9 False None, arr 0 13 4 True None])"

lemma demo_positions:
  "label_off 0x7FFFFFF0 0x7FFFFFFF = 15" "label_off 0x7FFFFFF0 4 = 20" "label_off 0x7FFFFFF0 9 = 25"
  by (simp_all add: label_off_def FRAME_SEQ_MASK_def)


end
