(* ===== verification/Cdf53_Tiles.thy ===== *)
theory Cdf53_Tiles
  imports Cdf53_Client
begin

text \<open>
  \<^verbatim>\<open>cdf53_tile_state.rs\<close>: the bit planes the client has accumulated for a CDF 5/3 tile, and
  the pictures it draws from them as the resolved prefix of passes grows.
\<close>

section \<open>Accumulated planes and pictures\<close>

text \<open>Row by row into the tile's 32 rows of 128 bytes; \<open>None\<close> is the \<^verbatim>\<open>assert_eq!\<close>.\<close>

definition bgr_row :: "bytes \<Rightarrow> nat \<Rightarrow> bytes" where
  "bgr_row bgr y =
     concat (map (\<lambda>src. [src ! 2, src ! 1, src ! 0, 255]) (chunks 3 (bslice (y * 96) (y * 96 + 96) bgr)))"

definition write_bgr_rows :: "bytes \<Rightarrow> bytes list option" where
  "write_bgr_rows bgr = (if length bgr \<noteq> 1024 * 3 then None else Some (map (bgr_row bgr) [0..<32]))"

definition resolved_prefix :: "u16 \<Rightarrow> u16 option \<Rightarrow> nat" where
  "resolved_prefix received present_passes =
     (let resolved = (case present_passes of Some present \<Rightarrow> received OR NOT present | None \<Rightarrow> received)
      in length (takeWhile (\<lambda>i. resolved AND push_bit i 1 \<noteq> 0) [0..<CDF53_PASS_COUNT]))"

record TileEntry =
  te_generation :: u8
  te_generation_set :: bool
  te_planes :: "bytes option list"
  te_received :: u16
  te_present_passes :: "u16 option"
  te_drawn_prefix :: "nat option"

definition TileEntry_default :: TileEntry where
  "TileEntry_default =
     \<lparr> te_generation = 0, te_generation_set = False, te_planes = replicate CDF53_PASS_COUNT None,
       te_received = 0, te_present_passes = None, te_drawn_prefix = None \<rparr>"

definition prefix_len :: "TileEntry \<Rightarrow> nat" where
  "prefix_len t = resolved_prefix (te_received t) (te_present_passes t)"

type_synonym Cdf53TileState = "(u8 \<times> u8) \<rightharpoonup> TileEntry"

definition Cdf53TileState_new :: Cdf53TileState where "Cdf53TileState_new = (\<lambda>_. None)"

definition retain_tiles :: "(u8 \<Rightarrow> u8 \<Rightarrow> bool) \<Rightarrow> Cdf53TileState \<Rightarrow> Cdf53TileState" where
  "retain_tiles keep tiles = (\<lambda>(x, y). if keep x y then tiles (x, y) else None)"

definition begin_generation :: "u8 \<Rightarrow> TileEntry \<Rightarrow> TileEntry" where
  "begin_generation generation t =
     (if \<not> te_generation_set t \<or> te_generation t \<noteq> generation
      then \<lparr> te_generation = generation, te_generation_set = True, te_planes = replicate CDF53_PASS_COUNT None,
             te_received = 0, te_present_passes = None, te_drawn_prefix = None \<rparr>
      else t)"

definition store_pass :: "PrevalidatedCdf53 \<Rightarrow> TileEntry \<Rightarrow> TileEntry" where
  "store_pass entry t =
     (let t = begin_generation (pre_generation entry) t;
          idx = unat (pre_pass_idx entry);
          t = (if idx < CDF53_PASS_COUNT
               then t\<lparr> te_planes := (te_planes t)[idx := Some (pre_bit_planes entry)],
                       te_received := te_received t OR push_bit idx 1 \<rparr>
               else t)
      in case pre_present_passes entry of
           Some present \<Rightarrow> t\<lparr> te_present_passes := Some present \<rparr> | None \<Rightarrow> t)"

definition accumulate :: "u8 \<Rightarrow> u8 \<Rightarrow> PrevalidatedCdf53 \<Rightarrow> Cdf53TileState \<Rightarrow> bool \<times> Cdf53TileState" where
  "accumulate tile_x tile_y entry tiles =
     (let t = (case tiles (tile_x, tile_y) of Some t \<Rightarrow> t | None \<Rightarrow> TileEntry_default);
          t = store_pass entry t
      in (te_drawn_prefix t \<noteq> Some (prefix_len t), tiles((tile_x, tile_y) \<mapsto> t)))"

text \<open>
  The picture of one tile.  The outer \<open>None\<close> is a panic of \<^verbatim>\<open>decode_planes\<close> or
  \<^verbatim>\<open>inverse\<close>.
\<close>

definition draw_tile :: "TileEntry \<Rightarrow> (bytes option \<times> TileEntry) option" where
  "draw_tile t =
     (let n = prefix_len t in
      if te_drawn_prefix t = Some n then Some (None, t)
      else
        let plane_refs = map (\<lambda>p. case p of Some plane \<Rightarrow> plane | None \<Rightarrow> replicate 384 0) (take n (te_planes t)) in
        case decode_planes plane_refs of
          None \<Rightarrow> None
        | Some coefficients \<Rightarrow>
            if n < CDF53_PASS_COUNT \<and> (\<forall>c \<in> set coefficients. c = 0) then Some (None, t)
            else map_option (\<lambda>bgr. (Some bgr, t\<lparr> te_drawn_prefix := Some n \<rparr>)) (inverse coefficients))"

definition reconstruct :: "u8 \<Rightarrow> u8 \<Rightarrow> Cdf53TileState \<Rightarrow> (bytes option \<times> Cdf53TileState) option" where
  "reconstruct tile_x tile_y tiles =
     (case tiles (tile_x, tile_y) of
        None \<Rightarrow> Some (None, tiles)
      | Some t \<Rightarrow> map_option (\<lambda>(pic, t). (pic, tiles((tile_x, tile_y) \<mapsto> t))) (draw_tile t))"

definition integrate_bgr ::
    "u8 \<Rightarrow> u8 \<Rightarrow> PrevalidatedCdf53 \<Rightarrow> Cdf53TileState \<Rightarrow> (bytes option \<times> Cdf53TileState) option" where
  "integrate_bgr tile_x tile_y entry tiles =
     (case accumulate tile_x tile_y entry tiles of
        (False, tiles) \<Rightarrow> Some (None, tiles)
      | (True, tiles) \<Rightarrow> reconstruct tile_x tile_y tiles)"

definition integrate ::
    "u8 \<Rightarrow> u8 \<Rightarrow> PrevalidatedCdf53 \<Rightarrow> Cdf53TileState \<Rightarrow> (bytes option \<times> Cdf53TileState) option" where
  "integrate tile_x tile_y entry tiles =
     (case integrate_bgr tile_x tile_y entry tiles of
        None \<Rightarrow> None
      | Some (None, tiles) \<Rightarrow> Some (None, tiles)
      | Some (Some bgr, tiles) \<Rightarrow> map_option (\<lambda>rows. (Some (concat rows), tiles)) (write_bgr_rows bgr))"

definition forget_tile :: "u8 \<Rightarrow> u8 \<Rightarrow> Cdf53TileState \<Rightarrow> Cdf53TileState" where
  "forget_tile tile_x tile_y tiles = tiles((tile_x, tile_y) := None)"

definition Cdf53TileState_reset :: "Cdf53TileState \<Rightarrow> Cdf53TileState" where
  "Cdf53TileState_reset tiles = (\<lambda>_. None)"

section \<open>The resolved prefix\<close>

text \<open>The passes \<open>S\<close> of a tile with bitmap \<open>present\<close> have arrived: the prefix that can be drawn.\<close>

definition ready :: "u16 \<Rightarrow> nat set \<Rightarrow> nat \<Rightarrow> bool" where
  "ready present S i \<longleftrightarrow> i \<in> S \<or> (0 \<in> S \<and> \<not> bit present i)"

definition ready_prefix :: "u16 \<Rightarrow> nat set \<Rightarrow> nat" where
  "ready_prefix present S = length (takeWhile (ready present S) [0..<14])"

lemma bit_test: "x AND push_bit i 1 \<noteq> 0 \<longleftrightarrow> bit x i" for x :: u16
  using and_exp_eq_0_iff_not_bit[of x i] by simp

lemma resolved_prefix_ready:
  assumes "\<And>i. i < 14 \<Longrightarrow> bit received i \<longleftrightarrow> i \<in> S" "bits = (if 0 \<in> S then Some present else None)"
  shows "resolved_prefix received bits = ready_prefix present S"
proof -
  have "bit (case bits of Some present \<Rightarrow> received OR NOT present | None \<Rightarrow> received) i \<longleftrightarrow> ready present S i"
    if "i < 14" for i
    using that assms(1)[OF that] by (auto simp: assms(2) ready_def bit_or_iff bit_not_iff)
  then show ?thesis
    unfolding resolved_prefix_def ready_prefix_def Let_def bit_test
    by (intro arg_cong[of _ _ length] takeWhile_cong) simp_all
qed

lemma ready_prefix_le: "ready_prefix present S \<le> 14"
  using length_takeWhile_le[of "ready present S" "[0..<14]"] by (simp add: ready_prefix_def)

lemma ready_below: "i < ready_prefix present S \<Longrightarrow> ready present S i"
  using nth_mem[of i "takeWhile (ready present S) [0..<14]"] set_takeWhileD[of _ "ready present S" "[0..<14]"]
    takeWhile_nth[of i "ready present S" "[0..<14]"] ready_prefix_le[of present S]
  by (auto simp: ready_prefix_def simp del: upt_rec_numeral)

lemma ready_prefix_mono:
  assumes "S \<subseteq> T" shows "ready_prefix present S \<le> ready_prefix present T"
proof (rule ccontr)
  assume less: "\<not> ?thesis"
  then have n: "ready_prefix present T < 14" using ready_prefix_le[of present S] by simp
  have "\<not> ready present T ([0..<14] ! ready_prefix present T)"
    using n nth_length_takeWhile[of "ready present T" "[0..<14]"] by (simp add: ready_prefix_def del: upt_rec_numeral)
  moreover have "ready present S (ready_prefix present T)" using less by (intro ready_below) simp
  ultimately show False using n assms by (auto simp: ready_def simp del: upt_rec_numeral)
qed

lemma ready_prefix_all:
  assumes "\<And>i. i < 14 \<Longrightarrow> ready present S i" shows "ready_prefix present S = 14"
proof -
  have "takeWhile (ready present S) [0..<14] = [0..<14]" using assms by (simp add: takeWhile_eq_all_conv)
  then show ?thesis by (simp only: ready_prefix_def length_upt)
qed

section \<open>What a tile holds\<close>

definition holds :: "int list \<Rightarrow> u16 \<Rightarrow> u8 \<Rightarrow> nat set \<Rightarrow> TileEntry \<Rightarrow> bool" where
  "holds cs present g S t \<longleftrightarrow>
     te_generation_set t \<and> te_generation t = g \<and>
     te_planes t = map (\<lambda>p. if p \<in> S then Some (pass_plane cs p) else None) [0..<14] \<and>
     (\<forall>p < 14. bit (te_received t) p \<longleftrightarrow> p \<in> S) \<and>
     te_present_passes t = (if 0 \<in> S then Some present else None)"

definition pass_of :: "int list \<Rightarrow> u16 \<Rightarrow> u8 \<Rightarrow> nat \<Rightarrow> PrevalidatedCdf53" where
  "pass_of cs present g p =
     \<lparr> pre_generation = g, pre_pass_idx = of_nat p, pre_bit_planes = pass_plane cs p,
       pre_present_passes = if p = 0 then Some present else None \<rparr>"

lemma unat_of_nat_pass: "p < 14 \<Longrightarrow> unat (of_nat p :: u8) = p"
  by (simp add: unat_of_nat)

lemma holds_begin:
  "\<not> te_generation_set t \<or> te_generation t \<noteq> g \<Longrightarrow>
     holds cs present g {} (begin_generation g t) \<and> te_drawn_prefix (begin_generation g t) = None"
  by (auto simp: holds_def begin_generation_def map_replicate_const)

lemma begin_held: "holds cs present g S t \<Longrightarrow> begin_generation g t = t"
  by (simp add: holds_def begin_generation_def)

lemma holds_store:
  assumes "holds cs present g S (begin_generation g t)" "p < 14"
  shows "holds cs present g (insert p S) (store_pass (pass_of cs present g p) t)"
    "te_drawn_prefix (store_pass (pass_of cs present g p) t) = te_drawn_prefix (begin_generation g t)"
proof -
  have "(map (\<lambda>q. if q \<in> S then Some (pass_plane cs q) else None) [0..<14])[p := Some (pass_plane cs p)] =
      map (\<lambda>q. if q \<in> insert p S then Some (pass_plane cs q) else None) [0..<14]"
    using assms(2) by (intro nth_equalityI) (auto simp: nth_list_update simp del: upt_rec_numeral)
  moreover have "bit (r OR push_bit p 1 :: u16) q \<longleftrightarrow> bit r q \<or> q = p" if "q < 14" for r q
    using that assms(2) by (auto simp: bit_or_iff bit_exp_iff)
  ultimately show "holds cs present g (insert p S) (store_pass (pass_of cs present g p) t)"
    using assms by (auto simp: holds_def store_pass_def pass_of_def Let_def unat_of_nat_pass simp del: upt_rec_numeral)
  show "te_drawn_prefix (store_pass (pass_of cs present g p) t) = te_drawn_prefix (begin_generation g t)"
    by (simp add: store_pass_def pass_of_def Let_def split: if_splits)
qed

lemma holds_prefix: "holds cs present g S t \<Longrightarrow> prefix_len t = ready_prefix present S"
  unfolding prefix_len_def holds_def by (rule resolved_prefix_ready) auto

text \<open>The planes below the prefix are the tile's own: one that was not sent is empty.\<close>

lemma holds_planes:
  assumes "holds cs present g S t" "length cs = 3072" "present = present_bitmap cs"
  shows "map (\<lambda>p. case p of Some plane \<Rightarrow> plane | None \<Rightarrow> replicate 384 0) (take (prefix_len t) (te_planes t)) =
    map (pass_plane cs) [0..<ready_prefix present S]"
proof (rule nth_equalityI)
  have n: "ready_prefix present S \<le> 14" by (rule ready_prefix_le)
  show "length (map (\<lambda>p. case p of Some plane \<Rightarrow> plane | None \<Rightarrow> replicate 384 0)
      (take (prefix_len t) (te_planes t))) = length (map (pass_plane cs) [0..<ready_prefix present S])"
    using assms(1) n by (simp add: holds_prefix[OF assms(1)] holds_def del: upt_rec_numeral)
  fix i assume "i < length (map (\<lambda>p. case p of Some plane \<Rightarrow> plane | None \<Rightarrow> replicate 384 0)
      (take (prefix_len t) (te_planes t)))"
  then have i: "i < ready_prefix present S" "i < 14" using holds_prefix[OF assms(1)] n by auto
  have "i \<notin> S \<Longrightarrow> pass_plane cs i = replicate 384 0"
    using ready_below[OF i(1)] i(2) assms(2,3) not_any_set[OF assms(2)]
    by (auto simp: ready_def bit_present_bitmap)
  then show "map (\<lambda>p. case p of Some plane \<Rightarrow> plane | None \<Rightarrow> replicate 384 0)
      (take (prefix_len t) (te_planes t)) ! i = map (pass_plane cs) [0..<ready_prefix present S] ! i"
    using i assms(1) by (simp add: holds_prefix[OF assms(1)] holds_def del: upt_rec_numeral)
qed

section \<open>Pictures\<close>

text \<open>The picture of the first \<open>k\<close> passes, and the prefixes that carry no magnitude yet.\<close>

definition picture :: "int list \<Rightarrow> nat \<Rightarrow> bytes option" where
  "picture cs k =
     Option.bind (decode_planes (map (pass_plane cs) [0..<k])) (\<lambda>ds.
     Option.bind (inverse ds) (\<lambda>bgr. map_option concat (write_bgr_rows bgr)))"

definition blank :: "int list \<Rightarrow> nat \<Rightarrow> bool" where
  "blank cs k \<longleftrightarrow> k < 14 \<and>
     (case decode_planes (map (pass_plane cs) [0..<k]) of None \<Rightarrow> False | Some ds \<Rightarrow> \<forall>c \<in> set ds. c = 0)"

lemma prefix_decodes:
  assumes "k \<le> 14"
  obtains ds bgr where "decode_planes (map (pass_plane cs) [0..<k]) = Some ds" "inverse ds = Some bgr"
    "length bgr = 3072"
proof -
  obtain ds where ds: "decode_planes (map (pass_plane cs) [0..<k]) = Some ds"
    using assms by (auto simp: decode_planes_def)
  then obtain bgr where "inverse ds = Some bgr" "length bgr = 3072"
    using length_decode_planes[OF ds] by (auto simp: inverse_def Let_def simp del: upt_rec_numeral)
  then show thesis using that ds by blast
qed

definition tile_at :: "u8 \<Rightarrow> u8 \<Rightarrow> u8 \<Rightarrow> Cdf53TileState \<Rightarrow> TileEntry" where
  "tile_at g x y tiles =
     begin_generation g (case tiles (x, y) of Some t \<Rightarrow> t | None \<Rightarrow> TileEntry_default)"

lemma holds_drawn [simp]: "holds cs present g S (t\<lparr> te_drawn_prefix := d \<rparr>) = holds cs present g S t"
  by (simp add: holds_def)

lemma tile_at_update: "holds cs present g S t \<Longrightarrow> tile_at g x y (tiles((x, y) \<mapsto> t)) = t"
  by (simp add: tile_at_def begin_held)

lemma integrate_step:
  assumes h: "holds cs present g S (tile_at g x y tiles)" and p: "p < 14"
    and cs: "length cs = 3072" "present = present_bitmap cs"
  defines "n \<equiv> ready_prefix present (insert p S)"
    and "skip \<equiv> te_drawn_prefix (tile_at g x y tiles) = Some (ready_prefix present (insert p S)) \<or>
                blank cs (ready_prefix present (insert p S))"
  obtains pic tiles' where "integrate x y (pass_of cs present g p) tiles = Some (pic, tiles')"
    "pic = (if skip then None else picture cs n)" "skip \<or> pic \<noteq> None"
    "holds cs present g (insert p S) (tile_at g x y tiles')"
    "te_drawn_prefix (tile_at g x y tiles') = (if skip then te_drawn_prefix (tile_at g x y tiles) else Some n)"
    "\<forall>q. q \<noteq> (x, y) \<longrightarrow> tiles' q = tiles q"
proof -
  define t where "t = (case tiles (x, y) of Some t \<Rightarrow> t | None \<Rightarrow> TileEntry_default)"
  define t' where "t' = store_pass (pass_of cs present g p) t"
  have h': "holds cs present g (insert p S) t'" and d: "te_drawn_prefix t' = te_drawn_prefix (tile_at g x y tiles)"
    using holds_store[of cs present g S t p] h p by (simp_all add: t'_def t_def tile_at_def)
  have n: "prefix_len t' = n" "n \<le> 14" using holds_prefix[OF h'] ready_prefix_le by (simp_all add: n_def)
  obtain ds bgr where ds: "decode_planes (map (pass_plane cs) [0..<n]) = Some ds" "inverse ds = Some bgr"
    "length bgr = 3072" using prefix_decodes[OF n(2)] .
  have pl: "map (\<lambda>p. case p of Some plane \<Rightarrow> plane | None \<Rightarrow> replicate 384 0) (take n (te_planes t')) =
      map (pass_plane cs) [0..<n]"
    using holds_planes[OF h' cs] by (simp add: n n_def)
  have draw: "draw_tile t' = Some (if skip then (None, t') else (Some bgr, t'\<lparr> te_drawn_prefix := Some n \<rparr>))"
    unfolding draw_tile_def Let_def n pl using ds
    by (auto simp: skip_def d n_def[symmetric] blank_def)
  have pic: "picture cs n = Some (concat (map (bgr_row bgr) [0..<32]))"
    using ds by (simp add: picture_def write_bgr_rows_def del: upt_rec_numeral)
  let ?t = "if skip then t' else t'\<lparr> te_drawn_prefix := Some n \<rparr>"
  have int: "integrate x y (pass_of cs present g p) tiles =
      Some (if skip then None else picture cs n, tiles((x, y) \<mapsto> ?t))"
    using draw ds(3) d
    by (auto simp: integrate_def integrate_bgr_def accumulate_def reconstruct_def t_def[symmetric] t'_def[symmetric]
        Let_def n skip_def n_def[symmetric] pic write_bgr_rows_def simp del: upt_rec_numeral split: bool.split)
  have "holds cs present g (insert p S) ?t" using h' by simp
  then show thesis
    by (rule that[OF int refl, rotated 1, unfolded tile_at_update[OF \<open>holds cs present g (insert p S) ?t\<close>]])
      (use pic d in auto)
qed

section \<open>A run of arrivals\<close>

text \<open>Payloads of one generation as they arrive: each is validated and integrated.\<close>

fun integrate_all ::
    "u8 \<Rightarrow> u8 \<Rightarrow> u8 \<Rightarrow> (u8 \<times> bytes) list \<Rightarrow> Cdf53TileState \<Rightarrow> (bytes list \<times> Cdf53TileState) option" where
  "integrate_all x y g [] tiles = Some ([], tiles)"
| "integrate_all x y g ((p, payload) # ps) tiles =
     (case prevalidate_cdf53 payload g p of
        Inl _ \<Rightarrow> integrate_all x y g ps tiles
      | Inr pre \<Rightarrow> Option.bind (integrate x y pre tiles) (\<lambda>(pic, tiles).
          map_option (\<lambda>(pics, tiles). (case pic of Some a \<Rightarrow> a # pics | None \<Rightarrow> pics, tiles))
            (integrate_all x y g ps tiles)))"

lemma sparse_pass:
  assumes "encode_passes_sparse cs = Some (present, passes)" "(i, payload) \<in> set passes"
  obtains p where "p < 14" "i = of_nat p" "bit present p"
    "prevalidate_cdf53 payload g i = Inr (pass_of cs present g p)"
proof -
  have len: "length cs = 3072" and pr: "present = present_bitmap cs" and
    ps: "passes = map (\<lambda>p. (of_nat p, pass_payload present p (channel_planes cs p)))
           (filter (\<lambda>p. present AND push_bit p 1 \<noteq> 0) [0..<14])"
    using assms(1) by (auto simp: encode_passes_sparse_def Let_def simp del: upt_rec_numeral split: if_splits)
  obtain p where p: "p < 14" "bit present p" "i = of_nat p" "payload = pass_payload present p (channel_planes cs p)"
    using assms(2) unfolding ps bit_test by auto
  have "bit present 0" using bit_present_bitmap[of 0 cs] pr by simp
  have sh: "length (channel_planes cs p) = 3" "\<And>q. q \<in> set (channel_planes cs p) \<Longrightarrow> length q = 128"
    using channel_planes_shape[OF len] by auto
  from \<open>bit present 0\<close> show thesis
    using that p prevalidate_encoded[OF sh _ p(1), of present "[]" g]
    by (simp add: pass_of_def pass_plane_def)
qed

lemma sparse_passes_indices:
  assumes "encode_passes_sparse cs = Some (present, passes)"
  shows "fst ` set passes = of_nat ` {p. p < 14 \<and> bit present p}"
proof -
  have "passes = map (\<lambda>p. (of_nat p, pass_payload present p (channel_planes cs p)))
           (filter (\<lambda>p. present AND push_bit p 1 \<noteq> 0) [0..<14])"
    using assms by (auto simp: encode_passes_sparse_def Let_def simp del: upt_rec_numeral split: if_splits)
  then show ?thesis unfolding bit_test by (force simp del: upt_rec_numeral)
qed

text \<open>
  The state of a run: what is held, what was drawn last, and that nothing drawn is left to draw once a
  pass has arrived.
\<close>

lemma integrate_all_run:
  assumes e: "encode_passes_sparse cs = Some (present, passes)"
    and "set arrivals \<subseteq> set passes" "holds cs present g S (tile_at g x y tiles)"
    "\<And>k. te_drawn_prefix (tile_at g x y tiles) = Some k \<Longrightarrow> k \<le> ready_prefix present S"
  defines "T \<equiv> S \<union> unat ` fst ` set arrivals"
  shows "\<exists>ks pics tiles'. integrate_all x y g arrivals tiles = Some (pics, tiles') \<and>
    map Some pics = map (picture cs) ks \<and> sorted_wrt (<) ks \<and>
    (\<forall>k \<in> set ks. k \<le> ready_prefix present T \<and> \<not> blank cs k \<and>
       (\<forall>d. te_drawn_prefix (tile_at g x y tiles) = Some d \<longrightarrow> d < k)) \<and>
    holds cs present g T (tile_at g x y tiles') \<and>
    te_drawn_prefix (tile_at g x y tiles') =
      (if ks = [] then te_drawn_prefix (tile_at g x y tiles) else Some (last ks)) \<and>
    (arrivals \<noteq> [] \<longrightarrow> te_drawn_prefix (tile_at g x y tiles') = Some (ready_prefix present T) \<or>
       blank cs (ready_prefix present T)) \<and>
    (\<forall>q. q \<noteq> (x, y) \<longrightarrow> tiles' q = tiles q)"
  using assms(2-4) unfolding T_def
proof (induction arrivals arbitrary: S tiles)
  case Nil
  show ?case by (rule exI[of _ "[]"], rule exI[of _ "[]"], rule exI[of _ tiles]) (use Nil in simp)
next
  case (Cons a arrivals)
  obtain i payload where a: "a = (i, payload)" by (cases a)
  have cs: "length cs = 3072" "present = present_bitmap cs"
    using e by (auto simp: encode_passes_sparse_def Let_def simp del: upt_rec_numeral split: if_splits)
  obtain p where p: "p < 14" "i = of_nat p" "prevalidate_cdf53 payload g i = Inr (pass_of cs present g p)"
    using sparse_pass[OF e] Cons.prems(1) a by (metis insert_subset list.simps(15))
  let ?n = "ready_prefix present (insert p S)" and ?d = "te_drawn_prefix (tile_at g x y tiles)"
  let ?skip = "?d = Some ?n \<or> blank cs ?n"
  obtain pic tiles1 where st: "integrate x y (pass_of cs present g p) tiles = Some (pic, tiles1)"
    "pic = (if ?skip then None else picture cs ?n)" "?skip \<or> pic \<noteq> None"
    "holds cs present g (insert p S) (tile_at g x y tiles1)"
    "te_drawn_prefix (tile_at g x y tiles1) = (if ?skip then ?d else Some ?n)"
    "\<forall>q. q \<noteq> (x, y) \<longrightarrow> tiles1 q = tiles q"
    by (rule integrate_step[OF Cons.prems(2) p(1) cs]) (rule that; assumption)
  have mono: "ready_prefix present S \<le> ?n" by (rule ready_prefix_mono) auto
  have dn: "k \<le> ?n" if "te_drawn_prefix (tile_at g x y tiles1) = Some k" for k
    using that st(5) Cons.prems(3) mono by (auto split: if_splits intro: order_trans)
  have sub: "set arrivals \<subseteq> set passes" using Cons.prems(1) by simp
  have T: "insert p S \<union> unat ` fst ` set arrivals = S \<union> unat ` fst ` set (a # arrivals)"
    using p by (simp add: a unat_of_nat_pass)
  let ?T = "S \<union> unat ` fst ` set (a # arrivals)"
  obtain ks pics tiles' where r: "integrate_all x y g arrivals tiles1 = Some (pics, tiles')"
    "map Some pics = map (picture cs) ks" "sorted_wrt (<) ks"
    "\<And>k. k \<in> set ks \<Longrightarrow> k \<le> ready_prefix present ?T \<and> \<not> blank cs k \<and>
       (\<forall>d. te_drawn_prefix (tile_at g x y tiles1) = Some d \<longrightarrow> d < k)"
    "holds cs present g ?T (tile_at g x y tiles')"
    "te_drawn_prefix (tile_at g x y tiles') =
      (if ks = [] then te_drawn_prefix (tile_at g x y tiles1) else Some (last ks))"
    "arrivals \<noteq> [] \<Longrightarrow> te_drawn_prefix (tile_at g x y tiles') = Some (ready_prefix present ?T) \<or>
       blank cs (ready_prefix present ?T)"
    "\<forall>q. q \<noteq> (x, y) \<longrightarrow> tiles' q = tiles1 q"
    using Cons.IH[OF sub st(4) dn] unfolding T by blast
  have le: "?n \<le> ready_prefix present ?T" by (rule ready_prefix_mono) (use T in auto)
  have fin: "te_drawn_prefix (tile_at g x y tiles') = Some (ready_prefix present ?T) \<or> blank cs (ready_prefix present ?T)"
  proof (cases "arrivals = []")
    case True
    then have "?T = insert p S" using T by simp
    moreover have "tiles' = tiles1" using r(1) True by simp
    ultimately show ?thesis using st(5) by (auto split: if_splits)
  qed (use r(7) in blast)
  show ?case
  proof (cases ?skip)
    case True
    have "integrate_all x y g (a # arrivals) tiles = Some (pics, tiles')"
      using st(1,2) r(1) p(3) True by (simp add: a)
    then show ?thesis using r st fin True by (intro exI[of _ ks] exI[of _ pics] exI[of _ tiles']) simp
  next
    case False
    obtain img where img: "pic = Some img" "picture cs ?n = Some img" using False st(2,3) by auto
    have "integrate_all x y g (a # arrivals) tiles = Some (img # pics, tiles')"
      using st(1) r(1) p(3) img by (simp add: a)
    moreover have d: "k < ?n" if "?d = Some k" for k
      using False Cons.prems(3)[OF that] mono that by (metis le_neq_implies_less order_trans)
    have above: "\<And>k. k \<in> set ks \<Longrightarrow> ?n < k" using r(4) st(5) False by simp
    have "\<forall>k \<in> set (?n # ks). k \<le> ready_prefix present ?T \<and> \<not> blank cs k \<and> (\<forall>d. ?d = Some d \<longrightarrow> d < k)"
    proof
      fix k assume "k \<in> set (?n # ks)"
      then consider "k = ?n" | "k \<in> set ks" by auto
      then show "k \<le> ready_prefix present ?T \<and> \<not> blank cs k \<and> (\<forall>d. ?d = Some d \<longrightarrow> d < k)"
        by cases (use False le d r(4) less_trans[OF d above] in auto)
    qed
    moreover have "map Some (img # pics) = map (picture cs) (?n # ks)" "sorted_wrt (<) (?n # ks)"
      using img r(2,3) above by simp_all
    moreover have "te_drawn_prefix (tile_at g x y tiles') = Some (last (?n # ks))"
      using r(6) st(5) False by simp
    ultimately show ?thesis using r(5,8) st(6) fin
      by (intro exI[of _ "?n # ks"] exI[of _ "img # pics"] exI[of _ tiles']) simp
  qed
qed

section \<open>The pixels of a tile\<close>

lemma chunks_exact:
  "0 < n \<Longrightarrow> length xs = k * n \<Longrightarrow> chunks n xs = map (\<lambda>i. bslice (i * n) (i * n + n) xs) [0..<k]"
proof (induction k arbitrary: xs)
  case (Suc k)
  then have "chunks n xs = take n xs # chunks n (drop n xs)" by (intro chunks_step) auto
  also have "chunks n (drop n xs) = map (\<lambda>i. bslice (i * n) (i * n + n) (drop n xs)) [0..<k]"
    using Suc by simp
  finally show ?case
    by (simp add: bslice_def upt_conv_Cons map_Suc_upt[symmetric] add.commute del: upt_Suc)
qed simp

definition tile_rgba :: "bytes \<Rightarrow> bytes" where
  "tile_rgba tile_bgra =
     concat (map (\<lambda>i. [tile_bgra ! (4 * i + 2), tile_bgra ! (4 * i + 1), tile_bgra ! (4 * i), 255]) [0..<1024])"

lemma concat_rows: "concat (map (\<lambda>y. concat (map (\<lambda>x. f (y * w + x)) [0..<w])) [0..<h]) = concat (map f [0..<h * w])"
proof (induction h)
  case (Suc h)
  have "map f [h * w..<h * w + w] = map (\<lambda>x. f (h * w + x)) [0..<w]"
    by (intro nth_equalityI) simp_all
  moreover have "[0..<Suc h * w] = [0..<h * w] @ [h * w..<h * w + w]"
    using upt_add_eq_append[of 0 "h * w" w] by (simp add: add.commute)
  ultimately show ?case using Suc by (simp only: map_append concat_append upt_Suc_append list.map concat.simps) simp
qed simp

lemma rows_of_tile:
  assumes "length t = 4096"
  shows "map_option concat (write_bgr_rows (tile_bgr t)) = Some (tile_rgba t)"
proof -
  let ?px = "\<lambda>i. [t ! (4 * i + 2), t ! (4 * i + 1), t ! (4 * i), 255]"
  have len: "length (tile_bgr t) = 3072" by (simp add: tile_bgr_def)
  have nth: "tile_bgr t ! j = t ! (j div 3 * 4 + j mod 3)" if "j < 3072" for j
    using that by (simp add: tile_bgr_def del: upt_rec_numeral)
  have row: "bgr_row (tile_bgr t) y = concat (map (\<lambda>x. ?px (y * 32 + x)) [0..<32])" if "y < 32" for y
  proof -
    let ?row = "bslice (y * 96) (y * 96 + 96) (tile_bgr t)"
    have "length ?row = 32 * 3" using that len by simp
    then have "chunks 3 ?row = map (\<lambda>i. bslice (i * 3) (i * 3 + 3) ?row) [0..<32]" by (intro chunks_exact) simp
    moreover have px: "bslice (i * 3) (i * 3 + 3) ?row ! c = t ! (4 * (y * 32 + i) + c)" if "i < 32" "c < 3" for i c
    proof -
      have "bslice (i * 3) (i * 3 + 3) ?row ! c = tile_bgr t ! ((y * 32 + i) * 3 + c)"
        using that len \<open>y < 32\<close> by (simp add: bslice_def algebra_simps)
      also have "\<dots> = t ! ((y * 32 + i) * 4 + c)"
      proof -
        have q: "(q * 3 + c) div 3 = q" "(q * 3 + c) mod 3 = c" for q using \<open>c < 3\<close> by simp_all
        have "(y * 32 + i) * 3 + c < 3072" using that \<open>y < 32\<close> by simp
        then show ?thesis by (simp only: nth q)
      qed
      finally show ?thesis by (simp add: mult.commute)
    qed
    ultimately have "bgr_row (tile_bgr t) y = concat (map (\<lambda>i. let src = bslice (i * 3) (i * 3 + 3) ?row in
        [src ! 2, src ! 1, src ! 0, 255]) [0..<32])"
      by (simp only: bgr_row_def map_map o_def Let_def)
    also have "\<dots> = concat (map (\<lambda>x. ?px (y * 32 + x)) [0..<32])"
    proof (intro arg_cong[of _ _ concat] map_cong refl)
      fix i :: nat assume "i \<in> set [0..<32]"
      then have "i < 32" by simp
      from px[OF this, of 2] px[OF this, of 1] px[OF this, of 0]
      show "(let src = bslice (i * 3) (i * 3 + 3) ?row in [src ! 2, src ! 1, src ! 0, 255]) = ?px (y * 32 + i)"
        by (simp only: Let_def) simp
    qed
    finally show ?thesis .
  qed
  have "map (bgr_row (tile_bgr t)) [0..<32] = map (\<lambda>y. concat (map (\<lambda>x. ?px (y * 32 + x)) [0..<32])) [0..<32]"
    by (intro map_cong refl) (simp add: row del: upt_rec_numeral)
  then have "concat (map (bgr_row (tile_bgr t)) [0..<32]) = concat (map ?px [0..<32 * 32])"
    using concat_rows[of ?px 32 32] by (simp only:)
  then show ?thesis by (simp add: write_bgr_rows_def len tile_rgba_def del: upt_rec_numeral)
qed

lemma full_picture:
  assumes "forward t = Some cs" shows "picture cs 14 = Some (tile_rgba t)"
proof -
  have "length t = 4096" using assms by (simp add: forward_def split: if_splits)
  then show ?thesis
    using rows_of_tile decode_planes_exact[OF forward_pass_range[OF assms]] inverse_forward[OF assms]
    by (simp add: picture_def del: upt_rec_numeral)
qed

section \<open>Properties\<close>

text \<open>
  C32. A tile converges, in any order.  Let a tile be transformed and sparse-encoded, and let its passes
  reach a client that does not hold this generation of it, in any order and any number of times.  Every
  pass is accepted, nothing panics, no other tile is touched, and once each pass has arrived at least
  once the last picture drawn is exactly the tile's pixels.
\<close>

theorem tile_converges:
  assumes "forward tile = Some cs" "encode_passes_sparse cs = Some (present, passes)"
    and "set arrivals = set passes"
    and "case tiles (x, y) of None \<Rightarrow> True | Some t \<Rightarrow> \<not> te_generation_set t \<or> te_generation t \<noteq> g"
  shows "\<exists>pics tiles'. integrate_all x y g arrivals tiles = Some (pics, tiles') \<and>
    pics \<noteq> [] \<and> last pics = tile_rgba tile \<and> (\<forall>q. q \<noteq> (x, y) \<longrightarrow> tiles' q = tiles q)"
proof -
  have new: "holds cs present g {} (tile_at g x y tiles)" "te_drawn_prefix (tile_at g x y tiles) = None"
    using assms(4) holds_begin[of _ g cs present] by (auto simp: tile_at_def TileEntry_default_def split: option.splits)
  have p0: "bit present 0" using assms(2) bit_present_bitmap[of 0 cs]
    by (auto simp: encode_passes_sparse_def Let_def simp del: upt_rec_numeral split: if_splits)
  have T: "unat ` fst ` set arrivals = {p. p < 14 \<and> bit present p}"
    unfolding assms(3) sparse_passes_indices[OF assms(2)] image_image
    by (auto simp: unat_of_nat_pass image_iff)
  have full: "ready_prefix present (unat ` fst ` set arrivals) = 14"
    by (rule ready_prefix_all) (use p0 in \<open>auto simp: T ready_def\<close>)
  have "passes \<noteq> []" using sparse_passes_indices[OF assms(2)] p0 by auto
  then have "arrivals \<noteq> []" using assms(3) by auto
  have nb: "\<not> blank cs 14" by (simp add: blank_def)
  have sub: "set arrivals \<subseteq> set passes" using assms(3) by simp
  have run: "\<exists>ks pics tiles'. integrate_all x y g arrivals tiles = Some (pics, tiles') \<and>
      map Some pics = map (picture cs) ks \<and>
      te_drawn_prefix (tile_at g x y tiles') = (if ks = [] then None else Some (last ks)) \<and>
      te_drawn_prefix (tile_at g x y tiles') = Some 14 \<and> (\<forall>q. q \<noteq> (x, y) \<longrightarrow> tiles' q = tiles q)"
    using integrate_all_run[OF assms(2) sub new(1)] \<open>arrivals \<noteq> []\<close> nb unfolding Un_empty_left full new(2) by fastforce
  then obtain ks pics tiles' where r: "integrate_all x y g arrivals tiles = Some (pics, tiles')"
    "map Some pics = map (picture cs) ks"
    "te_drawn_prefix (tile_at g x y tiles') = (if ks = [] then None else Some (last ks))"
    "te_drawn_prefix (tile_at g x y tiles') = Some 14"
    "\<forall>q. q \<noteq> (x, y) \<longrightarrow> tiles' q = tiles q" by blast
  have ks: "ks \<noteq> []" "last ks = 14" using r(3,4) by (auto split: if_splits)
  then have "pics \<noteq> []" using r(2) by auto
  then have "Some (last pics) = picture cs (last ks)" using r(2) ks(1) by (metis last_map)
  then show ?thesis using r \<open>pics \<noteq> []\<close> ks(2) full_picture[OF assms(1)] by auto
qed

theorem tile_converges_witness:
  "\<exists>cs present passes pics tiles'. forward (replicate 4096 7) = Some cs \<and>
     encode_passes_sparse cs = Some (present, passes) \<and>
     integrate_all 3 4 1 (rev passes @ passes) Cdf53TileState_new = Some (pics, tiles') \<and>
     last pics = tile_rgba (replicate 4096 7)"
proof -
  obtain cs where f: "forward (replicate 4096 7) = Some cs" by (simp add: forward_def)
  have "length cs = 3072" using forward_pass_range[OF f] by (simp add: pass_range_def)
  then obtain present passes where e: "encode_passes_sparse cs = Some (present, passes)"
    by (cases "encode_passes_sparse cs") (auto simp: encode_passes_sparse_def Let_def)
  show ?thesis
    using tile_converges[OF f e, where arrivals = "rev passes @ passes" and tiles = Cdf53TileState_new and x = 3 and y = 4 and g = 1] f e
    by (auto simp: Cdf53TileState_new_def)
qed

text \<open>
  C33. Pictures only get better.  Whatever passes of a new generation have arrived, repeated or not, the
  pictures drawn are those of strictly longer prefixes of its passes, so a duplicate or a pass held
  behind a gap draws nothing; and none of them is a prefix that carries no magnitude, so a tile is never
  painted black before its content has arrived.
\<close>

theorem pictures_refine:
  assumes "encode_passes_sparse cs = Some (present, passes)" "set arrivals \<subseteq> set passes"
    and "case tiles (x, y) of None \<Rightarrow> True | Some t \<Rightarrow> \<not> te_generation_set t \<or> te_generation t \<noteq> g"
  shows "\<exists>pics tiles' ks. integrate_all x y g arrivals tiles = Some (pics, tiles') \<and>
    map Some pics = map (picture cs) ks \<and> sorted_wrt (<) ks \<and> (\<forall>k \<in> set ks. k \<le> 14 \<and> \<not> blank cs k)"
proof -
  have new: "holds cs present g {} (tile_at g x y tiles)" "te_drawn_prefix (tile_at g x y tiles) = None"
    using assms(3) holds_begin[of _ g cs present] by (auto simp: tile_at_def TileEntry_default_def split: option.splits)
  have le: "ready_prefix present S \<le> 14" for S by (rule ready_prefix_le)
  obtain ks pics tiles' where r: "integrate_all x y g arrivals tiles = Some (pics, tiles')"
    "map Some pics = map (picture cs) ks" "sorted_wrt (<) ks"
    "\<forall>k \<in> set ks. k \<le> ready_prefix present ({} \<union> unat ` fst ` set arrivals) \<and> \<not> blank cs k"
    using integrate_all_run[OF assms(1,2) new(1)] unfolding new(2) by fastforce
  show ?thesis
    by (rule exI[of _ pics], rule exI[of _ tiles'], rule exI[of _ ks])
      (use r le[of "{} \<union> unat ` fst ` set arrivals"] in auto)
qed

theorem pictures_refine_witness:
  "\<exists>present passes pics tiles' ks. encode_passes_sparse (replicate 3072 5) = Some (present, passes) \<and>
     integrate_all 3 4 1 (drop 1 passes @ passes) Cdf53TileState_new = Some (pics, tiles') \<and>
     map Some pics = map (picture (replicate 3072 5)) ks \<and> sorted_wrt (<) ks"
proof -
  obtain present passes where e: "encode_passes_sparse (replicate 3072 5) = Some (present, passes)"
    by (cases "encode_passes_sparse (replicate 3072 5)") (auto simp: encode_passes_sparse_def Let_def)
  have "set (drop 1 passes @ passes) \<subseteq> set passes" using set_drop_subset[of 1 passes] by auto
  from pictures_refine[OF e this, where tiles = Cdf53TileState_new and x = 3 and y = 4 and g = 1] e show ?thesis
    by (auto simp: Cdf53TileState_new_def)
qed

end
