(* ===== verification/Batchers.thy ===== *)
theory Batchers
  imports Envelopes
begin

text \<open>
  The client's outgoing bookkeeping in \<^verbatim>\<open>ghostframe-client-core/src\<close>: \<^verbatim>\<open>ordered_map.rs\<close>,
  \<^verbatim>\<open>ack_batcher.rs\<close>, \<^verbatim>\<open>nack_batcher.rs\<close>, \<^verbatim>\<open>decode_error_batcher.rs\<close> and
  \<^verbatim>\<open>palette_shadow.rs\<close>.  The injected microsecond clock is a natural number.
\<close>

section \<open>The insertion-ordered map\<close>

type_synonym ('k, 'v) OrderedMap = "('k \<times> 'v) list"

definition om_get :: "'k \<Rightarrow> ('k, 'v) OrderedMap \<Rightarrow> 'v option" where
  "om_get key m = map_option snd (find (\<lambda>(k, _). k = key) m)"

fun om_update_first :: "'k \<Rightarrow> 'v \<Rightarrow> ('k, 'v) OrderedMap \<Rightarrow> ('k, 'v) OrderedMap" where
  "om_update_first key v [] = []"
| "om_update_first key v ((k, w) # m) = (if k = key then (k, v) # m else (k, w) # om_update_first key v m)"

definition om_set :: "'k \<Rightarrow> 'v \<Rightarrow> ('k, 'v) OrderedMap \<Rightarrow> ('k, 'v) OrderedMap" where
  "om_set key v m = (if om_get key m \<noteq> None then om_update_first key v m else m @ [(key, v)])"

fun om_remove :: "'k \<Rightarrow> ('k, 'v) OrderedMap \<Rightarrow> ('k, 'v) OrderedMap" where
  "om_remove key [] = []"
| "om_remove key ((k, w) # m) = (if k = key then m else (k, w) # om_remove key m)"

definition om_retain :: "('k \<Rightarrow> 'v \<Rightarrow> bool) \<Rightarrow> ('k, 'v) OrderedMap \<Rightarrow> ('k, 'v) OrderedMap" where
  "om_retain f m = filter (\<lambda>(k, v). f k v) m"

definition om_remove_oldest :: "('k, 'v) OrderedMap \<Rightarrow> ('k, 'v) OrderedMap" where
  "om_remove_oldest m = tl m"

text \<open>The interface of a map with insertion order, and what its clients use of it.\<close>

locale ordered_store =
  fixes inv :: "'s \<Rightarrow> bool" and get :: "'k \<Rightarrow> 's \<Rightarrow> 'v option"
    and set :: "'k \<Rightarrow> 'v \<Rightarrow> 's \<Rightarrow> 's" and remove :: "'k \<Rightarrow> 's \<Rightarrow> 's" and keys :: "'s \<Rightarrow> 'k list"
  assumes set_inv: "inv s \<Longrightarrow> inv (set k v s)"
    and remove_inv: "inv s \<Longrightarrow> inv (remove k s)"
    and get_set: "inv s \<Longrightarrow> get j (set k v s) = (if j = k then Some v else get j s)"
    and get_remove: "inv s \<Longrightarrow> get j (remove k s) = (if j = k then None else get j s)"
    and keys_set: "inv s \<Longrightarrow> keys (set k v s) = (if get k s = None then keys s @ [k] else keys s)"
    and get_None: "inv s \<Longrightarrow> get k s = None \<longleftrightarrow> k \<notin> List.set (keys s)"
begin

lemma get_fold_set:
  assumes "inv s"
  shows "inv (foldl (\<lambda>s (k, v). set k v s) s kvs) \<and>
     get j (foldl (\<lambda>s (k, v). set k v s) s kvs) = (case map_of (rev kvs) j of Some v \<Rightarrow> Some v | None \<Rightarrow> get j s)"
  using assms
proof (induction kvs arbitrary: s)
  case (Cons kv kvs)
  obtain k v where kv: "kv = (k, v)" by (cases kv)
  have "inv (set k v s)" using Cons.prems by (rule set_inv)
  from Cons.IH[OF this] show ?case
    by (simp add: kv get_set[OF Cons.prems] map_add_def split: option.splits)
qed simp

lemma set_keeps_order:
  "inv s \<Longrightarrow> get k s \<noteq> None \<Longrightarrow> keys (set k v s) = keys s"
  by (simp add: keys_set)

end

lemma om_get_map_of: "om_get k m = map_of m k"
  by (induction m) (auto simp: om_get_def)

lemma om_update_first_facts:
  "map fst (om_update_first k v m) = map fst m"
  "om_get j (om_update_first k v m) = (if j = k \<and> om_get k m \<noteq> None then Some v else om_get j m)"
  by (induction m) (auto simp: om_get_map_of)

lemma set_om_remove: "distinct (map fst m) \<Longrightarrow> set (om_remove k m) = {p \<in> set m. fst p \<noteq> k}"
  by (induction m) force+

lemma om_remove_facts:
  "distinct (map fst m) \<Longrightarrow> distinct (map fst (om_remove k m))"
  "distinct (map fst m) \<Longrightarrow> om_get j (om_remove k m) = (if j = k then None else om_get j m)"
proof -
  show "distinct (map fst m) \<Longrightarrow> distinct (map fst (om_remove k m))"
    by (induction m) (auto simp: set_om_remove)
  show "distinct (map fst m) \<Longrightarrow> om_get j (om_remove k m) = (if j = k then None else om_get j m)"
  proof (induction m)
    case (Cons p m)
    then have "map_of m (fst p) = None" by (simp add: map_of_eq_None_iff)
    then show ?case using Cons by (cases p) (auto simp: om_get_map_of)
  qed (simp add: om_get_map_of)
qed

lemma om_get_None: "om_get k m = None \<longleftrightarrow> k \<notin> set (map fst m)"
  by (simp add: om_get_map_of map_of_eq_None_iff)

lemma om_get_append: "om_get j (m @ [(k, v)]) = (case om_get j m of Some w \<Rightarrow> Some w | None \<Rightarrow> if j = k then Some v else None)"
  by (simp add: om_get_map_of map_add_def split: option.splits)

lemma om_set_facts:
  assumes "distinct (map fst m)"
  shows "distinct (map fst (om_set k v m))"
    "om_get j (om_set k v m) = (if j = k then Some v else om_get j m)"
    "map fst (om_set k v m) = (if om_get k m = None then map fst m @ [k] else map fst m)"
proof -
  show "map fst (om_set k v m) = (if om_get k m = None then map fst m @ [k] else map fst m)"
    by (simp add: om_set_def om_update_first_facts)
  then show "distinct (map fst (om_set k v m))" using assms by (simp add: om_get_None)
  show "om_get j (om_set k v m) = (if j = k then Some v else om_get j m)"
    by (auto simp: om_set_def om_update_first_facts om_get_append split: option.splits)
qed

interpretation om: ordered_store "\<lambda>m. distinct (map fst m)" om_get om_set om_remove "map fst"
  by unfold_locales (rule om_set_facts om_remove_facts om_get_None; assumption)+

section \<open>Batched acknowledgements\<close>

definition FLUSH_INTERVAL_US :: nat where [simp]: "FLUSH_INTERVAL_US = 5000"
definition MAX_RECENT :: nat where "MAX_RECENT = ACK_OVERLAP_COUNT * 4"

record AckBatcher =
  akb_entries :: "AckEntry list"
  akb_recent :: "AckEntry list"
  akb_deadline_us :: "nat option"

definition AckBatcher_new :: AckBatcher where
  "AckBatcher_new = \<lparr> akb_entries = [], akb_recent = [], akb_deadline_us = None \<rparr>"

text \<open>The last \<open>n\<close> elements, in order.\<close>

definition lastn :: "nat \<Rightarrow> 'a list \<Rightarrow> 'a list" where
  "lastn n xs = rev (take n (rev xs))"

definition AckBatcher_flush :: "AckBatcher \<Rightarrow> bytes option \<times> AckBatcher" where
  "AckBatcher_flush b =
     (let b = b\<lparr> akb_deadline_us := None \<rparr> in
      if akb_entries b = [] then (None, b)
      else
        let fresh = akb_entries b;
            overlap = lastn ACK_OVERLAP_COUNT (akb_recent b);
            out = AckBatch_encode \<lparr> ab_entries = fresh @ overlap \<rparr>
        in (Some out, b\<lparr> akb_entries := [], akb_recent := lastn MAX_RECENT (akb_recent b @ fresh) \<rparr>))"

definition AckBatcher_add :: "AckEntry \<Rightarrow> nat \<Rightarrow> AckBatcher \<Rightarrow> bytes option \<times> AckBatcher" where
  "AckBatcher_add entry now_us b =
     (let b = b\<lparr> akb_entries := akb_entries b @ [entry] \<rparr> in
      if length (akb_entries b) \<ge> MAX_FRESH_ENTRIES_PER_BATCH then AckBatcher_flush b
      else (None, if akb_deadline_us b = None
                  then b\<lparr> akb_deadline_us := Some (now_us + FLUSH_INTERVAL_US) \<rparr> else b))"

definition AckBatcher_on_timeout :: "nat \<Rightarrow> AckBatcher \<Rightarrow> bytes option \<times> AckBatcher" where
  "AckBatcher_on_timeout now_us b =
     (case akb_deadline_us b of
        Some deadline \<Rightarrow> if now_us \<ge> deadline then AckBatcher_flush b else (None, b)
      | None \<Rightarrow> (None, b))"

section \<open>Batched NACKs\<close>

definition NACK_BATCH_MAX :: nat where [simp]: "NACK_BATCH_MAX = 64"

record NackBatcher =
  nkb_entries :: "TileNackEntry list"
  nkb_deadline_us :: "nat option"

definition NackBatcher_new :: NackBatcher where
  "NackBatcher_new = \<lparr> nkb_entries = [], nkb_deadline_us = None \<rparr>"

definition NackBatcher_flush :: "NackBatcher \<Rightarrow> bytes option \<times> NackBatcher" where
  "NackBatcher_flush b =
     (let b = b\<lparr> nkb_deadline_us := None \<rparr> in
      if nkb_entries b = [] then (None, b)
      else (Some (TileNackEnvelope_encode \<lparr> nk_entries = nkb_entries b \<rparr> []), b\<lparr> nkb_entries := [] \<rparr>))"

definition NackBatcher_add :: "TileNackEntry \<Rightarrow> nat \<Rightarrow> NackBatcher \<Rightarrow> bytes option \<times> NackBatcher" where
  "NackBatcher_add entry now_us b =
     (let b = b\<lparr> nkb_entries := nkb_entries b @ [entry] \<rparr> in
      if length (nkb_entries b) \<ge> NACK_BATCH_MAX then NackBatcher_flush b
      else (None, if nkb_deadline_us b = None
                  then b\<lparr> nkb_deadline_us := Some (now_us + FLUSH_INTERVAL_US) \<rparr> else b))"

definition NackBatcher_on_timeout :: "nat \<Rightarrow> NackBatcher \<Rightarrow> bytes option \<times> NackBatcher" where
  "NackBatcher_on_timeout now_us b =
     (case nkb_deadline_us b of
        Some deadline \<Rightarrow> if now_us \<ge> deadline then NackBatcher_flush b else (None, b)
      | None \<Rightarrow> (None, b))"

section \<open>The contract of a batcher\<close>

datatype 'e batch_op = Add 'e nat | Timeout nat | Flush

fun batch_added :: "'e batch_op \<Rightarrow> 'e list" where
  "batch_added (Add e t) = [e]"
| "batch_added _ = []"

fun AckBatcher_step :: "AckBatcher \<Rightarrow> AckEntry batch_op \<Rightarrow> bytes option \<times> AckBatcher" where
  "AckBatcher_step b (Add e t) = AckBatcher_add e t b"
| "AckBatcher_step b (Timeout t) = AckBatcher_on_timeout t b"
| "AckBatcher_step b Flush = AckBatcher_flush b"

fun NackBatcher_step :: "NackBatcher \<Rightarrow> TileNackEntry batch_op \<Rightarrow> bytes option \<times> NackBatcher" where
  "NackBatcher_step b (Add e t) = NackBatcher_add e t b"
| "NackBatcher_step b (Timeout t) = NackBatcher_on_timeout t b"
| "NackBatcher_step b Flush = NackBatcher_flush b"

text \<open>The datagrams sent over a sequence of calls, and the state left.\<close>

fun batch_run :: "('s \<Rightarrow> 'e batch_op \<Rightarrow> bytes option \<times> 's) \<Rightarrow> 's \<Rightarrow> 'e batch_op list \<Rightarrow> bytes list \<times> 's" where
  "batch_run step s [] = ([], s)"
| "batch_run step s (op # ops) =
     (let (out, s) = step s op; (outs, s) = batch_run step s ops
      in ((case out of Some d \<Rightarrow> d # outs | None \<Rightarrow> outs), s))"

locale batcher =
  fixes step :: "'s \<Rightarrow> 'e batch_op \<Rightarrow> bytes option \<times> 's" and inv :: "'s \<Rightarrow> bool"
    and pending :: "'s \<Rightarrow> 'e list" and deadline :: "'s \<Rightarrow> nat option" and carries :: "bytes \<Rightarrow> 'e list \<Rightarrow> bool"
  assumes step_inv: "inv s \<Longrightarrow> step s op = (out, s') \<Longrightarrow> inv s'"
    and step_none: "inv s \<Longrightarrow> step s op = (None, s') \<Longrightarrow> pending s' = pending s @ batch_added op"
    and step_some: "inv s \<Longrightarrow> step s op = (Some d, s') \<Longrightarrow>
          pending s' = [] \<and> carries d (pending s @ batch_added op)"
    and deadline_none: "inv s \<Longrightarrow> deadline s = None \<longleftrightarrow> pending s = []"
    and add_deadline: "inv s \<Longrightarrow> step s (Add e t) = (None, s') \<Longrightarrow>
          deadline s' = Some (case deadline s of Some t1 \<Rightarrow> t1 | None \<Rightarrow> t + FLUSH_INTERVAL_US)"
    and timeout_flushes: "inv s \<Longrightarrow> deadline s = Some t0 \<Longrightarrow> t0 \<le> t \<Longrightarrow> \<exists>o' s'. step s (Timeout t) = (Some o', s')"
begin

text \<open>No entry is lost, repeated as fresh or reordered, whatever the calls.\<close>

lemma run_delivers:
  assumes "inv s" "batch_run step s ops = (ds, s')"
  shows "inv s' \<and> (\<exists>segs. list_all2 carries ds segs \<and>
     concat segs @ pending s' = pending s @ concat (map batch_added ops))"
  using assms
proof (induction ops arbitrary: s ds s')
  case (Cons op ops)
  obtain out s1 where s1: "step s op = (out, s1)" by fastforce
  obtain ds2 s2 where s2: "batch_run step s1 ops = (ds2, s2)" by fastforce
  have inv1: "inv s1" using step_inv[OF Cons.prems(1) s1] .
  obtain segs where segs: "list_all2 carries ds2 segs"
    "concat segs @ pending s2 = pending s1 @ concat (map batch_added ops)" "inv s2"
    using Cons.IH[OF inv1 s2] by blast
  show ?case
  proof (cases out)
    case None
    then show ?thesis using Cons.prems s1 s2 segs step_none[OF Cons.prems(1), of op s1] by auto
  next
    case (Some d)
    have "list_all2 carries ds ((pending s @ batch_added op) # segs)" "s' = s2"
      using Cons.prems(2) s1 s2 segs(1) step_some[OF Cons.prems(1), of op d s1] Some by auto
    moreover have "concat ((pending s @ batch_added op) # segs) @ pending s2 =
        pending s @ concat (map batch_added (op # ops))"
      using segs(2) step_some[OF Cons.prems(1), of op d s1] s1 Some by simp
    ultimately show ?thesis using segs(3) by blast
  qed
qed simp

text \<open>An entry waits at most the flush interval: a timeout then sends everything pending.\<close>

lemma add_then_timeout:
  assumes "inv s" "\<And>d. deadline s = Some d \<Longrightarrow> d \<le> t + FLUSH_INTERVAL_US"
    and "step s (Add e t) = (None, s1)" "t + FLUSH_INTERVAL_US \<le> t'"
  shows "\<exists>d s2. step s1 (Timeout t') = (Some d, s2) \<and> pending s2 = [] \<and> carries d (pending s @ [e])"
proof -
  have inv1: "inv s1" using step_inv[OF assms(1,3)] .
  obtain d where d: "deadline s1 = Some d" "d \<le> t'"
    using add_deadline[OF assms(1,3)] assms(2,4) by (cases "deadline s") fastforce+
  obtain o' s2 where "step s1 (Timeout t') = (Some o', s2)" using timeout_flushes[OF inv1 d] by blast
  then show ?thesis using step_some[OF inv1, of "Timeout t'" o' s2] step_none[OF assms(1,3)] by auto
qed

end

text \<open>An ACK datagram carries its fresh entries first, then at most eight repeated ones.\<close>

definition ack_carries :: "bytes \<Rightarrow> AckEntry list \<Rightarrow> bool" where
  "ack_carries d es \<longleftrightarrow>
     (\<exists>overlap. AckBatch_decode d = Inr \<lparr> ab_entries = es @ overlap \<rparr> \<and> length overlap \<le> ACK_OVERLAP_COUNT)"

definition nack_carries :: "bytes \<Rightarrow> TileNackEntry list \<Rightarrow> bool" where
  "nack_carries d es \<longleftrightarrow> TileNackEnvelope_decode d = Inr \<lparr> nk_entries = es \<rparr>"

definition akb_inv :: "AckBatcher \<Rightarrow> bool" where
  "akb_inv b \<longleftrightarrow> length (akb_entries b) < MAX_FRESH_ENTRIES_PER_BATCH \<and>
     (akb_deadline_us b = None \<longleftrightarrow> akb_entries b = []) \<and> length (akb_recent b) \<le> MAX_RECENT"

definition nkb_inv :: "NackBatcher \<Rightarrow> bool" where
  "nkb_inv b \<longleftrightarrow> length (nkb_entries b) < NACK_BATCH_MAX \<and>
     (nkb_deadline_us b = None \<longleftrightarrow> nkb_entries b = [])"

lemma length_lastn [simp]: "length (lastn n xs) = min (length xs) n"
  by (simp add: lastn_def)

lemma AckBatcher_flush_facts:
  assumes "length (akb_entries b) \<le> MAX_FRESH_ENTRIES_PER_BATCH"
  shows "AckBatcher_flush b = (None, b') \<Longrightarrow> akb_entries b = [] \<and> b' = b\<lparr> akb_deadline_us := None \<rparr>"
    and "AckBatcher_flush b = (Some d, b') \<Longrightarrow>
      AckBatch_decode d = Inr \<lparr> ab_entries = akb_entries b @ lastn ACK_OVERLAP_COUNT (akb_recent b) \<rparr> \<and>
      b' = b\<lparr> akb_deadline_us := None, akb_entries := [],
             akb_recent := lastn MAX_RECENT (akb_recent b @ akb_entries b) \<rparr>"
proof -
  show "AckBatcher_flush b = (None, b') \<Longrightarrow> akb_entries b = [] \<and> b' = b\<lparr> akb_deadline_us := None \<rparr>"
    by (simp add: AckBatcher_flush_def Let_def split: if_splits)
  let ?es = "akb_entries b @ lastn ACK_OVERLAP_COUNT (akb_recent b)"
  assume f: "AckBatcher_flush b = (Some d, b')"
  then have "akb_entries b \<noteq> []" "d = AckBatch_encode \<lparr> ab_entries = ?es \<rparr>"
    by (auto simp: AckBatcher_flush_def Let_def split: if_splits)
  then have "AckBatch_decode d = Inr \<lparr> ab_entries = ?es \<rparr>"
    using assms AckBatch_roundtrip[of "\<lparr> ab_entries = ?es \<rparr>" "[]"] by (simp add: ack_sizes)
  then show "AckBatch_decode d = Inr \<lparr> ab_entries = ?es \<rparr> \<and>
      b' = b\<lparr> akb_deadline_us := None, akb_entries := [],
             akb_recent := lastn MAX_RECENT (akb_recent b @ akb_entries b) \<rparr>"
    using f by (auto simp: AckBatcher_flush_def Let_def split: if_splits)
qed

lemma NackBatcher_flush_facts:
  assumes "length (nkb_entries b) \<le> NACK_BATCH_MAX"
  shows "NackBatcher_flush b = (None, b') \<Longrightarrow> nkb_entries b = [] \<and> b' = b\<lparr> nkb_deadline_us := None \<rparr>"
    and "NackBatcher_flush b = (Some d, b') \<Longrightarrow> nack_carries d (nkb_entries b) \<and>
      b' = b\<lparr> nkb_deadline_us := None, nkb_entries := [] \<rparr>"
  using assms TileNackEnvelope_roundtrip[of "\<lparr> nk_entries = nkb_entries b \<rparr>" "[]"]
  by (auto simp: NackBatcher_flush_def Let_def nack_carries_def split: if_splits)

text \<open>Every call of a batcher either only queues or is a flush of what is then pending.\<close>

lemma AckBatcher_step_cases:
  assumes "akb_inv b" "AckBatcher_step b op = (out, b')"
  obtains (queue) "out = None" "akb_entries b' = akb_entries b @ batch_added op" "akb_inv b'"
        "akb_recent b' = akb_recent b"
        "\<And>e t. op = Add e t \<Longrightarrow> akb_deadline_us b' =
           Some (case akb_deadline_us b of Some d \<Rightarrow> d | None \<Rightarrow> t + FLUSH_INTERVAL_US)"
    | (flush) d where "out = Some d" "akb_entries b' = []" "akb_inv b'"
        "AckBatch_decode d = Inr \<lparr> ab_entries =
           (akb_entries b @ batch_added op) @ lastn ACK_OVERLAP_COUNT (akb_recent b) \<rparr>"
        "akb_recent b' = lastn MAX_RECENT (akb_recent b @ akb_entries b @ batch_added op)"
proof -
  let ?b = "b\<lparr> akb_entries := akb_entries b @ batch_added op \<rparr>"
  have len: "length (akb_entries ?b) \<le> MAX_FRESH_ENTRIES_PER_BATCH"
    using assms(1) by (cases op) (auto simp: akb_inv_def)
  consider (q) "out = None" "akb_entries b' = akb_entries b @ batch_added op" "akb_inv b'"
        "akb_recent b' = akb_recent b"
        "\<And>e t. op = Add e t \<Longrightarrow> akb_deadline_us b' =
           Some (case akb_deadline_us b of Some d \<Rightarrow> d | None \<Rightarrow> t + FLUSH_INTERVAL_US)"
    | (f) "(out, b') = AckBatcher_flush ?b" "op = Flush \<or> akb_entries ?b \<noteq> []"
    using assms
    by (cases op) (auto simp: AckBatcher_add_def AckBatcher_on_timeout_def akb_inv_def Let_def
        split: if_splits option.splits)
  then show thesis
  proof cases
    case q then show ?thesis by (rule queue)
  next
    case f
    show ?thesis
    proof (cases out)
      case None
      then have "akb_entries ?b = []" "b' = ?b\<lparr> akb_deadline_us := None \<rparr>"
        using AckBatcher_flush_facts(1)[OF len, of b'] f(1) by auto
      then show ?thesis using None f(2) assms(1) by (intro queue) (auto simp: akb_inv_def)
    next
      case (Some d)
      note fl = AckBatcher_flush_facts(2)[OF len f(1)[unfolded Some, symmetric]]
      then show ?thesis using assms(1) Some by (intro flush) (auto simp: akb_inv_def ack_sizes)
    qed
  qed
qed

interpretation ack: batcher AckBatcher_step akb_inv akb_entries akb_deadline_us ack_carries
proof unfold_locales
  fix b b' op out d e t t0
  assume inv: "akb_inv b"
  show "AckBatcher_step b op = (out, b') \<Longrightarrow> akb_inv b'"
    by (erule AckBatcher_step_cases[OF inv]) auto
  show "AckBatcher_step b op = (None, b') \<Longrightarrow> akb_entries b' = akb_entries b @ batch_added op"
    by (erule AckBatcher_step_cases[OF inv]) auto
  show "AckBatcher_step b op = (Some d, b') \<Longrightarrow>
      akb_entries b' = [] \<and> ack_carries d (akb_entries b @ batch_added op)"
    by (erule AckBatcher_step_cases[OF inv]) (auto simp: ack_carries_def)
  show "akb_deadline_us b = None \<longleftrightarrow> akb_entries b = []" using inv by (simp add: akb_inv_def)
  show "AckBatcher_step b (Add e t) = (None, b') \<Longrightarrow> akb_deadline_us b' =
      Some (case akb_deadline_us b of Some t1 \<Rightarrow> t1 | None \<Rightarrow> t + FLUSH_INTERVAL_US)"
    by (erule AckBatcher_step_cases[OF inv]) auto
  show "akb_deadline_us b = Some t0 \<Longrightarrow> t0 \<le> t \<Longrightarrow> \<exists>o' s'. AckBatcher_step b (Timeout t) = (Some o', s')"
    using inv by (auto simp: akb_inv_def AckBatcher_on_timeout_def AckBatcher_flush_def Let_def)
qed

lemma NackBatcher_step_cases:
  assumes "nkb_inv b" "NackBatcher_step b op = (out, b')"
  obtains (queue) "out = None" "nkb_entries b' = nkb_entries b @ batch_added op" "nkb_inv b'"
        "\<And>e t. op = Add e t \<Longrightarrow> nkb_deadline_us b' =
           Some (case nkb_deadline_us b of Some d \<Rightarrow> d | None \<Rightarrow> t + FLUSH_INTERVAL_US)"
    | (flush) d where "out = Some d" "nkb_entries b' = []" "nkb_inv b'"
        "nack_carries d (nkb_entries b @ batch_added op)"
proof -
  let ?b = "b\<lparr> nkb_entries := nkb_entries b @ batch_added op \<rparr>"
  have len: "length (nkb_entries ?b) \<le> NACK_BATCH_MAX"
    using assms(1) by (cases op) (auto simp: nkb_inv_def)
  consider (q) "out = None" "nkb_entries b' = nkb_entries b @ batch_added op" "nkb_inv b'"
        "\<And>e t. op = Add e t \<Longrightarrow> nkb_deadline_us b' =
           Some (case nkb_deadline_us b of Some d \<Rightarrow> d | None \<Rightarrow> t + FLUSH_INTERVAL_US)"
    | (f) "(out, b') = NackBatcher_flush ?b" "op = Flush \<or> nkb_entries ?b \<noteq> []"
    using assms
    by (cases op) (auto simp: NackBatcher_add_def NackBatcher_on_timeout_def nkb_inv_def Let_def
        split: if_splits option.splits)
  then show thesis
  proof cases
    case q then show ?thesis by (rule queue)
  next
    case f
    show ?thesis
    proof (cases out)
      case None
      then have "nkb_entries ?b = []" "b' = ?b\<lparr> nkb_deadline_us := None \<rparr>"
        using NackBatcher_flush_facts(1)[OF len, of b'] f(1) by auto
      then show ?thesis using None f(2) assms(1) by (intro queue) (auto simp: nkb_inv_def)
    next
      case (Some d)
      note fl = NackBatcher_flush_facts(2)[OF len f(1)[unfolded Some, symmetric]]
      then show ?thesis using assms(1) Some by (intro flush) (auto simp: nkb_inv_def)
    qed
  qed
qed

interpretation nack: batcher NackBatcher_step nkb_inv nkb_entries nkb_deadline_us nack_carries
proof unfold_locales
  fix b b' op out d e t t0
  assume inv: "nkb_inv b"
  show "NackBatcher_step b op = (out, b') \<Longrightarrow> nkb_inv b'"
    by (erule NackBatcher_step_cases[OF inv]) auto
  show "NackBatcher_step b op = (None, b') \<Longrightarrow> nkb_entries b' = nkb_entries b @ batch_added op"
    by (erule NackBatcher_step_cases[OF inv]) auto
  show "NackBatcher_step b op = (Some d, b') \<Longrightarrow>
      nkb_entries b' = [] \<and> nack_carries d (nkb_entries b @ batch_added op)"
    by (erule NackBatcher_step_cases[OF inv]) auto
  show "nkb_deadline_us b = None \<longleftrightarrow> nkb_entries b = []" using inv by (simp add: nkb_inv_def)
  show "NackBatcher_step b (Add e t) = (None, b') \<Longrightarrow> nkb_deadline_us b' =
      Some (case nkb_deadline_us b of Some t1 \<Rightarrow> t1 | None \<Rightarrow> t + FLUSH_INTERVAL_US)"
    by (erule NackBatcher_step_cases[OF inv]) auto
  show "nkb_deadline_us b = Some t0 \<Longrightarrow> t0 \<le> t \<Longrightarrow> \<exists>o' s'. NackBatcher_step b (Timeout t) = (Some o', s')"
    using inv by (auto simp: nkb_inv_def NackBatcher_on_timeout_def NackBatcher_flush_def Let_def)
qed

subsection \<open>Repeated acknowledgements\<close>

lemma lastn_lastn: "m \<le> n \<Longrightarrow> lastn m (lastn n xs) = lastn m xs"
  by (simp add: lastn_def min_def)

lemma lastn_lastn_append: "lastn n (lastn n xs @ ys) = lastn n (xs @ ys)"
  by (simp add: lastn_def)

text \<open>Datagram \<open>i\<close> carries its fresh entries and the last eight entries of all earlier datagrams.\<close>

lemma ack_run_overlap:
  assumes "akb_inv b" "akb_recent b = lastn MAX_RECENT hist" "batch_run AckBatcher_step b ops = (ds, b')"
  shows "\<exists>segs. length segs = length ds \<and>
     (\<forall>i < length ds. AckBatch_decode (ds ! i) = Inr \<lparr> ab_entries =
         segs ! i @ lastn ACK_OVERLAP_COUNT (hist @ concat (take i segs)) \<rparr>) \<and>
     concat segs @ akb_entries b' = akb_entries b @ concat (map batch_added ops)"
  using assms
proof (induction ops arbitrary: b hist ds b')
  case (Cons op ops)
  obtain out b1 where b1: "AckBatcher_step b op = (out, b1)" by fastforce
  obtain ds2 b2 where b2: "batch_run AckBatcher_step b1 ops = (ds2, b2)" by fastforce
  from Cons.prems(1) b1 show ?case
  proof (cases rule: AckBatcher_step_cases)
    case queue
    then obtain segs where "length segs = length ds2"
      "\<forall>i < length ds2. AckBatch_decode (ds2 ! i) = Inr \<lparr> ab_entries =
         segs ! i @ lastn ACK_OVERLAP_COUNT (hist @ concat (take i segs)) \<rparr>"
      "concat segs @ akb_entries b2 = akb_entries b1 @ concat (map batch_added ops)"
      using Cons.IH[of b1 hist ds2 b2] Cons.prems(2) b2 by auto
    then show ?thesis using Cons.prems(3) b1 b2 queue by (intro exI[of _ segs]) auto
  next
    case (flush d)
    let ?seg = "akb_entries b @ batch_added op"
    have "akb_recent b1 = lastn MAX_RECENT (hist @ ?seg)"
      using flush(5) Cons.prems(2) by (simp add: lastn_lastn_append)
    then obtain segs where segs: "length segs = length ds2"
      "\<forall>i < length ds2. AckBatch_decode (ds2 ! i) = Inr \<lparr> ab_entries =
         segs ! i @ lastn ACK_OVERLAP_COUNT ((hist @ ?seg) @ concat (take i segs)) \<rparr>"
      "concat segs @ akb_entries b2 = akb_entries b1 @ concat (map batch_added ops)"
      using Cons.IH[OF flush(3) _ b2] by blast
    have ds: "ds = d # ds2" "b' = b2" using Cons.prems(3) b1 b2 flush(1) by auto
    have first: "AckBatch_decode d = Inr \<lparr> ab_entries = ?seg @ lastn ACK_OVERLAP_COUNT hist \<rparr>"
      using flush(4) Cons.prems(2) by (simp add: lastn_lastn MAX_RECENT_def)
    have "AckBatch_decode (ds ! i) = Inr \<lparr> ab_entries =
         (?seg # segs) ! i @ lastn ACK_OVERLAP_COUNT (hist @ concat (take i (?seg # segs))) \<rparr>"
      if "i < length ds" for i
      using that segs(2) first by (cases i) (simp_all add: ds)
    then show ?thesis using segs(1,3) flush(2) ds by (intro exI[of _ "?seg # segs"]) simp
  qed
qed simp

section \<open>Rate-limited decode errors\<close>

definition WINDOW_US :: nat where [simp]: "WINDOW_US = 1000000"
definition GLOBAL_CAP :: nat where [simp]: "GLOBAL_CAP = 32"

record DecodeErrorBatcher =
  deb_per_key :: "u8 \<times> u8 \<times> u8 \<Rightarrow> nat option"
  deb_recent_emits :: "nat list"

definition DecodeErrorBatcher_new :: DecodeErrorBatcher where
  "DecodeErrorBatcher_new = \<lparr> deb_per_key = (\<lambda>_. None), deb_recent_emits = [] \<rparr>"

definition DecodeErrorBatcher_report ::
    "Codec \<Rightarrow> u8 \<Rightarrow> u8 \<Rightarrow> u8 \<Rightarrow> nat \<Rightarrow> DecodeErrorBatcher \<Rightarrow> bytes option \<times> DecodeErrorBatcher" where
  "DecodeErrorBatcher_report codec tile_x tile_y code now_us b =
     (let b = b\<lparr> deb_recent_emits :=
                   dropWhile (\<lambda>front. now_us \<ge> WINDOW_US \<and> front \<le> now_us - WINDOW_US) (deb_recent_emits b) \<rparr> in
      if length (deb_recent_emits b) \<ge> GLOBAL_CAP then (None, b)
      else
        let codec_byte = Codec_to_u8 codec;
            key = (codec_byte, tile_x, tile_y);
            limited = (case deb_per_key b key of
                         Some last_us \<Rightarrow> now_us \<ge> last_us \<and> now_us - last_us < WINDOW_US
                       | None \<Rightarrow> False)
        in if limited then (None, b)
           else (Some [DECODE_ERROR_MSG_TYPE, codec_byte, tile_x, tile_y, code],
                 b\<lparr> deb_per_key := (deb_per_key b)(key \<mapsto> now_us),
                    deb_recent_emits := deb_recent_emits b @ [now_us] \<rparr>))"

text \<open>A call, and the emissions (key and time) of a sequence of calls.\<close>

type_synonym error_call = "Codec \<times> u8 \<times> u8 \<times> u8 \<times> nat"

fun error_call_time :: "error_call \<Rightarrow> nat" where
  "error_call_time (codec, x, y, code, t) = t"

fun error_run :: "DecodeErrorBatcher \<Rightarrow> error_call list \<Rightarrow> ((u8 \<times> u8 \<times> u8) \<times> nat) list" where
  "error_run b [] = []"
| "error_run b ((codec, x, y, code, t) # calls) =
     (case DecodeErrorBatcher_report codec x y code t b of
        (Some _, b) \<Rightarrow> ((Codec_to_u8 codec, x, y), t) # error_run b calls
      | (None, b) \<Rightarrow> error_run b calls)"

text \<open>Emissions at or before \<open>t\<close> that a window ending at \<open>t\<close> contains.\<close>

definition in_window :: "nat \<Rightarrow> nat list \<Rightarrow> nat list" where
  "in_window t ts = filter (\<lambda>s. s \<le> t \<and> t < s + WINDOW_US) ts"

text \<open>The state after emissions \<open>ems\<close> (oldest first) when the clock last showed \<open>now\<close>.\<close>

definition deb_inv :: "nat \<Rightarrow> ((u8 \<times> u8 \<times> u8) \<times> nat) list \<Rightarrow> DecodeErrorBatcher \<Rightarrow> bool" where
  "deb_inv now ems b \<longleftrightarrow>
     sorted (map snd ems) \<and> (\<forall>s \<in> set (map snd ems). s \<le> now) \<and>
     deb_recent_emits b = filter (\<lambda>s. now < s + WINDOW_US) (map snd ems) \<and>
     deb_per_key b = map_of (rev ems) \<and>
     (\<forall>t. length (in_window t (map snd ems)) \<le> GLOBAL_CAP) \<and>
     sorted_wrt (\<lambda>e f. fst e = fst f \<longrightarrow> snd e + WINDOW_US \<le> snd f) ems"

lemma sorted_dropWhile_filter:
  "sorted ts \<Longrightarrow> now \<le> t \<Longrightarrow>
     dropWhile (\<lambda>s. t \<ge> WINDOW_US \<and> s \<le> t - WINDOW_US) (filter (\<lambda>s. now < s + WINDOW_US) ts) =
     filter (\<lambda>s. t < s + WINDOW_US) ts"
proof (induction ts)
  case (Cons s ts)
  show ?case
  proof (cases "t < s + WINDOW_US")
    case True
    then have "\<forall>u \<in> set (s # ts). t < u + WINDOW_US" using Cons.prems(1) by fastforce
    then have f: "filter (\<lambda>s. now < s + WINDOW_US) (s # ts) = s # ts"
        "filter (\<lambda>s. t < s + WINDOW_US) (s # ts) = s # ts"
      using Cons.prems(2) by (auto simp: filter_id_conv)
    show ?thesis unfolding f using True by auto
  next
    case False
    then show ?thesis using Cons by auto
  qed
qed simp

lemma deb_inv_trim:
  assumes "deb_inv now ems b" "now \<le> t"
  shows "deb_inv t ems (b\<lparr> deb_recent_emits :=
     dropWhile (\<lambda>front. t \<ge> WINDOW_US \<and> front \<le> t - WINDOW_US) (deb_recent_emits b) \<rparr>)"
  using assms sorted_dropWhile_filter[of "map snd ems" now t]
  by (auto simp: deb_inv_def simp del: WINDOW_US_def GLOBAL_CAP_def)

lemma length_filter_imp: "(\<And>x. x \<in> set xs \<Longrightarrow> P x \<Longrightarrow> Q x) \<Longrightarrow> length (filter P xs) \<le> length (filter Q xs)"
  by (induction xs) auto

lemma map_of_rev_last:
  assumes "sorted_wrt (\<lambda>e f. fst e = fst f \<longrightarrow> snd e + w \<le> snd f) ems" "e \<in> set ems"
    "map_of (rev ems) (fst e) = Some (s :: nat)"
  shows "snd e \<le> s"
  using assms
proof (induction ems rule: rev_induct)
  case (snoc f ems)
  show ?case
  proof (cases "fst f = fst e")
    case True
    then have "s = snd f" using snoc.prems(3) by (cases f) auto
    moreover have "e = f \<or> snd e + w \<le> snd f"
      using snoc.prems(1,2) True by (auto simp: sorted_wrt_append)
    ultimately show ?thesis by auto
  next
    case False
    then show ?thesis using snoc by (cases f) (auto simp: sorted_wrt_append)
  qed
qed simp

lemma deb_inv_emit:
  assumes inv: "deb_inv t ems b" and cap: "length (deb_recent_emits b) < GLOBAL_CAP"
    and key: "\<And>s. deb_per_key b k = Some s \<Longrightarrow> s + WINDOW_US \<le> t"
  shows "deb_inv t (ems @ [(k, t)]) (b\<lparr> deb_per_key := (deb_per_key b)(k \<mapsto> t),
     deb_recent_emits := deb_recent_emits b @ [t] \<rparr>)"
proof -
  have le: "\<And>s. s \<in> set (map snd ems) \<Longrightarrow> s \<le> t" and srt: "sorted (map snd ems)"
    and rec: "deb_recent_emits b = filter (\<lambda>s. t < s + WINDOW_US) (map snd ems)"
    and pk: "deb_per_key b = map_of (rev ems)" and caps: "\<And>u. length (in_window u (map snd ems)) \<le> GLOBAL_CAP"
    and wrt: "sorted_wrt (\<lambda>e f. fst e = fst f \<longrightarrow> snd e + WINDOW_US \<le> snd f) ems"
    using inv by (auto simp: deb_inv_def)
  have win: "length (in_window u (map snd (ems @ [(k, t)]))) \<le> GLOBAL_CAP" for u
  proof (cases "t \<le> u \<and> u < t + WINDOW_US")
    case True
    have "length (in_window u (map snd ems)) \<le> length (deb_recent_emits b)"
      unfolding rec in_window_def using True
      by (intro length_filter_imp) linarith
    then show ?thesis using True cap by (simp add: in_window_def)
  next
    case False
    then show ?thesis using caps[of u] by (auto simp: in_window_def)
  qed
  have old: "snd e + WINDOW_US \<le> t" if "e \<in> set ems" "fst e = k" for e
  proof -
    have "map_of (rev ems) (fst e) \<noteq> None" using that(1) by (auto simp: map_of_eq_None_iff)
    then obtain s where s: "map_of (rev ems) (fst e) = Some s" by auto
    then have "snd e \<le> s" by (rule map_of_rev_last[OF wrt that(1)])
    then show ?thesis using key[of s] s pk that(2) by simp
  qed
  show ?thesis unfolding deb_inv_def using le srt rec pk win old wrt
    by (auto simp: sorted_append sorted_wrt_append)
qed

lemma deb_inv_report:
  assumes "deb_inv now ems b" "now \<le> t" "DecodeErrorBatcher_report codec x y code t b = (out, b')"
  shows "deb_inv t (if out = None then ems else ems @ [((Codec_to_u8 codec, x, y), t)]) b'"
proof -
  let ?b = "b\<lparr> deb_recent_emits :=
     dropWhile (\<lambda>front. t \<ge> WINDOW_US \<and> front \<le> t - WINDOW_US) (deb_recent_emits b) \<rparr>"
  let ?k = "(Codec_to_u8 codec, x, y)"
  have b: "deb_inv t ems ?b" by (rule deb_inv_trim[OF assms(1,2)])
  have le: "s \<le> t" if "deb_per_key ?b ?k = Some s" for s
    using b map_of_SomeD[of "rev ems" ?k s] that by (auto simp: deb_inv_def)
  show ?thesis
  proof (cases out)
    case None
    then have "b' = ?b" using assms(3)
      by (auto simp: DecodeErrorBatcher_report_def Let_def split: if_splits)
    then show ?thesis using b None by simp
  next
    case (Some d)
    have "length (deb_recent_emits ?b) < GLOBAL_CAP"
      and "\<And>s. deb_per_key ?b ?k = Some s \<Longrightarrow> \<not> (t \<ge> s \<and> t - s < WINDOW_US)"
      and b': "b' = ?b\<lparr> deb_per_key := (deb_per_key ?b)(?k \<mapsto> t), deb_recent_emits := deb_recent_emits ?b @ [t] \<rparr>"
      using assms(3) Some unfolding DecodeErrorBatcher_report_def Let_def
      by (auto split: if_splits option.splits)
    moreover have "s + WINDOW_US \<le> t" if "deb_per_key ?b ?k = Some s" for s
      using calculation(2)[OF that] le[OF that] by linarith
    ultimately show ?thesis using deb_inv_emit[OF b] Some by simp
  qed
qed

lemma deb_inv_run:
  assumes "deb_inv now ems b" "sorted (map error_call_time calls)" "\<And>c. c \<in> set calls \<Longrightarrow> now \<le> error_call_time c"
  shows "\<exists>now' b'. deb_inv now' (ems @ error_run b calls) b'"
  using assms
proof (induction calls arbitrary: now ems b)
  case (Cons c calls)
  obtain codec x y code t where c: "c = (codec, x, y, code, t)" by (cases c) auto
  obtain out b1 where r: "DecodeErrorBatcher_report codec x y code t b = (out, b1)" by fastforce
  let ?ems = "if out = None then ems else ems @ [((Codec_to_u8 codec, x, y), t)]"
  have "now \<le> t" using Cons.prems(3)[of c] c by simp
  then have "deb_inv t ?ems b1" using deb_inv_report[OF Cons.prems(1) _ r] by blast
  moreover have "sorted (map error_call_time calls)" "\<And>c'. c' \<in> set calls \<Longrightarrow> t \<le> error_call_time c'"
    using Cons.prems(2) c by auto
  ultimately have "\<exists>now' b'. deb_inv now' (?ems @ error_run b1 calls) b'" by (rule Cons.IH)
  then show ?case using c r by (cases out) auto
qed auto

section \<open>Palette shadow\<close>

type_synonym PaletteShadow = "u8 \<Rightarrow> u8"

definition PaletteShadow_new :: PaletteShadow where "PaletteShadow_new = (\<lambda>_. 0)"
definition PaletteShadow_has :: "PaletteShadow \<Rightarrow> u8 \<Rightarrow> bool" where "PaletteShadow_has p i \<longleftrightarrow> p i \<noteq> 0"
definition PaletteShadow_count :: "PaletteShadow \<Rightarrow> u8 \<Rightarrow> u8" where "PaletteShadow_count p i = p i"
definition PaletteShadow_put :: "u8 \<Rightarrow> u8 \<Rightarrow> PaletteShadow \<Rightarrow> PaletteShadow" where
  "PaletteShadow_put i count p = (if 1 \<le> count \<and> count \<le> 16 then p(i := count) else p)"
definition PaletteShadow_clear :: "PaletteShadow \<Rightarrow> PaletteShadow" where "PaletteShadow_clear p = (\<lambda>_. 0)"

section \<open>Properties\<close>





text \<open>
  C14. Decode errors are rate limited.  For any calls in clock order, every window of one second
  contains at most 32 emissions, and two emissions for the same codec and tile are at least one
  second apart.
\<close>

theorem decode_errors_rate_limited:
  assumes "sorted (map error_call_time calls)"
  defines "ems \<equiv> error_run DecodeErrorBatcher_new calls"
  shows "length (in_window t (map snd ems)) \<le> GLOBAL_CAP \<and>
     (\<forall>i j. i < j \<longrightarrow> j < length ems \<longrightarrow> fst (ems ! i) = fst (ems ! j) \<longrightarrow>
        snd (ems ! i) + WINDOW_US \<le> snd (ems ! j))"
proof -
  have "deb_inv 0 [] DecodeErrorBatcher_new"
    by (simp add: deb_inv_def DecodeErrorBatcher_new_def in_window_def)
  then have "\<exists>now' b'. deb_inv now' ([] @ error_run DecodeErrorBatcher_new calls) b'"
    by (rule deb_inv_run) (simp_all add: assms(1))
  then obtain now' b' where "deb_inv now' ems b'" by (auto simp: ems_def)
  then show ?thesis unfolding deb_inv_def sorted_wrt_iff_nth_less by blast
qed

theorem decode_errors_rate_limited_witness:
  "length (in_window 9 (map snd (error_run DecodeErrorBatcher_new [(PalRle, 1, 2, 5, 7), (PalRle, 1, 2, 5, 9)])))
     \<le> GLOBAL_CAP"
  using decode_errors_rate_limited[of "[(PalRle, 1, 2, 5, 7), (PalRle, 1, 2, 5, 9)]" 9] by simp

end
