(* ===== verification/Tile_Decoder.thy ===== *)
theory Tile_Decoder
  imports Pal_Rle Batchers Cdf53_Tiles
begin

text \<open>
  From validated payloads to pixels on the client: the events of \<^verbatim>\<open>event.rs\<close>, the client's
  own PalRLE decoder (\<^verbatim>\<open>pal_rle_decode.rs\<close>) and the stateful \<^verbatim>\<open>TileDecoder\<close>
  of \<^verbatim>\<open>tile_decoder.rs\<close>, which decodes events one at a time or in batches that
  reconstruct a CDF 5/3 tile once.
\<close>

section \<open>Events\<close>

datatype TileData =
    TD_Solid quad
  | TD_PalRle u8 u8 bytes u8
  | TD_Cdf53 u8 bytes "u16 option" bool
  | TD_Cdf53Wire u8 bytes "u16 option" bool

text \<open>In the order of the fields of each variant.\<close>

datatype Event =
    TileReady u32 u8 u8 bytes
  | FrameDimensions u32 u32
  | NeedsH264 u32 u32 bool u32 u8 u8 bool bytes
  | DecodeError Codec u8 u8 DecodeErrorCode
  | TilePayload u32 u8 u8 u8 TileData
  | PaletteUpdated u8 "quad list"
  | Evicted EvictionReason

datatype PollOutput = Datagram bytes | PollStream bytes

section \<open>The client's PalRLE decoder\<close>

datatype PalRleVariant = PV_Bundled | PV_Thin | PV_IndicesRaw

record PrevalidatedPalRle =
  pp_variant :: PalRleVariant
  pp_wire_flags :: u8
  pp_palette_id :: u8
  pp_count :: u8
  pp_indices :: bytes
  pp_palette_upsert :: "bytes option"

text \<open>One index into its nibble, and a run of them; \<open>None\<close> past the last pixel.\<close>

definition put_index :: "nat \<Rightarrow> u8 \<Rightarrow> bytes \<Rightarrow> bytes" where
  "put_index pixel_idx idx indices =
     (let byte_idx = pixel_idx div 2; b = indices ! byte_idx
      in indices[byte_idx := if pixel_idx mod 2 = 0 then (b AND 0xF0) OR idx
                             else (b AND 0x0F) OR push_bit 4 idx])"

fun put_run :: "nat \<Rightarrow> u8 \<Rightarrow> nat \<Rightarrow> bytes \<Rightarrow> (nat \<times> bytes) option" where
  "put_run 0 idx pixel_idx indices = Some (pixel_idx, indices)"
| "put_run (Suc n) idx pixel_idx indices =
     (if pixel_idx \<ge> 1024 then None
      else put_run n idx (pixel_idx + 1) (put_index pixel_idx idx indices))"

fun expand_loop :: "bytes \<Rightarrow> nat \<Rightarrow> bytes \<Rightarrow> (nat \<times> bytes) option" where
  "expand_loop [] pixel_idx indices = Some (pixel_idx, indices)"
| "expand_loop (b # bs) pixel_idx indices =
     (let idx = drop_bit 4 b AND 0x0F; run_len = unat ((b AND 0x0F) + 1) in
      Option.bind (put_run run_len idx pixel_idx indices) (\<lambda>(pixel_idx, indices). expand_loop bs pixel_idx indices))"

definition expand_rle_to_indices :: "bytes \<Rightarrow> bytes option" where
  "expand_rle_to_indices rle_bytes =
     Option.bind (expand_loop rle_bytes 0 (replicate 512 0))
       (\<lambda>(pixel_idx, indices). if pixel_idx \<noteq> 1024 then None else Some indices)"

definition prevalidate_bundled :: "bytes \<Rightarrow> nat \<Rightarrow> (DecodeErrorCode, u8 \<times> bytes \<times> nat) result" where
  "prevalidate_bundled payload cursor =
     (if cursor \<ge> length payload then Inl BundledTruncated
      else
        let count = payload ! cursor; cursor = cursor + 1 in
        if \<not> (1 \<le> count \<and> count \<le> 16) then Inl CountOutOfRange
        else if cursor + unat count * 4 > length payload then Inl BundledTruncated
        else Inr (count, bslice cursor (cursor + unat count * 4) payload, cursor + unat count * 4))"

definition prevalidate_pal_rle :: "bytes \<Rightarrow> PaletteShadow \<Rightarrow> (DecodeErrorCode, PrevalidatedPalRle) result" where
  "prevalidate_pal_rle payload shadow =
     (if length payload < 2 then Inl PayloadTooShort
      else
        let flags = payload ! 0; palette_id = payload ! 1;
            bundled = (flags AND 0x01 \<noteq> 0); indices_raw = (flags AND 0x02 \<noteq> 0) in
        if indices_raw then
          (if length payload < 2 + 512 then Inl PayloadTooShort
           else if \<not> PaletteShadow_has shadow palette_id then Inl ThinUncachedPalette
           else Inr \<lparr> pp_variant = PV_IndicesRaw, pp_wire_flags = flags, pp_palette_id = palette_id,
                      pp_count = PaletteShadow_count shadow palette_id,
                      pp_indices = bslice 2 (2 + 512) payload, pp_palette_upsert = None \<rparr>)
        else
          res_bind (if bundled
                    then res_bind (prevalidate_bundled payload 2) (\<lambda>(count, upsert, cursor). Inr (count, Some upsert, cursor))
                    else if \<not> PaletteShadow_has shadow palette_id then Inl ThinUncachedPalette
                    else Inr (PaletteShadow_count shadow palette_id, None, 2)) (\<lambda>(count, palette_upsert, cursor).
          case expand_rle_to_indices (drop cursor payload) of
            None \<Rightarrow> Inl PayloadTooShort
          | Some indices \<Rightarrow>
              Inr \<lparr> pp_variant = if bundled then PV_Bundled else PV_Thin, pp_wire_flags = flags,
                    pp_palette_id = palette_id, pp_count = count, pp_indices = indices,
                    pp_palette_upsert = palette_upsert \<rparr>))"

text \<open>\<^verbatim>\<open>[[[u8; 4]; 16]; 256]\<close>\<close>

type_synonym palette_tables = "u8 \<Rightarrow> quad list"

definition palette_tables_new :: palette_tables where
  "palette_tables_new = (\<lambda>_. replicate 16 (0, 0, 0, 0))"

text \<open>The colours a bundled payload reports, and writing them over the front of a slot.\<close>

definition upsert_colors :: "bytes \<Rightarrow> u8 \<Rightarrow> quad list" where
  "upsert_colors upsert count = map (\<lambda>i. quad_at upsert (i * 4)) [0..<unat count]"

definition put_colors :: "u8 \<Rightarrow> quad list \<Rightarrow> palette_tables \<Rightarrow> palette_tables" where
  "put_colors palette_id colors palettes =
     (let slot = palettes palette_id
      in palettes(palette_id := take (length slot) colors @ drop (length colors) slot))"

fun rgba_of :: "quad \<Rightarrow> bytes" where
  "rgba_of (b, g, r, a) = [r, g, b, 255]"

definition decode_pal_rle_tile ::
    "bytes \<Rightarrow> PaletteShadow \<Rightarrow> palette_tables \<Rightarrow> (DecodeErrorCode, bytes) result \<times> PaletteShadow \<times> palette_tables" where
  "decode_pal_rle_tile payload shadow palettes =
     (case prevalidate_pal_rle payload shadow of
        Inl err \<Rightarrow> (Inl err, shadow, palettes)
      | Inr validated \<Rightarrow>
          let pid = pp_palette_id validated;
              (shadow, palettes) =
                (case pp_palette_upsert validated of
                   Some upsert \<Rightarrow> (PaletteShadow_put pid (pp_count validated) shadow,
                                   put_colors pid (upsert_colors upsert (pp_count validated)) palettes)
                 | None \<Rightarrow> (shadow, palettes));
              rgba = concat (map (\<lambda>pixel_idx.
                let byte = pp_indices validated ! (pixel_idx div 2);
                    idx = (if pixel_idx mod 2 = 0 then byte AND 0x0F else drop_bit 4 byte AND 0x0F)
                in rgba_of (palettes pid ! unat idx)) [0..<1024])
          in (Inr rgba, shadow, palettes))"

section \<open>Writing pixels\<close>

datatype TilePixels = TP_Solid quad | TP_PalRle "quad list" bytes | TP_Cdf53 bytes

definition pal_row :: "quad list \<Rightarrow> bytes \<Rightarrow> nat \<Rightarrow> bytes" where
  "pal_row palette indices y =
     (let src = (if y * 16 + 16 \<le> length indices then bslice (y * 16) (y * 16 + 16) indices else []);
          cells = concat (map (\<lambda>pair. rgba_of (palette ! unat (pair AND 0x0F)) @ rgba_of (palette ! unat (drop_bit 4 pair))) src)
      in cells @ replicate (128 - length cells) 0)"

text \<open>The 32 rows, end to end as a \<^verbatim>\<open>Vec\<close> of stride 128 holds them.\<close>

fun TilePixels_write :: "TilePixels \<Rightarrow> bytes option" where
  "TilePixels_write (TP_Solid bgra) = Some (concat (replicate 32 (concat (replicate 32 (rgba_of bgra)))))"
| "TilePixels_write (TP_PalRle palette indices) = Some (concat (map (pal_row palette indices) [0..<32]))"
| "TilePixels_write (TP_Cdf53 bgr) = map_option concat (write_bgr_rows bgr)"

section \<open>The tile decoder\<close>

record PendingTile =
  pt_frame_seq :: u32
  pt_generation :: u8

text \<open>
  The pending set of \<^verbatim>\<open>PendingCdf53\<close> is spread over the record; its scratch vector only keeps a
  buffer from being reallocated and is not modelled.
\<close>

record TileDecoder =
  td_palettes :: palette_tables
  td_cdf53 :: Cdf53TileState
  td_pending :: "(u8 \<times> u8) \<rightharpoonup> PendingTile"
  td_order :: "(u8 \<times> u8) list"
  td_since_tick :: nat
  td_cdf53_coalesced :: nat
  td_cdf53_passthrough :: bool
  td_cdf53_wire_failed :: nat

definition TileDecoder_new :: TileDecoder where
  "TileDecoder_new =
     \<lparr> td_palettes = palette_tables_new, td_cdf53 = Cdf53TileState_new, td_pending = (\<lambda>_. None), td_order = [],
       td_since_tick = 0, td_cdf53_coalesced = 0, td_cdf53_passthrough = False, td_cdf53_wire_failed = 0 \<rparr>"

definition with_cdf53_passthrough :: "bool \<Rightarrow> TileDecoder \<Rightarrow> TileDecoder" where
  "with_cdf53_passthrough on d = d\<lparr> td_cdf53_passthrough := on \<rparr>"

definition TICK_EVERY :: nat where "TICK_EVERY = 256"

datatype BatchStep = Out Event | BeforeReconstruct | Tick

definition expand_wire :: "Event \<Rightarrow> TileDecoder \<Rightarrow> Event option \<times> TileDecoder" where
  "expand_wire ev d =
     (case ev of
        TilePayload frame_seq tile_x tile_y generation (TD_Cdf53Wire pass_idx streams present_passes new_generation) \<Rightarrow>
          (case decode_cdf53_wire streams (replicate 384 0) of
             Inl _ \<Rightarrow> (None, d\<lparr> td_cdf53_wire_failed := td_cdf53_wire_failed d + 1 \<rparr>)
           | Inr bit_planes \<Rightarrow>
               (Some (TilePayload frame_seq tile_x tile_y generation
                        (TD_Cdf53 pass_idx bit_planes present_passes new_generation)), d))
      | _ \<Rightarrow> (Some ev, d))"

text \<open>
  A step hands its results to \<^verbatim>\<open>emit\<close> in order; here they are a list.  The sink is
  \<^verbatim>\<open>NoSlots\<close> and \<^verbatim>\<open>emit\<close> always goes on, as in \<^verbatim>\<open>decode\<close> and
  \<^verbatim>\<open>decode_batch\<close>.  \<open>None\<close> is a panic of the CDF 5/3 decoder.
\<close>

type_synonym decoded = "(BatchStep list \<times> TileDecoder) option"

definition place :: "u32 \<Rightarrow> u8 \<Rightarrow> u8 \<Rightarrow> TilePixels \<Rightarrow> TileDecoder \<Rightarrow> decoded" where
  "place frame_seq tile_x tile_y pixels d =
     map_option (\<lambda>rgba. ([Out (TileReady frame_seq tile_x tile_y rgba)], d)) (TilePixels_write pixels)"

definition flush_tile :: "u8 \<times> u8 \<Rightarrow> TileDecoder \<Rightarrow> decoded" where
  "flush_tile xy d =
     (case td_pending d xy of
        None \<Rightarrow> Some ([], d)
      | Some tile \<Rightarrow>
          let d = d\<lparr> td_pending := (td_pending d)(xy := None) \<rparr> in
          Option.bind (reconstruct (fst xy) (snd xy) (td_cdf53 d)) (\<lambda>(pic, cdf53).
          let d = d\<lparr> td_cdf53 := cdf53 \<rparr> in
          case pic of
            None \<Rightarrow> Some ([BeforeReconstruct], d)
          | Some bgr \<Rightarrow> map_option (\<lambda>(out, d). (BeforeReconstruct # out, d))
                          (place (pt_frame_seq tile) (fst xy) (snd xy) (TP_Cdf53 bgr) d)))"

fun flush_list :: "(u8 \<times> u8) list \<Rightarrow> TileDecoder \<Rightarrow> decoded" where
  "flush_list [] d = Some ([], d)"
| "flush_list (xy # xys) d =
     Option.bind (flush_tile xy d) (\<lambda>(out, d).
     map_option (\<lambda>(out', d). (out @ out', d)) (flush_list xys d))"

definition flush_all :: "TileDecoder \<Rightarrow> decoded" where
  "flush_all d = flush_list (td_order d) (d\<lparr> td_order := [] \<rparr>)"

text \<open>What must come after a pending picture flushes it first.\<close>

definition flush_before :: "Event \<Rightarrow> TileDecoder \<Rightarrow> decoded" where
  "flush_before ev d =
     (case ev of
        TilePayload _ x y generation data \<Rightarrow>
          (case data of
             TD_Solid _ \<Rightarrow> flush_tile (x, y) d
           | TD_PalRle _ _ _ _ \<Rightarrow> flush_tile (x, y) d
           | TD_Cdf53 _ _ _ new_generation \<Rightarrow>
               if (case td_pending d (x, y) of
                     Some p \<Rightarrow> new_generation \<or> pt_generation p \<noteq> generation | None \<Rightarrow> False)
               then flush_tile (x, y) d else Some ([], d)
           | TD_Cdf53Wire _ _ _ _ \<Rightarrow> Some ([], d))
      | PaletteUpdated _ _ \<Rightarrow> Some ([], d)
      | _ \<Rightarrow> flush_all d)"

definition decode_cdf53 ::
    "bool \<Rightarrow> u32 \<Rightarrow> u8 \<Rightarrow> u8 \<Rightarrow> PrevalidatedCdf53 \<Rightarrow> bool \<Rightarrow> TileDecoder \<Rightarrow> decoded" where
  "decode_cdf53 coalesce frame_seq x y entry new_generation d =
     (let d = (if new_generation then d\<lparr> td_cdf53 := forget_tile x y (td_cdf53 d) \<rparr> else d) in
      if \<not> coalesce then
        Option.bind (integrate_bgr x y entry (td_cdf53 d)) (\<lambda>(pic, cdf53).
        let d = d\<lparr> td_cdf53 := cdf53 \<rparr> in
        case pic of None \<Rightarrow> Some ([], d) | Some bgr \<Rightarrow> place frame_seq x y (TP_Cdf53 bgr) d)
      else
        let tick = (td_since_tick d + 1 \<ge> TICK_EVERY);
            d = d\<lparr> td_since_tick := if tick then 0 else td_since_tick d + 1 \<rparr>;
            (grown, cdf53) = accumulate x y entry (td_cdf53 d);
            d = d\<lparr> td_cdf53 := cdf53 \<rparr>;
            d = (if grown then
                   (let held = td_pending d (x, y) \<noteq> None;
                        d = d\<lparr> td_pending := (td_pending d)((x, y) \<mapsto>
                                 \<lparr> pt_frame_seq = frame_seq, pt_generation = pre_generation entry \<rparr>) \<rparr>
                    in if held then d\<lparr> td_cdf53_coalesced := td_cdf53_coalesced d + 1 \<rparr>
                       else d\<lparr> td_order := td_order d @ [(x, y)] \<rparr>)
                 else d)
        in Some (if tick then [Tick] else [], d))"

definition div_ceil :: "u32 \<Rightarrow> u32 \<Rightarrow> u32" where
  "div_ceil a b = (if a mod b = 0 then a div b else a div b + 1)"

definition TILE_SIZE :: u32 where "TILE_SIZE = 32"

definition in_grid :: "u32 \<Rightarrow> u32 \<Rightarrow> u8 \<Rightarrow> u8 \<Rightarrow> bool" where
  "in_grid width height x y \<longleftrightarrow> ucast x < div_ceil width TILE_SIZE \<and> ucast y < div_ceil height TILE_SIZE"

definition decode_event :: "bool \<Rightarrow> Event \<Rightarrow> TileDecoder \<Rightarrow> decoded" where
  "decode_event coalesce ev d =
     (case ev of
        TilePayload frame_seq x y generation data \<Rightarrow>
          (case data of
             TD_Solid bgra \<Rightarrow> place frame_seq x y (TP_Solid bgra) d
           | TD_PalRle palette_id _ indices _ \<Rightarrow> place frame_seq x y (TP_PalRle (td_palettes d palette_id) indices) d
           | TD_Cdf53Wire _ _ _ _ \<Rightarrow> Some ([], d)
           | TD_Cdf53 pass_idx bit_planes present_passes new_generation \<Rightarrow>
               if td_cdf53_passthrough d then Some ([Out ev], d)
               else decode_cdf53 coalesce frame_seq x y
                      \<lparr> pre_generation = generation, pre_pass_idx = pass_idx, pre_bit_planes = bit_planes,
                        pre_present_passes = present_passes \<rparr> new_generation d)
      | PaletteUpdated palette_id colors \<Rightarrow> Some ([], d\<lparr> td_palettes := put_colors palette_id colors (td_palettes d) \<rparr>)
      | FrameDimensions width height \<Rightarrow>
          Some ([Out ev], d\<lparr> td_cdf53 := retain_tiles (in_grid width height) (td_cdf53 d) \<rparr>)
      | _ \<Rightarrow> Some ([Out ev], d))"

definition decode_one :: "bool \<Rightarrow> Event \<Rightarrow> TileDecoder \<Rightarrow> decoded" where
  "decode_one coalesce ev d =
     (case expand_wire ev d of
        (None, d) \<Rightarrow> Some ([], d)
      | (Some ev, d) \<Rightarrow>
          Option.bind (if coalesce then flush_before ev d else Some ([], d)) (\<lambda>(out, d).
          map_option (\<lambda>(out', d). (out @ out', d)) (decode_event coalesce ev d)))"

definition step_event :: "BatchStep \<Rightarrow> Event list" where
  "step_event s = (case s of Out ev \<Rightarrow> [ev] | BeforeReconstruct \<Rightarrow> [] | Tick \<Rightarrow> [])"

text \<open>The last result of the closure in \<^verbatim>\<open>decode_into\<close>.\<close>

definition TileDecoder_decode :: "Event \<Rightarrow> TileDecoder \<Rightarrow> (Event option \<times> TileDecoder) option" where
  "TileDecoder_decode ev d =
     map_option (\<lambda>(out, d). (case concat (map step_event out) of [] \<Rightarrow> None | evs \<Rightarrow> Some (last evs), d))
       (decode_one False ev d)"

fun decode_each :: "bool \<Rightarrow> Event list \<Rightarrow> TileDecoder \<Rightarrow> decoded" where
  "decode_each coalesce [] d = Some ([], d)"
| "decode_each coalesce (ev # evs) d =
     Option.bind (decode_one coalesce ev d) (\<lambda>(out, d).
     map_option (\<lambda>(out', d). (out @ out', d)) (decode_each coalesce evs d))"

definition decode_batch :: "Event list \<Rightarrow> TileDecoder \<Rightarrow> (Event list \<times> TileDecoder) option" where
  "decode_batch events d =
     Option.bind (decode_each True events d) (\<lambda>(out, d).
     map_option (\<lambda>(out', d). (concat (map step_event (out @ out')), d)) (flush_all d))"

section \<open>PalRLE against the reference decoder\<close>

definition px :: "u8 list \<Rightarrow> nat \<Rightarrow> u8" where
  "px ps i = (if i < length ps then ps ! i else 0)"

definition packed :: "u8 list \<Rightarrow> bytes" where
  "packed ps = map (\<lambda>j. pack_nibbles (px ps (2 * j + 1)) (px ps (2 * j))) [0..<512]"

lemma pack_zero: "pack_nibbles 0 x = x"
  by (simp add: pack_nibbles_def)

lemma put_index_packed:
  assumes "length ps < 1024" "unat idx < 16" "\<And>q. q \<in> set ps \<Longrightarrow> unat q < 16"
  shows "put_index (length ps) idx (packed ps) = packed (ps @ [idx])"
proof (rule nth_equalityI)
  fix j assume "j < length (put_index (length ps) idx (packed ps))"
  then have j: "j < 512" by (simp add: put_index_def packed_def Let_def)
  have k: "length ps div 2 < 512" using assms(1) by auto
  show "put_index (length ps) idx (packed ps) ! j = packed (ps @ [idx]) ! j"
  proof (cases "j = length ps div 2")
    case False
    then have "px (ps @ [idx]) (2 * j + 1) = px ps (2 * j + 1)" "px (ps @ [idx]) (2 * j) = px ps (2 * j)"
      by (auto simp: px_def nth_append less_Suc_eq)
    then show ?thesis using False j
      by (simp add: put_index_def packed_def Let_def nth_list_update del: upt_rec_numeral)
  next
    case True
    show ?thesis
    proof (cases "length ps mod 2 = 0")
      case even: True
      then have "2 * j = length ps" using True by auto
      then have "px (ps @ [idx]) (2 * j + 1) = 0" "px (ps @ [idx]) (2 * j) = idx"
        "px ps (2 * j + 1) = 0" "px ps (2 * j) = 0" by (simp_all add: px_def)
      then show ?thesis using True j even k
        by (simp add: put_index_def packed_def Let_def pack_zero del: upt_rec_numeral)
    next
      case odd: False
      then have l: "2 * j + 1 = length ps" using True by presburger
      let ?b = "ps ! (2 * j)"
      have b: "px (ps @ [idx]) (2 * j + 1) = idx" "px (ps @ [idx]) (2 * j) = ?b"
        "px ps (2 * j + 1) = 0" "px ps (2 * j) = ?b" using l by (simp_all add: px_def nth_append)
      have "unat ?b < 16" using assms(3) l by (metis less_add_one nth_mem)
      then have "?b AND 0x0F = ?b" using lo_nibble_small[of ?b] by (simp add: lo_nibble_def)
      then show ?thesis using True j odd k b
        by (simp add: put_index_def packed_def Let_def pack_zero pack_nibbles_def or.commute del: upt_rec_numeral)
    qed
  qed
qed (simp add: put_index_def packed_def Let_def)

lemma put_run_packed:
  assumes "length ps \<le> 1024" "unat idx < 16" "\<And>q. q \<in> set ps \<Longrightarrow> unat q < 16"
  shows "put_run n idx (length ps) (packed ps) =
    (if length ps + n \<le> 1024 then Some (length ps + n, packed (ps @ replicate n idx)) else None)"
  using assms
proof (induction n arbitrary: ps)
  case (Suc n)
  have "length ps < 1024 \<Longrightarrow> put_run n idx (length (ps @ [idx])) (packed (ps @ [idx])) =
      (if length (ps @ [idx]) + n \<le> 1024
       then Some (length (ps @ [idx]) + n, packed ((ps @ [idx]) @ replicate n idx)) else None)"
    by (rule Suc.IH) (use Suc.prems in auto)
  then show ?case using put_index_packed[OF _ Suc.prems(2,3)] by (auto simp: not_le)
qed simp

lemma hi_nibble_mask: "drop_bit 4 b AND 0x0F = hi_nibble b"
  using lo_nibble_small[OF hi_nibble_less[of b]] by (simp add: lo_nibble_def hi_nibble_def)

lemma run_length_token: "unat ((b AND 0x0F) + 1 :: u8) = unat (lo_nibble b) + 1"
  using lo_nibble_less[of b] by (simp add: lo_nibble_def[symmetric] unat_word_ariths)

lemma expand_loop_packed:
  assumes "length ps \<le> 1024" "\<And>q. q \<in> set ps \<Longrightarrow> unat q < 16"
  shows "expand_loop bs (length ps) (packed ps) =
    (if length ps + length (expand_runs bs) \<le> 1024
     then Some (length ps + length (expand_runs bs), packed (ps @ expand_runs bs)) else None)"
  using assms
proof (induction bs arbitrary: ps)
  case (Cons b bs)
  define n i where n: "n = unat (lo_nibble b) + 1" and i: "i = hi_nibble b"
  have run: "run_pixels b = replicate n i" by (simp add: run_pixels_def n i)
  have i16: "unat i < 16" by (simp add: i hi_nibble_less)
  have step: "expand_loop (b # bs) (length ps) (packed ps) =
      Option.bind (put_run n i (length ps) (packed ps)) (\<lambda>(i, ind). expand_loop bs i ind)"
    by (simp add: hi_nibble_mask run_length_token n i del: put_run.simps)
  note put = put_run_packed[OF Cons.prems(1) i16 Cons.prems(2), where n = n]
  show ?case
  proof (cases "length ps + n \<le> 1024")
    case True
    have "expand_loop bs (length (ps @ replicate n i)) (packed (ps @ replicate n i)) =
        (if length (ps @ replicate n i) + length (expand_runs bs) \<le> 1024
         then Some (length (ps @ replicate n i) + length (expand_runs bs), packed ((ps @ replicate n i) @ expand_runs bs))
         else None)"
      by (rule Cons.IH) (use True Cons.prems i16 in auto)
    then show ?thesis using True put unfolding step by (simp add: run add.assoc)
  next
    case False
    then show ?thesis using put unfolding step by (simp add: run)
  qed
qed simp

lemma packed_Nil: "packed [] = replicate 512 0"
  by (simp add: packed_def px_def pack_zero map_replicate_const)

lemma expand_rle_spec:
  "expand_rle_to_indices rle = (if length (expand_runs rle) = 1024 then Some (packed (expand_runs rle)) else None)"
  using expand_loop_packed[of "[]" rle] by (auto simp: expand_rle_to_indices_def packed_Nil)

lemma nibbles_nth:
  "i < 2 * length p \<Longrightarrow> nibbles p ! i = (if i mod 2 = 0 then lo_nibble (p ! (i div 2)) else hi_nibble (p ! (i div 2)))"
proof (induction p arbitrary: i)
  case (Cons b p)
  show ?case
  proof (cases "i < 2")
    case True
    then show ?thesis by (auto simp: nibbles_def less_2_cases_iff)
  next
    case False
    then obtain k where k: "i = k + 2" by (metis add.commute le_Suc_ex not_le)
    have "nibbles (b # p) ! (k + 2) = nibbles p ! k" by (simp add: nibbles_def)
    then show ?thesis using Cons k by simp
  qed
qed simp

lemma nibbles_packed:
  assumes "length ps = 1024" "\<And>q. q \<in> set ps \<Longrightarrow> unat q < 16"
  shows "nibbles (packed ps) = ps"
proof (rule nth_equalityI)
  have len: "length (packed ps) = 512" by (simp add: packed_def)
  then show "length (nibbles (packed ps)) = length ps" using assms(1) by simp
  fix i assume "i < length (nibbles (packed ps))"
  then have i: "i < 1024" using len by simp
  have sm: "lo_nibble (px ps k) = px ps k" for k
    using assms by (intro lo_nibble_small) (auto simp: px_def)
  have byte: "packed ps ! (i div 2) = pack_nibbles (px ps (2 * (i div 2) + 1)) (px ps (2 * (i div 2)))"
    using less_mult_imp_div_less[of i 512 2] i by (simp add: packed_def del: upt_rec_numeral)
  have "hi_nibble (packed ps ! (i div 2)) = px ps (2 * (i div 2) + 1)" "lo_nibble (packed ps ! (i div 2)) = px ps (2 * (i div 2))"
    unfolding byte using hi_pack_nibbles[of "px ps (2 * (i div 2) + 1)" "px ps (2 * (i div 2))"]
      lo_pack_nibbles[of "px ps (2 * (i div 2) + 1)" "px ps (2 * (i div 2))"] by (simp_all only: sm)
  moreover have "i mod 2 = 0 \<Longrightarrow> 2 * (i div 2) = i" "i mod 2 \<noteq> 0 \<Longrightarrow> 2 * (i div 2) + 1 = i" by presburger+
  ultimately show "nibbles (packed ps) ! i = ps ! i"
    using i len assms(1) by (subst nibbles_nth) (auto simp: px_def)
qed

lemma expand_runs_less: "i \<in> set (expand_runs bs) \<Longrightarrow> unat i < 16"
  by (auto simp: expand_runs_def run_pixels_def hi_nibble_less)

lemma decode_loop_success:
  "decode_pal_rle_loop p bs n buf = Inr (m, out) \<Longrightarrow>
     m = n + length (expand_runs bs) \<and> (\<forall>i \<in> set (expand_runs bs). i < pe_count p)"
proof (induction bs arbitrary: n buf)
  case (Cons b bs)
  have ok: "hi_nibble b < pe_count p"
    "decode_pal_rle_loop p bs (n + (unat (lo_nibble b) + 1))
       (write_run (unat (lo_nibble b) + 1) (fix_alpha (pe_colors p ! unat (hi_nibble b))) n buf) = Inr (m, out)"
    using Cons.prems by (auto simp: Let_def not_le split: if_splits)
  show ?case using Cons.IH[OF ok(2)] ok(1) by (auto simp: length_run_pixels run_pixels_def)
qed simp

lemma decode_loop_pixels:
  assumes "decode_pal_rle_loop p bs 0 (replicate 4096 0) = Inr (1024, out)"
  shows "length (expand_runs bs) = 1024" "\<And>i. i \<in> set (expand_runs bs) \<Longrightarrow> i < pe_count p"
    "out = concat (map (\<lambda>i. quad_bytes (pixel_color p i)) (expand_runs bs))"
proof -
  show l: "length (expand_runs bs) = 1024" and c: "\<And>i. i \<in> set (expand_runs bs) \<Longrightarrow> i < pe_count p"
    using decode_loop_success[OF assms] by auto
  show "out = concat (map (\<lambda>i. quad_bytes (pixel_color p i)) (expand_runs bs))"
    using decode_pal_rle_loop_expand[of bs p "[]" 0 "replicate 4096 0"] l c assms by (simp add: o_def)
qed

lemma tile_rgba_quads:
  assumes "length qs = 1024"
  shows "tile_rgba (concat (map quad_bytes qs)) = concat (map rgba_of qs)"
proof -
  have nth: "concat (map quad_bytes qs) ! (4 * i + c) = quad_bytes (qs ! i) ! c" if "i < length qs" "c < 4" for i c
    using that
  proof (induction qs arbitrary: i)
    case (Cons q qs)
    then show ?case by (cases i) (simp_all add: nth_append)
  qed simp
  have "[concat (map quad_bytes qs) ! (4 * i + 2), concat (map quad_bytes qs) ! (4 * i + 1),
      concat (map quad_bytes qs) ! (4 * i), 255] = rgba_of (qs ! i)" if "i < 1024" for i
    using nth[of i 2] nth[of i 1] nth[of i 0] that assms by (cases "qs ! i") simp
  then have "tile_rgba (concat (map quad_bytes qs)) = concat (map (\<lambda>i. rgba_of (qs ! i)) [0..<1024])"
    unfolding tile_rgba_def by (intro arg_cong[of _ _ concat] map_cong refl) simp
  also have "map (\<lambda>i. rgba_of (qs ! i)) [0..<1024] = map rgba_of qs"
    using assms by (intro nth_equalityI) (simp_all del: upt_rec_numeral)
  finally show ?thesis .
qed

lemma rgba_pixel_color: "rgba_of (pixel_color p i) = rgba_of (pe_colors p ! unat i)"
  by (cases "pe_colors p ! unat i") (simp add: pixel_color_def)

text \<open>Both pixel writers, given the indices of a tile.\<close>

lemma pixel_reads:
  assumes "length ind = 512"
  shows "map (\<lambda>i. let byte = ind ! (i div 2); idx = (if i mod 2 = 0 then byte AND 0x0F else drop_bit 4 byte AND 0x0F)
           in rgba_of (slot ! unat idx)) [0..<1024] = map (\<lambda>i. rgba_of (slot ! unat i)) (nibbles ind)"
proof (rule nth_equalityI)
  fix i assume "i < length (map (\<lambda>i. let byte = ind ! (i div 2);
      idx = (if i mod 2 = 0 then byte AND 0x0F else drop_bit 4 byte AND 0x0F)
      in rgba_of (slot ! unat idx)) [0..<1024])"
  then have i: "i < 1024" by simp
  then have "[0..<1024] ! i = i" by (simp del: upt_rec_numeral)
  then show "map (\<lambda>i. let byte = ind ! (i div 2);
      idx = (if i mod 2 = 0 then byte AND 0x0F else drop_bit 4 byte AND 0x0F)
      in rgba_of (slot ! unat idx)) [0..<1024] ! i = map (\<lambda>i. rgba_of (slot ! unat i)) (nibbles ind) ! i"
    using i assms unfolding hi_nibble_mask
    by (simp add: Let_def nibbles_nth lo_nibble_def[symmetric] del: upt_rec_numeral)
qed (simp add: assms)

lemma concat_map_pieces: "concat (map (\<lambda>c. concat (map f c)) cs) = concat (map f (concat cs))"
  by (induction cs) simp_all

lemma pal_rows:
  assumes "length ind = 512"
  shows "concat (map (pal_row slot ind) [0..<32]) = concat (map (\<lambda>i. rgba_of (slot ! unat i)) (nibbles ind))"
proof -
  let ?cell = "\<lambda>pair. rgba_of (slot ! unat (pair AND 0x0F)) @ rgba_of (slot ! unat (drop_bit 4 pair))"
  have lr: "length (rgba_of q) = 4" for q by (cases q) simp
  have row: "pal_row slot ind y = concat (map ?cell (bslice (y * 16) (y * 16 + 16) ind))" if "y < 32" for y
  proof -
    have "length (bslice (y * 16) (y * 16 + 16) ind) = 16" using that assms by simp
    then have "length (concat (map ?cell (bslice (y * 16) (y * 16 + 16) ind))) = 128"
      using length_concat_map_const[of "bslice (y * 16) (y * 16 + 16) ind" ?cell 8] by (simp add: lr)
    moreover have "y * 16 + 16 \<le> length ind" using that assms by simp
    ultimately show ?thesis unfolding pal_row_def Let_def by simp
  qed
  have "map (pal_row slot ind) [0..<32] = map (\<lambda>y. concat (map ?cell (bslice (y * 16) (y * 16 + 16) ind))) [0..<32]"
    by (intro map_cong refl) (simp add: row del: upt_rec_numeral)
  also have "\<dots> = map (\<lambda>c. concat (map ?cell c)) (chunks 16 ind)"
    using chunks_exact[of 16 ind 32] assms by (simp add: o_def del: upt_rec_numeral)
  finally have "concat (map (pal_row slot ind) [0..<32]) = concat (map (\<lambda>c. concat (map ?cell c)) (chunks 16 ind))"
    by simp
  also have "\<dots> = concat (map ?cell (concat (chunks 16 ind)))"
    by (rule concat_map_pieces)
  also have "\<dots> = concat (map ?cell ind)" by simp
  also have "\<dots> = concat (map (\<lambda>i. rgba_of (slot ! unat i)) (nibbles ind))"
    by (induction ind) (simp_all add: nibbles_def lo_nibble_def hi_nibble_def)
  finally show ?thesis .
qed

text \<open>
  What the client holds of the palette a payload names: the one it carries, or the one the reference
  decoder was given.
\<close>

definition palette_in_step :: "bytes \<Rightarrow> PaletteEntry option \<Rightarrow> PaletteShadow \<Rightarrow> palette_tables \<Rightarrow> bool" where
  "palette_in_step payload cached shadow palettes \<longleftrightarrow>
     (payload ! 0 AND 1 = 0 \<longrightarrow>
        (case cached of
           None \<Rightarrow> False
         | Some p \<Rightarrow> PaletteShadow_count shadow (payload ! 1) = pe_count p \<and>
             take (unat (pe_count p)) (palettes (payload ! 1)) = take (unat (pe_count p)) (pe_colors p)))"

text \<open>Once validated, both writers give the pixels of the runs through the slot the client now holds.\<close>

lemma decode_tile_validated:
  fixes palettes :: palette_tables
  assumes v: "prevalidate_pal_rle payload shadow = Inr v" "pp_indices v = packed ps"
    and ps: "length ps = 1024" "\<And>i. i \<in> set ps \<Longrightarrow> unat i < 16"
  defines "palettes' \<equiv> (case pp_palette_upsert v of None \<Rightarrow> palettes
      | Some u \<Rightarrow> put_colors (pp_palette_id v) (upsert_colors u (pp_count v)) palettes)"
  shows "fst (decode_pal_rle_tile payload shadow palettes) =
      Inr (concat (map (\<lambda>i. rgba_of (palettes' (pp_palette_id v) ! unat i)) ps))"
    "snd (snd (decode_pal_rle_tile payload shadow palettes)) = palettes'"
    "TilePixels_write (TP_PalRle (palettes' (pp_palette_id v)) (pp_indices v)) =
      Some (concat (map (\<lambda>i. rgba_of (palettes' (pp_palette_id v) ! unat i)) ps))"
proof -
  have len: "length (pp_indices v) = 512" by (simp add: v(2) packed_def)
  have nib: "nibbles (pp_indices v) = ps" using nibbles_packed[OF ps] by (simp add: v(2))
  show "fst (decode_pal_rle_tile payload shadow palettes) =
      Inr (concat (map (\<lambda>i. rgba_of (palettes' (pp_palette_id v) ! unat i)) ps))"
    "snd (snd (decode_pal_rle_tile payload shadow palettes)) = palettes'"
    unfolding decode_pal_rle_tile_def v(1) palettes'_def
    using pixel_reads[OF len] nib
    by (auto simp: Let_def simp del: upt_rec_numeral split: option.split)
  show "TilePixels_write (TP_PalRle (palettes' (pp_palette_id v)) (pp_indices v)) =
      Some (concat (map (\<lambda>i. rgba_of (palettes' (pp_palette_id v) ! unat i)) ps))"
    using pal_rows[OF len] nib by (simp del: upt_rec_numeral)
qed

text \<open>A payload the reference decoder accepts, split into its palette and its runs.\<close>

lemma reference_accepts:
  assumes "decode_pal_rle payload cached = Inr d"
  obtains p cursor where "2 \<le> length payload"
    "if payload ! 0 AND 1 \<noteq> 0 then decode_bundled_palette payload 2 = Inr (p, cursor)
     else cached = Some p \<and> cursor = 2"
    "decode_pal_rle_loop p (drop cursor payload) 0 (replicate 4096 0) = Inr (1024, dp_pixels d)"
proof -
  show thesis
    using assms that unfolding decode_pal_rle_def
    by (auto simp: res_bind_eq_Inr pal_needed_def Let_def split: if_splits option.splits prod.splits)
qed

lemma client_accepts:
  assumes dec: "decode_pal_rle payload cached = Inr d" and raw: "payload ! 0 AND 2 = 0"
    and sync: "palette_in_step payload cached shadow palettes" and slot: "length (palettes (payload ! 1)) = 16"
  obtains v ps where "prevalidate_pal_rle payload shadow = Inr v" "pp_indices v = packed ps" "length ps = 1024"
    "\<And>i. i \<in> set ps \<Longrightarrow> unat i < 16"
    "concat (map (\<lambda>i. rgba_of ((case pp_palette_upsert v of None \<Rightarrow> palettes
        | Some u \<Rightarrow> put_colors (pp_palette_id v) (upsert_colors u (pp_count v)) palettes) (pp_palette_id v) ! unat i)) ps)
     = tile_rgba (dp_pixels d)"
proof -
  obtain p cursor where len: "2 \<le> length payload" and pal: "if payload ! 0 AND 1 \<noteq> 0
      then decode_bundled_palette payload 2 = Inr (p, cursor) else cached = Some p \<and> cursor = 2"
    and loop: "decode_pal_rle_loop p (drop cursor payload) 0 (replicate 4096 0) = Inr (1024, dp_pixels d)"
    using reference_accepts[OF dec] .
  define ps where "ps = expand_runs (drop cursor payload)"
  have ps: "length ps = 1024" "\<And>i. i \<in> set ps \<Longrightarrow> i < pe_count p" "\<And>i. i \<in> set ps \<Longrightarrow> unat i < 16"
    and out: "dp_pixels d = concat (map quad_bytes (map (pixel_color p) ps))"
    using decode_loop_pixels[OF loop] expand_runs_less by (auto simp: ps_def o_def)
  have exp: "expand_rle_to_indices (drop cursor payload) = Some (packed ps)"
    using ps(1) by (simp add: expand_rle_spec ps_def)
  have "hd ps \<in> set ps" using ps(1) by (intro hd_in_set) auto
  then have cnt: "pe_count p \<noteq> 0" using ps(2) by force
  have want: "tile_rgba (dp_pixels d) = concat (map (\<lambda>i. rgba_of (pe_colors p ! unat i)) ps)"
    using tile_rgba_quads[of "map (pixel_color p) ps"] ps(1) by (simp add: out o_def rgba_pixel_color)
  have same: "concat (map (\<lambda>i. rgba_of (sl ! unat i)) ps) = tile_rgba (dp_pixels d)"
    if "take (unat (pe_count p)) sl = take (unat (pe_count p)) (pe_colors p)" for sl
  proof -
    have "sl ! unat i = pe_colors p ! unat i" if "i \<in> set ps" for i
      using ps(2)[OF that] \<open>take _ sl = _\<close> by (metis nth_take word_less_nat_alt)
    then show ?thesis unfolding want by (auto intro!: arg_cong[of _ _ concat])
  qed
  show thesis
  proof (cases "payload ! 0 AND 1 \<noteq> 0")
    case False
    then have c: "cached = Some p" "cursor = 2" using pal by auto
    have sh: "shadow (payload ! 1) = pe_count p" "take (unat (pe_count p)) (palettes (payload ! 1)) = take (unat (pe_count p)) (pe_colors p)"
      using sync False by (auto simp: palette_in_step_def c(1) PaletteShadow_count_def)
    have "prevalidate_pal_rle payload shadow = Inr \<lparr> pp_variant = PV_Thin, pp_wire_flags = payload ! 0,
        pp_palette_id = payload ! 1, pp_count = pe_count p, pp_indices = packed ps, pp_palette_upsert = None \<rparr>"
      using False len raw exp sh(1) cnt c(2)
      by (simp add: prevalidate_pal_rle_def Let_def PaletteShadow_has_def PaletteShadow_count_def)
    then show thesis using that same[OF sh(2)] ps by simp
  next
    case True
    let ?n = "unat (payload ! 2)"
    have b: "2 < length payload" "1 \<le> payload ! 2" "payload ! 2 \<le> 16" "3 + ?n * 4 \<le> length payload" "cursor = 3 + ?n * 4"
      "pe_count p = payload ! 2" "take ?n (pe_colors p) = map (\<lambda>i. quad_at payload (3 + i * 4)) [0..<?n]"
      using pal True by (auto simp: decode_bundled_palette_def pal_needed_def Let_def res_bind_eq_Inr word_le_nat_alt
          unat_gt_0[symmetric] not_less split: if_splits)
    define u where "u = bslice 3 (3 + ?n * 4) payload"
    have cols: "upsert_colors u (payload ! 2) = map (\<lambda>i. quad_at payload (3 + i * 4)) [0..<?n]"
      unfolding upsert_colors_def
      by (intro map_cong refl) (use b(4) in \<open>auto simp: u_def quad_at_def bslice_def\<close>)
    have "prevalidate_pal_rle payload shadow = Inr \<lparr> pp_variant = PV_Bundled, pp_wire_flags = payload ! 0,
        pp_palette_id = payload ! 1, pp_count = payload ! 2, pp_indices = packed ps, pp_palette_upsert = Some u \<rparr>"
      using True len raw exp b by (simp add: prevalidate_pal_rle_def prevalidate_bundled_def Let_def u_def)
    moreover have "take ?n (put_colors (payload ! 1) (upsert_colors u (payload ! 2)) palettes (payload ! 1)) = take ?n (pe_colors p)"
      using slot b(3) by (simp add: put_colors_def cols b(7) word_le_nat_alt)
    ultimately show thesis using that same b(6) ps by simp
  qed
qed

section \<open>Properties\<close>

text \<open>
  C34. Two PalRLE decoders, one picture.  Whenever the protocol's decoder accepts a payload in run form,
  with the palette the payload carries or the one cached for it, a client in step with that palette
  accepts it too and paints exactly those pixels in RGBA with full alpha: through its own decoder, and
  through validated indices handed to the tile decoder's row writer after the palette update.
\<close>

theorem client_pal_rle_agrees:
  assumes "decode_pal_rle payload cached = Inr d" "payload ! 0 AND 2 = 0"
    and "palette_in_step payload cached shadow palettes" "length (palettes (payload ! 1)) = 16"
  shows "\<exists>shadow' palettes' v.
    decode_pal_rle_tile payload shadow palettes = (Inr (tile_rgba (dp_pixels d)), shadow', palettes') \<and>
    prevalidate_pal_rle payload shadow = Inr v \<and>
    palettes' = (case pp_palette_upsert v of None \<Rightarrow> palettes
      | Some u \<Rightarrow> put_colors (pp_palette_id v) (upsert_colors u (pp_count v)) palettes) \<and>
    TilePixels_write (TP_PalRle (palettes' (pp_palette_id v)) (pp_indices v)) = Some (tile_rgba (dp_pixels d))"
proof -
  obtain v ps where v: "prevalidate_pal_rle payload shadow = Inr v" "pp_indices v = packed ps" "length ps = 1024"
    "\<And>i. i \<in> set ps \<Longrightarrow> unat i < 16"
    "concat (map (\<lambda>i. rgba_of ((case pp_palette_upsert v of None \<Rightarrow> palettes
        | Some u \<Rightarrow> put_colors (pp_palette_id v) (upsert_colors u (pp_count v)) palettes) (pp_palette_id v) ! unat i)) ps)
     = tile_rgba (dp_pixels d)"
    using client_accepts[OF assms] by blast
  note dt = decode_tile_validated[OF v(1-4), of palettes, unfolded v(5)]
  show ?thesis
    by (rule exI[of _ "fst (snd (decode_pal_rle_tile payload shadow palettes))"], rule exI, rule exI[of _ v])
      (use dt v(1) in \<open>simp add: prod_eq_iff\<close>)
qed

theorem client_pal_rle_agrees_witness:
  "\<exists>payload d shadow' palettes'.
     encode_pal_rle_payload (replicate 512 0) \<lparr> pe_colors = replicate 16 (10, 20, 30, 0), pe_count = 1 \<rparr> 7 True = Some payload \<and>
     decode_pal_rle payload None = Inr d \<and>
     decode_pal_rle_tile payload PaletteShadow_new palette_tables_new = (Inr (tile_rgba (dp_pixels d)), shadow', palettes')"
proof -
  let ?p = "\<lparr> pe_colors = replicate 16 (10, 20, 30, 0), pe_count = 1 \<rparr> :: PaletteEntry"
  obtain payload where e: "encode_pal_rle_payload (replicate 512 0) ?p 7 True = Some payload"
    by (simp add: encode_pal_rle_payload_def Let_def)
  then have pl: "payload ! 0 = 1" "payload ! 1 = 7" by (auto simp: encode_pal_rle_payload_def Let_def)
  have "\<And>i. i \<in> set (nibbles (replicate 512 0)) \<Longrightarrow> i < pe_count ?p"
    by (simp add: nibbles_def lo_nibble_def hi_nibble_def)
  then obtain d where d: "decode_pal_rle payload None = Inr d"
    using decode_bundled[OF _ _ _ e, of None] by (auto simp: palette_wf_def)
  have "payload ! 0 AND 2 = 0" "palette_in_step payload None PaletteShadow_new palette_tables_new"
    "length (palette_tables_new (payload ! 1)) = 16"
    by (simp_all add: pl palette_in_step_def palette_tables_new_def)
  from client_pal_rle_agrees[OF d this] e d show ?thesis by blast
qed

end
