(* ===== verification/Tile_Batch.thy ===== *)
theory Tile_Batch
  imports Tile_Decoder
begin

text \<open>
  Decoding a batch against decoding one event at a time.  A batch accumulates the CDF 5/3 passes of a tile
  and reconstructs it once; what is on the screen at the end is the same, as long as no pass of a tile
  arrives twice with different content.
\<close>

section \<open>Well-formed tiles\<close>

definition tile_wf :: "TileEntry \<Rightarrow> bool" where
  "tile_wf t \<longleftrightarrow>
     length (te_planes t) = 14 \<and>
     (\<forall>i < 14. bit (te_received t) i \<longleftrightarrow> te_planes t ! i \<noteq> None) \<and>
     (case te_drawn_prefix t of None \<Rightarrow> True | Some k \<Rightarrow> k \<le> prefix_len t)"

definition plane_of :: "bytes option \<Rightarrow> bytes" where
  "plane_of p = (case p of Some plane \<Rightarrow> plane | None \<Rightarrow> replicate 384 0)"

definition prefix_planes :: "TileEntry \<Rightarrow> bytes list" where
  "prefix_planes t = map plane_of (take (prefix_len t) (te_planes t))"

definition empty_prefix :: "bytes list \<Rightarrow> bool" where
  "empty_prefix planes \<longleftrightarrow> length planes < 14 \<and>
     (case decode_planes planes of None \<Rightarrow> False | Some ds \<Rightarrow> \<forall>c \<in> set ds. c = 0)"

definition prefix_bgr :: "bytes list \<Rightarrow> bytes option" where
  "prefix_bgr planes = Option.bind (decode_planes planes) inverse"

lemma prefix_len_le: "prefix_len t \<le> 14"
  using length_takeWhile_le[of _ "[0..<14]"] by (simp add: prefix_len_def resolved_prefix_def Let_def del: upt_rec_numeral)

lemma length_prefix_planes: "tile_wf t \<Longrightarrow> length (prefix_planes t) = prefix_len t"
  using prefix_len_le[of t] by (simp add: prefix_planes_def tile_wf_def)

lemma prefix_bgr_Some:
  assumes "length planes \<le> 14"
  obtains bgr rgba where "prefix_bgr planes = Some bgr" "TilePixels_write (TP_Cdf53 bgr) = Some rgba"
proof -
  obtain ds where ds: "decode_planes planes = Some ds" using assms by (auto simp: decode_planes_def)
  obtain bgr where b: "inverse ds = Some bgr" "length bgr = 3072"
    using length_decode_planes[OF ds] by (auto simp: inverse_def Let_def simp del: upt_rec_numeral)
  show thesis by (rule that[of bgr]) (use ds b in \<open>simp_all add: prefix_bgr_def write_bgr_rows_def del: upt_rec_numeral\<close>)
qed

lemma draw_tile_spec:
  assumes "tile_wf t"
  shows "draw_tile t = Some (if te_drawn_prefix t = Some (prefix_len t) \<or> empty_prefix (prefix_planes t)
    then (None, t) else (prefix_bgr (prefix_planes t), t\<lparr> te_drawn_prefix := Some (prefix_len t) \<rparr>))"
proof -
  obtain bgr rgba where b: "prefix_bgr (prefix_planes t) = Some bgr" "TilePixels_write (TP_Cdf53 bgr) = Some rgba"
    using prefix_bgr_Some[of "prefix_planes t"] length_prefix_planes[OF assms] prefix_len_le by metis
  have "map (\<lambda>p. case p of Some plane \<Rightarrow> plane | None \<Rightarrow> replicate 384 0) (take (prefix_len t) (te_planes t)) = prefix_planes t"
    by (simp add: prefix_planes_def plane_of_def)
  then show ?thesis using b length_prefix_planes[OF assms] unfolding draw_tile_def Let_def
    by (auto simp: empty_prefix_def prefix_bgr_def split: bind_splits option.splits)
qed

subsection \<open>A longer prefix carries what a shorter one does\<close>

lemma plane_magnitude_append:
  assumes "plane_magnitude planes ch i \<noteq> 0"
  shows "plane_magnitude (planes @ more_planes) ch i \<noteq> 0"
proof (cases "planes = []")
  case False
  let ?f = "\<lambda>ps mag p. if plane_bit_at (ps ! p) ch i then mag OR push_bit (13 - p) 1 else mag :: nat"
  have or1: "0 < m \<Longrightarrow> 0 < m OR n" for m n :: nat using or_eq_0_iff[of m n] by simp
  have or: "0 < foldl (?f ps) m is" if "0 < m" for m ps "is"
    using that by (induction "is" arbitrary: m) (auto intro: or1)
  have "[1..<length (planes @ more_planes)] = [1..<length planes] @ [length planes..<length (planes @ more_planes)]"
    using False upt_add_eq_append[of 1 "length planes" "length more_planes"] by (simp add: Suc_le_eq)
  moreover have "foldl (?f (planes @ more_planes)) 0 [1..<length planes] = foldl (?f planes) 0 [1..<length planes]"
    by (rule foldl_cong) (simp_all add: nth_append)
  moreover have "0 < foldl (?f planes) 0 [1..<length planes]" using assms by (simp add: plane_magnitude_def)
  ultimately have "0 < plane_magnitude (planes @ more_planes) ch i"
    unfolding plane_magnitude_def using or by (simp only: foldl_append)
  then show ?thesis by simp
qed (use assms in \<open>simp add: plane_magnitude_def\<close>)

lemma decode_coeff_zero: "decode_coeff planes ch i = 0 \<longleftrightarrow> plane_magnitude planes ch i = 0"
  by (auto simp: decode_coeff_def Let_def)

lemma empty_prefix_iff:
  assumes "length planes \<le> 14"
  shows "empty_prefix planes \<longleftrightarrow> length planes < 14 \<and> (\<forall>ch < 3. \<forall>i < 1024. plane_magnitude planes ch i = 0)"
proof -
  obtain ds where ds: "decode_planes planes = Some ds"
    "set ds = (\<Union>ch < 3. decode_coeff planes ch ` {..<1024})"
    using assms by (auto simp: decode_planes_def lessThan_atLeast0 simp del: upt_rec_numeral)
  have all: "(\<forall>c \<in> (\<Union>ch < m. f ch ` {..<n}). c = 0) \<longleftrightarrow> (\<forall>ch < m. \<forall>i < n. f ch i = 0)"
    for f :: "nat \<Rightarrow> nat \<Rightarrow> int" and m n :: nat by auto
  show ?thesis unfolding empty_prefix_def ds(1) option.case ds(2) all decode_coeff_zero ..
qed

lemma empty_prefix_shorter:
  assumes "empty_prefix (planes @ more_planes)" shows "empty_prefix planes"
proof -
  have l: "length (planes @ more_planes) \<le> 14" "length planes \<le> 14" using assms by (auto simp: empty_prefix_def)
  have "plane_magnitude planes ch i = 0" if "plane_magnitude (planes @ more_planes) ch i = 0" for ch i
    using that plane_magnitude_append[of planes ch i more_planes] by blast
  then show ?thesis using assms unfolding empty_prefix_iff[OF l(1)] empty_prefix_iff[OF l(2)] by simp
qed

subsection \<open>Storing a pass that fits\<close>

text \<open>
  A pass fits the generation a tile holds: it is one of the fourteen, has the content it had before if it
  was there before, and belongs to the announced bitmap, which does not change.
\<close>

definition pass_fits :: "PrevalidatedCdf53 \<Rightarrow> TileEntry \<Rightarrow> bool" where
  "pass_fits e t \<longleftrightarrow>
     (let i = unat (pre_pass_idx e); t = begin_generation (pre_generation e) t in
      i < 14 \<and>
      (te_planes t ! i = None \<or> te_planes t ! i = Some (pre_bit_planes e)) \<and>
      (case pre_present_passes e of
         None \<Rightarrow> (case te_present_passes t of None \<Rightarrow> True | Some m \<Rightarrow> bit m i)
       | Some n \<Rightarrow> bit n i \<and> (\<forall>j < 14. bit (te_received t) j \<longrightarrow> bit n j) \<and>
           (te_present_passes t = None \<or> te_present_passes t = Some n)))"

lemma begin_wf: "tile_wf t \<Longrightarrow> tile_wf (begin_generation g t)"
  by (simp add: tile_wf_def begin_generation_def)

lemma bit_or_pass: "i < 14 \<Longrightarrow> bit (r OR 2 ^ i :: u16) j \<longleftrightarrow> bit r j \<or> j = i"
  by (auto simp: bit_or_iff bit_exp_iff)

definition resolved :: "TileEntry \<Rightarrow> nat \<Rightarrow> bool" where
  "resolved t i \<longleftrightarrow> bit (te_received t) i \<or> (case te_present_passes t of None \<Rightarrow> False | Some m \<Rightarrow> \<not> bit m i)"

lemma prefix_len_resolved: "prefix_len t = length (takeWhile (resolved t) [0..<14])"
proof -
  have "bit (case te_present_passes t of Some present \<Rightarrow> te_received t OR NOT present | None \<Rightarrow> te_received t) i \<longleftrightarrow> resolved t i"
    if "i < 14" for i using that by (cases "te_present_passes t") (auto simp: resolved_def bit_or_iff bit_not_iff)
  then show ?thesis
    unfolding prefix_len_def resolved_prefix_def Let_def bit_test
    by (intro arg_cong[of _ _ length] takeWhile_cong) simp_all
qed

lemma prefix_resolved: "i < prefix_len t \<Longrightarrow> resolved t i"
  using nth_mem[of i "takeWhile (resolved t) [0..<14]"] set_takeWhileD[of _ "resolved t" "[0..<14]"]
    takeWhile_nth[of i "resolved t" "[0..<14]"] prefix_len_le[of t]
  by (auto simp: prefix_len_resolved simp del: upt_rec_numeral)

lemma prefix_len_mono:
  assumes "\<And>i. i < 14 \<Longrightarrow> resolved t i \<Longrightarrow> resolved t' i" shows "prefix_len t \<le> prefix_len t'"
proof (rule ccontr)
  assume less: "\<not> ?thesis"
  then have n: "prefix_len t' < 14" using prefix_len_le[of t] by simp
  have "\<not> resolved t' ([0..<14] ! prefix_len t')"
    using n nth_length_takeWhile[of "resolved t'" "[0..<14]"] by (simp add: prefix_len_resolved del: upt_rec_numeral)
  moreover have "resolved t (prefix_len t')" using less by (intro prefix_resolved) simp
  ultimately show False using n assms by (simp del: upt_rec_numeral)
qed

lemma store_fits:
  assumes wf: "tile_wf t" and fit: "pass_fits e t"
  defines "b \<equiv> begin_generation (pre_generation e) t"
  shows "tile_wf (store_pass e t)" "prefix_len b \<le> prefix_len (store_pass e t)"
    "\<exists>more_planes. prefix_planes (store_pass e t) = prefix_planes b @ more_planes"
    "te_drawn_prefix (store_pass e t) = te_drawn_prefix b"
proof -
  let ?i = "unat (pre_pass_idx e)" and ?s = "store_pass e t"
  have wb: "tile_wf b" using wf by (simp add: b_def begin_wf)
  have i: "?i < 14" and same: "te_planes b ! ?i = None \<or> te_planes b ! ?i = Some (pre_bit_planes e)"
    using fit by (auto simp: pass_fits_def b_def Let_def)
  have s: "te_planes ?s = (te_planes b)[?i := Some (pre_bit_planes e)]" "te_received ?s = te_received b OR 2 ^ ?i"
    "te_present_passes ?s = (case pre_present_passes e of Some n \<Rightarrow> Some n | None \<Rightarrow> te_present_passes b)"
    "te_drawn_prefix ?s = te_drawn_prefix b"
    using i by (simp_all add: store_pass_def b_def Let_def split: option.split)
  show "te_drawn_prefix ?s = te_drawn_prefix b" by (rule s(4))
  have res: "resolved ?s j" if "j < 14" "resolved b j" for j
    using that fit i by (auto simp: resolved_def s bit_or_pass pass_fits_def b_def[symmetric] Let_def split: option.splits)
  show le: "prefix_len b \<le> prefix_len ?s" by (rule prefix_len_mono) (rule res)
  have rec: "bit (te_received ?s) j \<longleftrightarrow> te_planes ?s ! j \<noteq> None" if "j < 14" for j
    using that wb i by (auto simp: s bit_or_pass tile_wf_def nth_list_update)
  show "tile_wf ?s" using wb le rec by (auto simp: tile_wf_def s(1,4) split: option.splits)
  have kept: "te_planes ?s ! j = te_planes b ! j" if j: "j < prefix_len b" for j
  proof (cases "j = ?i")
    case True
    have "resolved b ?i" using prefix_resolved[OF j] True by simp
    moreover have "\<not> (case te_present_passes b of None \<Rightarrow> False | Some m \<Rightarrow> \<not> bit m ?i)"
      using fit by (auto simp: pass_fits_def b_def[symmetric] Let_def split: option.splits)
    ultimately have "te_planes b ! ?i \<noteq> None" using wb i by (auto simp: resolved_def tile_wf_def)
    with same have "te_planes b ! ?i = Some (pre_bit_planes e)" by (elim disjE) simp_all
    then show ?thesis using True wb i by (simp add: s(1) tile_wf_def)
  qed (simp add: s(1))
  have "take (prefix_len b) (te_planes ?s) = take (prefix_len b) (te_planes b)"
    by (rule nth_equalityI) (auto simp: s(1) kept[unfolded s(1)])
  then have "take (prefix_len b) (take (prefix_len ?s) (te_planes ?s)) = take (prefix_len b) (te_planes b)"
    using le by (simp add: min_absorb1)
  moreover have "prefix_planes ?s = map plane_of (take (prefix_len b) (take (prefix_len ?s) (te_planes ?s)))
      @ map plane_of (drop (prefix_len b) (take (prefix_len ?s) (te_planes ?s)))"
    unfolding prefix_planes_def map_append[symmetric] append_take_drop_id ..
  ultimately show "\<exists>more_planes. prefix_planes ?s = prefix_planes b @ more_planes"
    unfolding prefix_planes_def by metis
qed

subsection \<open>Drawing late\<close>

text \<open>
  A tile that is drawn once after two passes shows, and remembers, what it does when drawn after each.
\<close>

definition shown :: "bytes option \<Rightarrow> bytes option \<Rightarrow> bytes option" where
  "shown pic before = (case pic of None \<Rightarrow> before | Some bgr \<Rightarrow> TilePixels_write (TP_Cdf53 bgr))"

lemma draw_tile_total:
  assumes "tile_wf t"
  obtains pic t' where "draw_tile t = Some (pic, t')" "tile_wf t'" "te_generation t' = te_generation t"
    "te_generation_set t' = te_generation_set t" "pass_fits e t' = pass_fits e t"
    "\<And>bgr. pic = Some bgr \<Longrightarrow> TilePixels_write (TP_Cdf53 bgr) \<noteq> None"
proof -
  let ?t = "t\<lparr> te_drawn_prefix := Some (prefix_len t) \<rparr>"
  have wf: "tile_wf ?t" using assms by (simp add: tile_wf_def prefix_len_def)
  have fits: "pass_fits e ?t = pass_fits e t" 
    by (cases "te_generation_set t \<and> te_generation t = pre_generation e")
      (auto simp: pass_fits_def begin_generation_def Let_def split: option.splits)
  obtain bgr rgba where bgr: "prefix_bgr (prefix_planes t) = Some bgr" "TilePixels_write (TP_Cdf53 bgr) = Some rgba"
    using prefix_bgr_Some[of "prefix_planes t"] length_prefix_planes[OF assms] prefix_len_le by metis
  show thesis
  proof (cases "te_drawn_prefix t = Some (prefix_len t) \<or> empty_prefix (prefix_planes t)")
    case True
    then show thesis by (intro that[of None t]) (simp_all add: draw_tile_spec assms)
  next
    case False
    then show thesis
      by (intro that[of "Some bgr" ?t]) (use bgr wf fits in \<open>simp_all add: draw_tile_spec assms del: TilePixels_write.simps\<close>)
  qed
qed

lemma draw_late:
  assumes wf: "tile_wf b" and draw: "draw_tile b = Some (pic, a)" and fit: "pass_fits e b"
    and held: "begin_generation (pre_generation e) b = b"
  shows "\<exists>picb pica t. draw_tile (store_pass e b) = Some (picb, t) \<and> draw_tile (store_pass e a) = Some (pica, t) \<and>
    (\<forall>before. shown picb before = shown pica (shown pic before))"
proof (cases "te_drawn_prefix b = Some (prefix_len b) \<or> empty_prefix (prefix_planes b)")
  case True
  then have "pic = None" "a = b" using draw wf by (auto simp: draw_tile_spec)
  moreover obtain p t where "draw_tile (store_pass e b) = Some (p, t)"
    using draw_tile_total[OF store_fits(1)[OF wf fit], of e] by metis
  ultimately show ?thesis by (auto simp: shown_def)
next
  case False
  let ?b = "store_pass e b" and ?n = "prefix_len (store_pass e b)" and ?k = "prefix_len b"
  have pa: "pic = prefix_bgr (prefix_planes b)" "a = b\<lparr> te_drawn_prefix := Some ?k \<rparr>"
    using False draw wf by (auto simp: draw_tile_spec)
  have sa: "store_pass e a = ?b\<lparr> te_drawn_prefix := Some ?k \<rparr>"
    using held by (auto simp: pa(2) store_pass_def begin_generation_def Let_def split: if_splits option.split)
  have sb: "tile_wf ?b" "?k \<le> ?n" "te_drawn_prefix ?b = te_drawn_prefix b" "\<exists>ps. prefix_planes ?b = prefix_planes b @ ps"
    using store_fits[OF wf fit] by (simp_all add: held)
  have wa: "tile_wf (store_pass e a)" using sb(1,2) by (simp add: sa tile_wf_def prefix_len_def)
  have pl: "prefix_planes (store_pass e a) = prefix_planes ?b" "prefix_len (store_pass e a) = ?n"
    by (simp_all add: sa prefix_planes_def prefix_len_def)
  have ne: "\<not> empty_prefix (prefix_planes ?b)" using sb(4) False empty_prefix_shorter by metis
  have "te_drawn_prefix b \<noteq> Some ?n"
    using False wf sb(2) by (auto simp: tile_wf_def)
  then have db: "draw_tile ?b = Some (prefix_bgr (prefix_planes ?b), ?b\<lparr> te_drawn_prefix := Some ?n \<rparr>)"
    using ne sb(1,3) by (simp add: draw_tile_spec)
  obtain bgr where bgr: "prefix_bgr (prefix_planes ?b) = Some bgr"
    using prefix_bgr_Some[of "prefix_planes ?b"] length_prefix_planes[OF sb(1)] prefix_len_le by metis
  show ?thesis
  proof (cases "?k = ?n")
    case True
    then have "prefix_planes ?b = prefix_planes b"
      using sb(4) length_prefix_planes[OF sb(1)] length_prefix_planes[OF wf] by auto
    moreover have "draw_tile (store_pass e a) = Some (None, store_pass e a)"
      using wa pl True by (simp add: draw_tile_spec sa)
    ultimately show ?thesis using db True by (simp add: sa pa(1) shown_def)
  next
    case False
    then have "draw_tile (store_pass e a) = Some (prefix_bgr (prefix_planes ?b), ?b\<lparr> te_drawn_prefix := Some ?n \<rparr>)"
      using wa pl ne by (simp add: draw_tile_spec sa)
    then show ?thesis using db bgr by (simp add: shown_def)
  qed
qed

section \<open>What the render side sees\<close>

text \<open>
  The screen, tile by tile.  A consumer sees every event that is not a picture together with the screen
  at that moment, and the screen at the end.
\<close>

type_synonym screen = "(u8 \<times> u8) \<rightharpoonup> bytes"

fun shots :: "screen \<Rightarrow> Event list \<Rightarrow> (Event \<times> screen) list \<times> screen" where
  "shots f [] = ([], f)"
| "shots f (e # es) =
     (case e of
        TileReady _ x y rgba \<Rightarrow> shots (f((x, y) \<mapsto> rgba)) es
      | _ \<Rightarrow> apfst (Cons (e, f)) (shots f es))"

definition watch :: "screen \<Rightarrow> BatchStep list \<Rightarrow> (Event \<times> screen) list \<times> screen" where
  "watch f out = shots f (concat (map step_event out))"

lemma shots_append: "shots f (es @ es') = apfst (append (fst (shots f es))) (shots (snd (shots f es)) es')"
  by (induction es arbitrary: f) (auto split: Event.splits simp: apfst_def map_prod_def split_beta)

lemma watch_simps [simp]:
  "watch f [] = ([], f)" "watch f (Tick # out) = watch f out" "watch f (BeforeReconstruct # out) = watch f out"
  "watch f [Out e] = shots f [e]"
  by (simp_all add: watch_def step_event_def)

lemma watch_append: "watch f out = (s, g) \<Longrightarrow> watch f (out @ out') = apfst (append s) (watch g out')"
  by (simp add: watch_def shots_append)

subsection \<open>Simulation\<close>

text \<open>One tile: the entry and the pixels of the decoder that draws at once, and of the one that may be behind.\<close>

definition tile_sim :: "PendingTile option \<Rightarrow> TileEntry option \<times> bytes option \<Rightarrow> TileEntry option \<times> bytes option \<Rightarrow> bool" where
  "tile_sim p s1 s2 \<longleftrightarrow>
     (case p of
        None \<Rightarrow> s1 = s2
      | Some p \<Rightarrow> \<exists>t1 t2 pic. fst s1 = Some t1 \<and> fst s2 = Some t2 \<and> tile_wf t2 \<and> te_generation_set t2 \<and>
          te_generation t2 = pt_generation p \<and> draw_tile t2 = Some (pic, t1) \<and> snd s1 = shown pic (snd s2))"

definition sim :: "TileDecoder \<Rightarrow> screen \<Rightarrow> TileDecoder \<Rightarrow> screen \<Rightarrow> bool" where
  "sim d1 f1 d2 f2 \<longleftrightarrow>
     td_palettes d1 = td_palettes d2 \<and> td_cdf53_passthrough d1 = td_cdf53_passthrough d2 \<and>
     td_cdf53_wire_failed d1 = td_cdf53_wire_failed d2 \<and>
     (\<forall>xy. tile_sim (td_pending d2 xy) (td_cdf53 d1 xy, f1 xy) (td_cdf53 d2 xy, f2 xy)) \<and>
     (\<forall>xy t. td_cdf53 d1 xy = Some t \<longrightarrow> tile_wf t)"

definition queued :: "TileDecoder \<Rightarrow> bool" where
  "queued d \<longleftrightarrow> (\<forall>xy. td_pending d xy \<noteq> None \<longrightarrow> xy \<in> set (td_order d) \<and> \<not> td_cdf53_passthrough d)"

lemma simD:
  assumes "sim d1 f1 d2 f2"
  shows "td_palettes d1 = td_palettes d2" "td_cdf53_passthrough d1 = td_cdf53_passthrough d2"
    "td_cdf53_wire_failed d1 = td_cdf53_wire_failed d2"
    "tile_sim (td_pending d2 xy) (td_cdf53 d1 xy, f1 xy) (td_cdf53 d2 xy, f2 xy)"
    "td_cdf53 d1 xy = Some t \<Longrightarrow> tile_wf t"
  using assms unfolding sim_def by blast+

text \<open>Changing one tile on both sides.\<close>

lemma sim_tile:
  assumes "sim d1 f1 d2 f2"
    and "td_palettes d1' = td_palettes d1" "td_palettes d2' = td_palettes d2"
    and "td_cdf53_passthrough d1' = td_cdf53_passthrough d1" "td_cdf53_passthrough d2' = td_cdf53_passthrough d2"
    and "td_cdf53_wire_failed d1' = td_cdf53_wire_failed d1" "td_cdf53_wire_failed d2' = td_cdf53_wire_failed d2"
    and "td_cdf53 d1' = (td_cdf53 d1)(xy := t1)" "td_cdf53 d2' = (td_cdf53 d2)(xy := t2)"
    and "td_pending d2' = (td_pending d2)(xy := p)" "g1 = f1(xy := v1)" "g2 = f2(xy := v2)"
    and "tile_sim p (t1, v1) (t2, v2)" "\<And>t. t1 = Some t \<Longrightarrow> tile_wf t"
  shows "sim d1' g1 d2' g2"
  using assms by (simp add: sim_def)

lemma screens_equal:
  assumes "sim d1 f1 d2 f2" "td_pending d2 = (\<lambda>_. None)"
  shows "f1 = f2" "td_cdf53 d1 = td_cdf53 d2"
  using simD(4)[OF assms(1)] by (auto simp: assms(2) tile_sim_def)

subsection \<open>Flushing\<close>

definition shown_in :: "u8 \<times> u8 \<Rightarrow> bytes option \<Rightarrow> screen \<Rightarrow> screen" where
  "shown_in xy pic f = f(xy := shown pic (f xy))"

lemma place_picture:
  assumes "TilePixels_write pixels \<noteq> None"
  shows "\<exists>out. place n x y pixels d = Some (out, d) \<and> watch f out = ([], f((x, y) := TilePixels_write pixels))"
  using assms by (auto simp: place_def)

lemma flush_tile_sim:
  assumes s: "sim d1 f1 d2 f2"
  shows "\<exists>out d2' f2'. flush_tile xy d2 = Some (out, d2') \<and> watch f2 out = ([], f2') \<and> sim d1 f1 d2' f2' \<and>
    td_pending d2' = (td_pending d2)(xy := None) \<and> td_order d2' = td_order d2"
proof (cases "td_pending d2 xy")
  case None
  then have "(td_pending d2)(xy := None) = td_pending d2" by auto
  with None s show ?thesis by (auto simp: flush_tile_def)
next
  case (Some p)
  then obtain t1 t2 pic where t: "td_cdf53 d1 xy = Some t1" "td_cdf53 d2 xy = Some t2" "tile_wf t2"
    "draw_tile t2 = Some (pic, t1)" "f1 xy = shown pic (f2 xy)"
    using simD(4)[OF s, of xy] by (auto simp: tile_sim_def)
  let ?d = "d2\<lparr> td_pending := (td_pending d2)(xy := None), td_cdf53 := (td_cdf53 d2)(xy \<mapsto> t1) \<rparr>"
  have sim': "sim d1 f1 ?d (shown_in xy pic f2)"
    by (rule sim_tile[OF s, where xy = xy and ?t1.0 = "Some t1" and ?t2.0 = "Some t1" and ?v1.0 = "f1 xy"])
      (use t simD(5)[OF s t(1)] in \<open>auto simp: tile_sim_def shown_in_def\<close>)
  show ?thesis
  proof (cases pic)
    case None
    then have "shown_in xy pic f2 = f2" by (simp add: shown_in_def shown_def)
    then show ?thesis using None Some t sim' by (simp add: flush_tile_def reconstruct_def)
  next
    case (Some bgr)
    then have w: "TilePixels_write (TP_Cdf53 bgr) \<noteq> None"
      using draw_tile_total[OF t(3)] t(4) by (metis option.inject prod.inject)
    obtain out where "place (pt_frame_seq p) (fst xy) (snd xy) (TP_Cdf53 bgr) ?d = Some (out, ?d)"
      "watch f2 out = ([], shown_in xy pic f2)"
      using place_picture[OF w, of "pt_frame_seq p" "fst xy" "snd xy" ?d f2] Some by (auto simp: shown_in_def shown_def)
    then show ?thesis using Some \<open>td_pending d2 xy = Some p\<close> t sim' by (simp add: flush_tile_def reconstruct_def)
  qed
qed

lemma flush_list_sim:
  assumes "sim d1 f1 d2 f2"
  shows "\<exists>out d2' f2'. flush_list xys d2 = Some (out, d2') \<and> watch f2 out = ([], f2') \<and> sim d1 f1 d2' f2' \<and>
    td_pending d2' = td_pending d2 |` (- set xys) \<and> td_order d2' = td_order d2"
  using assms
proof (induction xys arbitrary: d2 f2)
  case (Cons xy xys)
  obtain o1 e g where 1: "flush_tile xy d2 = Some (o1, e)" "watch f2 o1 = ([], g)" "sim d1 f1 e g"
    "td_pending e = (td_pending d2)(xy := None)" "td_order e = td_order d2"
    using flush_tile_sim[OF Cons.prems] by blast
  obtain o2 e' g' where 2: "flush_list xys e = Some (o2, e')" "watch g o2 = ([], g')" "sim d1 f1 e' g'"
    "td_pending e' = td_pending e |` (- set xys)" "td_order e' = td_order e"
    using Cons.IH[OF 1(3)] by blast
  have "td_pending e' = td_pending d2 |` (- set (xy # xys))" by (auto simp: 2(4) 1(4) restrict_map_def)
  then show ?case using 1 2 watch_append[OF 1(2), of o2] by (simp add: 2(5) 1(5))
qed (simp add: restrict_map_def)

lemma flush_all_sim:
  assumes s: "sim d1 f1 d2 f2" and q: "queued d2"
  shows "\<exists>out d2' f2'. flush_all d2 = Some (out, d2') \<and> watch f2 out = ([], f2') \<and> sim d1 f1 d2' f2' \<and>
    td_pending d2' = (\<lambda>_. None) \<and> td_order d2' = []"
proof -
  have "sim d1 f1 (d2\<lparr> td_order := [] \<rparr>) f2" using s by (simp add: sim_def)
  from flush_list_sim[OF this, of "td_order d2"] show ?thesis
    using q by (fastforce simp: flush_all_def queued_def restrict_map_def)
qed

subsection \<open>One event\<close>

definition cdf53_pass :: "u8 \<Rightarrow> u8 \<Rightarrow> bytes \<Rightarrow> u16 option \<Rightarrow> PrevalidatedCdf53" where
  "cdf53_pass generation pass_idx bit_planes present_passes =
     \<lparr> pre_generation = generation, pre_pass_idx = pass_idx, pre_bit_planes = bit_planes, pre_present_passes = present_passes \<rparr>"

definition held_tile :: "bool \<Rightarrow> TileEntry option \<Rightarrow> TileEntry" where
  "held_tile new_generation t = (if new_generation then TileEntry_default else case t of None \<Rightarrow> TileEntry_default | Some t \<Rightarrow> t)"

text \<open>Every CDF 5/3 pass of the events fits the tile it is for, as it is when the pass is decoded.\<close>

definition event_fits :: "Event \<Rightarrow> TileDecoder \<Rightarrow> bool" where
  "event_fits ev d \<longleftrightarrow>
     (case ev of
        TilePayload _ x y generation (TD_Cdf53 pass_idx bit_planes present_passes new_generation) \<Rightarrow>
          td_cdf53_passthrough d \<or>
          pass_fits (cdf53_pass generation pass_idx bit_planes present_passes) (held_tile new_generation (td_cdf53 d (x, y)))
      | _ \<Rightarrow> True)"

fun events_fit :: "Event list \<Rightarrow> TileDecoder \<Rightarrow> bool" where
  "events_fit [] d \<longleftrightarrow> True"
| "events_fit (ev # evs) d \<longleftrightarrow>
     (case expand_wire ev d of (None, _) \<Rightarrow> True | (Some ev, _) \<Rightarrow> event_fits ev d) \<and>
     (case decode_one False ev d of None \<Rightarrow> True | Some (_, d) \<Rightarrow> events_fit evs d)"

definition flushed_for :: "Event \<Rightarrow> TileDecoder \<Rightarrow> bool" where
  "flushed_for ev d \<longleftrightarrow>
     (case ev of
        TilePayload _ x y generation data \<Rightarrow>
          (case data of
             TD_Cdf53 _ _ _ new_generation \<Rightarrow>
               (case td_pending d (x, y) of None \<Rightarrow> True | Some p \<Rightarrow> \<not> new_generation \<and> pt_generation p = generation)
           | TD_Cdf53Wire _ _ _ _ \<Rightarrow> True
           | _ \<Rightarrow> td_pending d (x, y) = None)
      | PaletteUpdated _ _ \<Rightarrow> True
      | _ \<Rightarrow> td_pending d = (\<lambda>_. None))"

lemma flush_tile_queued:
  assumes "sim d1 f1 d2 f2" "queued d2"
  shows "\<exists>out d2' f2'. flush_tile xy d2 = Some (out, d2') \<and> watch f2 out = ([], f2') \<and> sim d1 f1 d2' f2' \<and>
    queued d2' \<and> td_pending d2' xy = None"
proof -
  obtain out d2' f2' where f: "flush_tile xy d2 = Some (out, d2')" "watch f2 out = ([], f2')" "sim d1 f1 d2' f2'"
    "td_pending d2' = (td_pending d2)(xy := None)" "td_order d2' = td_order d2"
    using flush_tile_sim[OF assms(1)] by blast
  have "queued d2'" using assms(2) simD(2)[OF assms(1)] simD(2)[OF f(3)] by (auto simp: queued_def f(4,5))
  then show ?thesis using f by simp
qed

lemma flush_before_sim:
  assumes "sim d1 f1 d2 f2" "queued d2"
  shows "\<exists>out d2' f2'. flush_before ev d2 = Some (out, d2') \<and> watch f2 out = ([], f2') \<and> sim d1 f1 d2' f2' \<and>
    queued d2' \<and> flushed_for ev d2'"
proof -
  note flush = flush_tile_queued[OF assms]
  have all: "\<exists>out d2' f2'. flush_all d2 = Some (out, d2') \<and> watch f2 out = ([], f2') \<and> sim d1 f1 d2' f2' \<and>
      queued d2' \<and> td_pending d2' = (\<lambda>_. None)"
    using flush_all_sim[OF assms] by (fastforce simp: queued_def)
  show ?thesis
  proof (cases ev)
    case (TilePayload n x y g data)
    show ?thesis
    proof (cases data)
      case (TD_Cdf53 i planes present new)
      then show ?thesis using flush[of "(x, y)"] assms
        by (cases "td_pending d2 (x, y)") (auto simp: flush_before_def flushed_for_def TilePayload)
    qed (use flush[of "(x, y)"] assms in \<open>auto simp: flush_before_def flushed_for_def TilePayload\<close>)
  qed (use all assms in \<open>simp_all add: flush_before_def flushed_for_def\<close>)
qed

lemma tile_wf_default: "tile_wf TileEntry_default"
  by (simp add: tile_wf_def TileEntry_default_def)

lemma decode_at_once:
  assumes wf: "tile_wf (held_tile new (td_cdf53 d (x, y)))" and fit: "pass_fits e (held_tile new (td_cdf53 d (x, y)))"
  shows "\<exists>out pic t. draw_tile (store_pass e (held_tile new (td_cdf53 d (x, y)))) = Some (pic, t) \<and> tile_wf t \<and>
    decode_cdf53 False n x y e new d = Some (out, d\<lparr> td_cdf53 := (td_cdf53 d)((x, y) \<mapsto> t) \<rparr>) \<and>
    watch f out = ([], shown_in (x, y) pic f)"
proof -
  let ?t = "store_pass e (held_tile new (td_cdf53 d (x, y)))"
  obtain pic t where t: "draw_tile ?t = Some (pic, t)" "tile_wf t"
    and w: "\<And>bgr. pic = Some bgr \<Longrightarrow> TilePixels_write (TP_Cdf53 bgr) \<noteq> None"
    using draw_tile_total[OF store_fits(1)[OF wf fit]] by metis
  let ?c = "if new then forget_tile x y (td_cdf53 d) else td_cdf53 d" and ?d = "d\<lparr> td_cdf53 := (td_cdf53 d)((x, y) \<mapsto> t) \<rparr>"
  have "(case ?c (x, y) of None \<Rightarrow> TileEntry_default | Some t \<Rightarrow> t) = held_tile new (td_cdf53 d (x, y))"
    by (simp add: held_tile_def forget_tile_def)
  moreover have "draw_tile ?t = Some (None, ?t)" if "te_drawn_prefix ?t = Some (prefix_len ?t)"
    using that by (simp add: draw_tile_spec[OF store_fits(1)[OF wf fit]])
  ultimately have "integrate_bgr x y e ?c = Some (pic, ?c((x, y) \<mapsto> t))"
    using t(1) by (auto simp: integrate_bgr_def accumulate_def reconstruct_def Let_def split: bool.split)
  moreover have "?c((x, y) \<mapsto> t) = (td_cdf53 d)((x, y) \<mapsto> t)" by (auto simp: forget_tile_def)
  ultimately have "decode_cdf53 False n x y e new d =
      (case pic of None \<Rightarrow> Some ([], ?d) | Some bgr \<Rightarrow> place n x y (TP_Cdf53 bgr) ?d)"
    by (auto simp: decode_cdf53_def Let_def split: option.split)
  moreover have "\<exists>out. place n x y (TP_Cdf53 bgr) ?d = Some (out, ?d) \<and> watch f out = ([], shown_in (x, y) pic f)" if "pic = Some bgr" for bgr
    using place_picture[OF w[OF that], of n x y ?d f] by (simp add: that shown_in_def shown_def)
  ultimately show ?thesis using t by (cases pic) (auto simp: shown_in_def shown_def)
qed

lemma decode_later:
  fixes d :: TileDecoder and e :: PrevalidatedCdf53 and new :: bool and x y :: u8
  defines "t \<equiv> store_pass e (held_tile new (td_cdf53 d (x, y)))"
  shows "\<exists>out d'. decode_cdf53 True n x y e new d = Some (out, d') \<and> watch f out = ([], f) \<and>
    td_cdf53 d' = (td_cdf53 d)((x, y) \<mapsto> t) \<and> td_palettes d' = td_palettes d \<and>
    td_cdf53_passthrough d' = td_cdf53_passthrough d \<and> td_cdf53_wire_failed d' = td_cdf53_wire_failed d \<and>
    td_pending d' = (if te_drawn_prefix t = Some (prefix_len t) then td_pending d
      else (td_pending d)((x, y) \<mapsto> \<lparr> pt_frame_seq = n, pt_generation = pre_generation e \<rparr>)) \<and>
    set (td_order d') = set (td_order d) \<union> (dom (td_pending d') - dom (td_pending d))"
proof -
  let ?c = "if new then forget_tile x y (td_cdf53 d) else td_cdf53 d"
  have "(case ?c (x, y) of None \<Rightarrow> TileEntry_default | Some t \<Rightarrow> t) = held_tile new (td_cdf53 d (x, y))"
    by (simp add: held_tile_def forget_tile_def)
  then have a: "accumulate x y e ?c = (te_drawn_prefix t \<noteq> Some (prefix_len t), (td_cdf53 d)((x, y) \<mapsto> t))"
    by (auto simp: accumulate_def Let_def t_def forget_tile_def)
  show ?thesis using a by (auto simp: decode_cdf53_def Let_def)
qed

lemma pass_behind:
  assumes tile: "tile_sim p (c1, v1) (c2, v2)"
    and wf: "tile_wf (held_tile new c1)" and fit: "pass_fits e (held_tile new c1)"
    and draw: "draw_tile (store_pass e (held_tile new c1)) = Some (pic, t)"
    and ready: "case p of None \<Rightarrow> True | Some p \<Rightarrow> \<not> new \<and> pt_generation p = pre_generation e"
  shows "tile_wf (held_tile new c2) \<and> pass_fits e (held_tile new c2) \<and>
    (\<exists>picb. draw_tile (store_pass e (held_tile new c2)) = Some (picb, t) \<and> shown pic v1 = shown picb v2)"
proof (cases p)
  case None
  then show ?thesis using tile draw wf fit by (simp add: tile_sim_def)
next
  case (Some p)
  then obtain t1 t2 pic0 where t: "c1 = Some t1" "c2 = Some t2" "tile_wf t2"
    "te_generation_set t2" "te_generation t2 = pt_generation p" "draw_tile t2 = Some (pic0, t1)" "v1 = shown pic0 v2"
    using tile by (auto simp: tile_sim_def)
  have h: "held_tile new c1 = t1" "held_tile new c2 = t2" "pt_generation p = pre_generation e"
    using ready Some t(1,2) by (auto simp: held_tile_def)
  have fits: "pass_fits e t2" using draw_tile_total[OF t(3), of e] t(6) fit h(1) by (metis option.inject prod.inject)
  have "begin_generation (pre_generation e) t2 = t2" using t(4,5) h(3) by (simp add: begin_generation_def)
  from draw_late[OF t(3,6) fits this] fits show ?thesis using draw t(3,7) by (auto simp: h)
qed

lemma decode_cdf53_sim:
  assumes s: "sim d1 f1 d2 f2" and q: "queued d2" and np: "\<not> td_cdf53_passthrough d1"
    and fit: "pass_fits e (held_tile new (td_cdf53 d1 (x, y)))"
    and ready: "case td_pending d2 (x, y) of None \<Rightarrow> True | Some p \<Rightarrow> \<not> new \<and> pt_generation p = pre_generation e"
  shows "\<exists>out1 d1' out2 d2' g1 g2. decode_cdf53 False n x y e new d1 = Some (out1, d1') \<and>
    decode_cdf53 True n x y e new d2 = Some (out2, d2') \<and> watch f1 out1 = ([], g1) \<and> watch f2 out2 = ([], g2) \<and>
    sim d1' g1 d2' g2 \<and> queued d2'"
proof -
  let ?h1 = "held_tile new (td_cdf53 d1 (x, y))" and ?h2 = "held_tile new (td_cdf53 d2 (x, y))"
  have wf: "tile_wf ?h1" using simD(5)[OF s, of "(x, y)"] by (auto simp: held_tile_def tile_wf_default split: option.split)
  obtain out1 pic t where 1: "draw_tile (store_pass e ?h1) = Some (pic, t)" "tile_wf t"
    "decode_cdf53 False n x y e new d1 = Some (out1, d1\<lparr> td_cdf53 := (td_cdf53 d1)((x, y) \<mapsto> t) \<rparr>)"
    "watch f1 out1 = ([], shown_in (x, y) pic f1)"
    using decode_at_once[OF wf fit] by blast
  obtain out2 d2' where 2: "decode_cdf53 True n x y e new d2 = Some (out2, d2')" "watch f2 out2 = ([], f2)"
    "td_cdf53 d2' = (td_cdf53 d2)((x, y) \<mapsto> store_pass e ?h2)" "td_palettes d2' = td_palettes d2"
    "td_cdf53_passthrough d2' = td_cdf53_passthrough d2" "td_cdf53_wire_failed d2' = td_cdf53_wire_failed d2"
    "td_pending d2' = (if te_drawn_prefix (store_pass e ?h2) = Some (prefix_len (store_pass e ?h2)) then td_pending d2
      else (td_pending d2)((x, y) \<mapsto> \<lparr> pt_frame_seq = n, pt_generation = pre_generation e \<rparr>))"
    "set (td_order d2') = set (td_order d2) \<union> (dom (td_pending d2') - dom (td_pending d2))"
    using decode_later[of n x y e new d2 f2] by blast
  have stored: "te_generation_set (store_pass e t)" "te_generation (store_pass e t) = pre_generation e" for t
    by (auto simp: store_pass_def begin_generation_def Let_def split: option.split)
  obtain picb where b: "tile_wf ?h2" "pass_fits e ?h2" "draw_tile (store_pass e ?h2) = Some (picb, t)"
    "shown pic (f1 (x, y)) = shown picb (f2 (x, y))"
    using pass_behind[OF simD(4)[OF s] wf fit 1(1) ready] by blast
  have quiet: "picb = None \<and> t = store_pass e ?h2" if "te_drawn_prefix (store_pass e ?h2) = Some (prefix_len (store_pass e ?h2))"
    using that b(3) by (simp add: draw_tile_spec[OF store_fits(1)[OF b(1,2)]])
  let ?d1 = "d1\<lparr> td_cdf53 := (td_cdf53 d1)((x, y) \<mapsto> t) \<rparr>"
  have "sim ?d1 (shown_in (x, y) pic f1) d2' f2"
    by (rule sim_tile[OF s, where xy = "(x, y)" and ?t1.0 = "Some t" and ?t2.0 = "Some (store_pass e ?h2)"
          and p = "td_pending d2' (x, y)" and ?v1.0 = "shown pic (f1 (x, y))" and ?v2.0 = "f2 (x, y)"])
      (use 1(2) 2 b(3,4) quiet stored store_fits(1)[OF b(1,2)] ready
        in \<open>auto simp: tile_sim_def shown_in_def shown_def split: option.splits if_splits\<close>)
  moreover have "queued d2'"
    using q np simD(2)[OF s] 2(5,7,8) by (auto simp: queued_def split: if_splits)
  ultimately show ?thesis using 1 2 by blast
qed

lemma place_sim:
  assumes s: "sim d1 f1 d2 f2" and "queued d2" "td_pending d2 (x, y) = None" and w: "TilePixels_write pixels \<noteq> None"
  shows "\<exists>out1 d1' out2 d2' g1 g2. place n x y pixels d1 = Some (out1, d1') \<and>
    place n x y pixels d2 = Some (out2, d2') \<and> watch f1 out1 = ([], g1) \<and> watch f2 out2 = ([], g2) \<and>
    sim d1' g1 d2' g2 \<and> queued d2'"
proof -
  let ?v = "TilePixels_write pixels"
  have "td_cdf53 d1 (x, y) = td_cdf53 d2 (x, y)" using simD(4)[OF s, of "(x, y)"] assms(3) by (simp add: tile_sim_def)
  then have "sim d1 (f1((x, y) := ?v)) d2 (f2((x, y) := ?v))"
    by (intro sim_tile[OF s, where xy = "(x, y)" and ?t1.0 = "td_cdf53 d1 (x, y)" and ?t2.0 = "td_cdf53 d2 (x, y)"
          and p = None and ?v1.0 = ?v and ?v2.0 = ?v])
      (use assms(3) simD(5)[OF s] in \<open>auto simp: tile_sim_def fun_upd_idem\<close>)
  then show ?thesis using place_picture[OF w, of n x y d1 f1] place_picture[OF w, of n x y d2 f2] assms(2) by blast
qed

text \<open>An event handed on as it is, when nothing is pending.\<close>

lemma pass_on_sim:
  assumes "sim d1 f1 d2 f2" "td_pending d2 = (\<lambda>_. None)" "sim d1' f1 d2' f2" "td_pending d2' = (\<lambda>_. None)"
    "case ev of TileReady _ _ _ _ \<Rightarrow> d1' = d1 \<and> d2' = d2 | _ \<Rightarrow> True"
  shows "\<exists>shot g1 g2. watch f1 [Out ev] = (shot, g1) \<and> watch f2 [Out ev] = (shot, g2) \<and> sim d1' g1 d2' g2 \<and> queued d2'"
proof (cases ev)
  case (TileReady n x y rgba)
  then have "sim d1 (f1((x, y) \<mapsto> rgba)) d2 (f2((x, y) \<mapsto> rgba))"
    by (intro sim_tile[OF assms(1), where xy = "(x, y)" and ?t1.0 = "td_cdf53 d1 (x, y)" and ?t2.0 = "td_cdf53 d2 (x, y)"
          and p = None and ?v1.0 = "Some rgba" and ?v2.0 = "Some rgba"])
      (use assms(2) simD(5)[OF assms(1)] screens_equal(2)[OF assms(1,2)] in \<open>auto simp: tile_sim_def fun_upd_idem\<close>)
  then show ?thesis using TileReady assms(4,5) by (simp add: queued_def)
qed (use assms screens_equal(1)[OF assms(1,2)] in \<open>simp_all add: queued_def\<close>)

lemma sim_retain:
  assumes "sim d1 f1 d2 f2" "td_pending d2 = (\<lambda>_. None)"
  shows "sim (d1\<lparr> td_cdf53 := retain_tiles keep (td_cdf53 d1) \<rparr>) f1 (d2\<lparr> td_cdf53 := retain_tiles keep (td_cdf53 d2) \<rparr>) f2"
  using assms(1) simD(5)[OF assms(1)] screens_equal[OF assms] assms(2)
  by (auto simp: sim_def tile_sim_def retain_tiles_def split: if_splits)

definition step_sim :: "decoded \<Rightarrow> screen \<Rightarrow> decoded \<Rightarrow> screen \<Rightarrow> bool" where
  "step_sim r1 f1 r2 f2 \<longleftrightarrow>
     (\<exists>out1 d1 out2 d2 shot g1 g2. r1 = Some (out1, d1) \<and> r2 = Some (out2, d2) \<and>
        watch f1 out1 = (shot, g1) \<and> watch f2 out2 = (shot, g2) \<and> sim d1 g1 d2 g2 \<and> queued d2)"

lemma decode_event_sim:
  assumes s: "sim d1 f1 d2 f2" and q: "queued d2" and ready: "flushed_for ev d2" and fit: "event_fits ev d1"
  shows "step_sim (decode_event False ev d1) f1 (decode_event True ev d2) f2"
proof (cases ev)
  case (TilePayload n x y g data)
  show ?thesis
  proof (cases data)
    case (TD_Solid bgra)
    then show ?thesis using place_sim[OF s q, of x y "TP_Solid bgra" n] ready
      by (auto simp: step_sim_def decode_event_def TilePayload flushed_for_def)
  next
    case (TD_PalRle pid c ix fl)
    then show ?thesis using place_sim[OF s q, of x y "TP_PalRle (td_palettes d2 pid) ix" n] ready
      by (auto simp: step_sim_def decode_event_def TilePayload flushed_for_def simD(1)[OF s])
  next
    case (TD_Cdf53 i planes present new)
    show ?thesis
    proof (cases "td_cdf53_passthrough d2")
      case True
      then have "td_pending d2 = (\<lambda>_. None)" using q by (auto simp: queued_def)
      from pass_on_sim[OF s this s this, of ev] True show ?thesis
        by (auto simp: step_sim_def decode_event_def TilePayload TD_Cdf53 simD(2)[OF s])
    next
      case False
      then have "\<not> td_cdf53_passthrough d1" using simD(2)[OF s] by simp
      moreover have "pass_fits (cdf53_pass g i planes present) (held_tile new (td_cdf53 d1 (x, y)))"
        using fit False simD(2)[OF s] by (simp add: event_fits_def TilePayload TD_Cdf53)
      moreover have "case td_pending d2 (x, y) of None \<Rightarrow> True
          | Some p \<Rightarrow> \<not> new \<and> pt_generation p = pre_generation (cdf53_pass g i planes present)"
        using ready by (auto simp: flushed_for_def TilePayload TD_Cdf53 cdf53_pass_def split: option.splits)
      ultimately show ?thesis using decode_cdf53_sim[OF s q, of "cdf53_pass g i planes present" new x y n] False simD(2)[OF s]
        by (fastforce simp: step_sim_def decode_event_def TilePayload TD_Cdf53 cdf53_pass_def)
    qed
  qed (use s q in \<open>simp add: step_sim_def decode_event_def TilePayload\<close>)
next
  case (FrameDimensions w h)
  then have p: "td_pending d2 = (\<lambda>_. None)" using ready by (simp add: flushed_for_def)
  from pass_on_sim[OF s p sim_retain[OF s p, of "in_grid w h"], of ev] show ?thesis
    using p by (auto simp: step_sim_def decode_event_def FrameDimensions)
next
  case (PaletteUpdated pid colors)
  then show ?thesis using s q by (auto simp: step_sim_def decode_event_def sim_def queued_def)
qed (use pass_on_sim[OF s _ s, of ev] ready in \<open>auto simp: step_sim_def decode_event_def flushed_for_def\<close>)

lemma decode_one_sim:
  assumes s: "sim d1 f1 d2 f2" and q: "queued d2"
    and fit: "case expand_wire ev d1 of (None, _) \<Rightarrow> True | (Some ev, _) \<Rightarrow> event_fits ev d1"
  shows "step_sim (decode_one False ev d1) f1 (decode_one True ev d2) f2"
proof -
  obtain w e1 where e1: "expand_wire ev d1 = (w, e1)" by fastforce
  obtain e2 where e2: "expand_wire ev d2 = (w, e2)" and s2: "sim e1 f1 e2 f2" and q2: "queued e2"
    and e: "w \<noteq> None \<Longrightarrow> e1 = d1"
    using e1 s q by (auto simp: expand_wire_def sim_def queued_def split: Event.splits TileData.splits sum.splits)
  show ?thesis
  proof (cases w)
    case None
    then show ?thesis using e1 e2 s2 q2 by (simp add: step_sim_def decode_one_def)
  next
    case (Some ev')
    obtain out e2' g where fl: "flush_before ev' e2 = Some (out, e2')" "watch f2 out = ([], g)" "sim e1 f1 e2' g"
      "queued e2'" "flushed_for ev' e2'" using flush_before_sim[OF s2 q2] by blast
    have "event_fits ev' e1" using fit e Some by (simp add: e1)
    from decode_event_sim[OF fl(3,4,5) this] show ?thesis using watch_append[OF fl(2)] fl(1) Some e1 e2 by (auto simp: step_sim_def decode_one_def)
  qed
qed

lemma decode_each_sim:
  assumes "sim d1 f1 d2 f2" "queued d2" "events_fit evs d1"
  shows "step_sim (decode_each False evs d1) f1 (decode_each True evs d2) f2"
  using assms
proof (induction evs arbitrary: d1 f1 d2 f2)
  case (Cons ev evs)
  have "case expand_wire ev d1 of (None, _) \<Rightarrow> True | (Some ev, _) \<Rightarrow> event_fits ev d1"
    using Cons.prems(3) by simp
  from decode_one_sim[OF Cons.prems(1,2) this]
  obtain o1 e1 o2 e2 shot g1 g2 where st: "decode_one False ev d1 = Some (o1, e1)" "decode_one True ev d2 = Some (o2, e2)"
    "watch f1 o1 = (shot, g1)" "watch f2 o2 = (shot, g2)" "sim e1 g1 e2 g2" "queued e2"
    unfolding step_sim_def by blast
  then have "step_sim (decode_each False evs e1) g1 (decode_each True evs e2) g2"
    using Cons.prems(3) by (intro Cons.IH) auto
  then show ?case using st watch_append[OF st(3)] watch_append[OF st(4)] by (auto simp: step_sim_def)
qed (simp add: step_sim_def)

definition decoder_ok :: "TileDecoder \<Rightarrow> bool" where
  "decoder_ok d \<longleftrightarrow> td_pending d = (\<lambda>_. None) \<and> (\<forall>xy t. td_cdf53 d xy = Some t \<longrightarrow> tile_wf t)"

section \<open>Properties\<close>

text \<open>
  C35. Coalescing is invisible.  Decode a batch of events from a decoder with nothing pending, whose CDF 5/3
  passes fit the tiles they are for.  One decode per event and one decode of the batch both succeed; every event
  that is not a picture comes out of both, in the same order and onto the same screen; the screen at the end
  is the same; and the decoders end in the same palettes and tile states, nothing pending.
\<close>

theorem batch_is_invisible:
  assumes "decoder_ok d" "events_fit evs d"
  shows "\<exists>out1 d1 evs2 d2. decode_each False evs d = Some (out1, d1) \<and> decode_batch evs d = Some (evs2, d2) \<and>
    shots screen evs2 = shots screen (concat (map step_event out1)) \<and>
    td_palettes d2 = td_palettes d1 \<and> td_cdf53 d2 = td_cdf53 d1 \<and> td_cdf53_wire_failed d2 = td_cdf53_wire_failed d1 \<and>
    decoder_ok d2"
proof -
  have "sim d screen d screen" "queued d" using assms(1) by (simp_all add: sim_def tile_sim_def queued_def decoder_ok_def)
  from decode_each_sim[OF this assms(2)] obtain o1 e1 o2 e2 shot g1 g2 where
    st: "decode_each False evs d = Some (o1, e1)" "decode_each True evs d = Some (o2, e2)"
    "watch screen o1 = (shot, g1)" "watch screen o2 = (shot, g2)" "sim e1 g1 e2 g2" "queued e2"
    by (auto simp: step_sim_def)
  obtain o3 e3 g3 where fl: "flush_all e2 = Some (o3, e3)" "watch g2 o3 = ([], g3)" "sim e1 g1 e3 g3" "td_pending e3 = (\<lambda>_. None)"
    using flush_all_sim[OF st(5,6)] by blast
  have "watch screen (o2 @ o3) = watch screen o1"
    using watch_append[OF st(4), of o3] fl(2) st(3) screens_equal(1)[OF fl(3,4)] by simp
  then show ?thesis
    using st fl screens_equal(2)[OF fl(3,4)] simD(1,3,5)[OF fl(3)] by (auto simp: decode_batch_def watch_def decoder_ok_def)
qed

text \<open>Two passes of one tile and a change of the grid.\<close>

lemma two_passes_fit:
  "events_fit [TilePayload 1 0 0 5 (TD_Cdf53 0 p (Some 0x3FFF) False), TilePayload 2 0 0 5 (TD_Cdf53 1 q None False),
     FrameDimensions 64 64] TileDecoder_new"
proof -
  let ?e1 = "cdf53_pass 5 0 p (Some 0x3FFF)" and ?e2 = "cdf53_pass 5 1 q None"
  let ?t = "store_pass ?e1 TileEntry_default"
  have fit1: "pass_fits ?e1 TileEntry_default"
    by (simp add: pass_fits_def cdf53_pass_def begin_generation_def TileEntry_default_def Let_def)
  have held: "held_tile False (td_cdf53 TileDecoder_new (0, 0)) = TileEntry_default"
    by (simp add: held_tile_def TileDecoder_new_def Cdf53TileState_new_def)
  obtain out pic t where st: "draw_tile ?t = Some (pic, t)"
    "decode_cdf53 False 1 0 0 ?e1 False TileDecoder_new = Some (out, TileDecoder_new\<lparr> td_cdf53 := (td_cdf53 TileDecoder_new)((0, 0) \<mapsto> t) \<rparr>)"
    using decode_at_once[of False TileDecoder_new 0 0 ?e1 1] fit1 unfolding held using tile_wf_default by blast
  have "pass_fits ?e2 ?t"
    by (simp add: pass_fits_def cdf53_pass_def store_pass_def begin_generation_def TileEntry_default_def Let_def)
  then have fit2: "pass_fits ?e2 t"
    using draw_tile_total[OF store_fits(1)[OF tile_wf_default fit1], of ?e2] st(1) by (metis option.inject prod.inject)
  have one: "decode_one False (TilePayload 1 0 0 5 (TD_Cdf53 0 p (Some 0x3FFF) False)) TileDecoder_new =
      Some (out, TileDecoder_new\<lparr> td_cdf53 := (td_cdf53 TileDecoder_new)((0, 0) \<mapsto> t) \<rparr>)"
    using st(2) by (simp add: decode_one_def expand_wire_def decode_event_def cdf53_pass_def TileDecoder_new_def)
  have "td_cdf53 TileDecoder_new (0, 0) = None" by (simp add: TileDecoder_new_def Cdf53TileState_new_def)
  then show ?thesis
    using fit1 fit2 by (simp add: one expand_wire_def event_fits_def held_tile_def split: option.split)
qed

theorem batch_is_invisible_witness:
  "\<exists>out1 d1 evs2 d2.
     let evs = [TilePayload 1 0 0 5 (TD_Cdf53 0 (replicate 384 0) (Some 0x3FFF) False),
                TilePayload 2 0 0 5 (TD_Cdf53 1 (replicate 384 255) None False), FrameDimensions 64 64] in
     events_fit evs TileDecoder_new \<and>
     decode_each False evs TileDecoder_new = Some (out1, d1) \<and> decode_batch evs TileDecoder_new = Some (evs2, d2) \<and>
     shots (\<lambda>_. None) evs2 = shots (\<lambda>_. None) (concat (map step_event out1))"
proof -
  have "decoder_ok TileDecoder_new" by (simp add: decoder_ok_def TileDecoder_new_def Cdf53TileState_new_def)
  from batch_is_invisible[OF this two_passes_fit[of "replicate 384 0" "replicate 384 255"], of "\<lambda>_. None"]
  show ?thesis unfolding Let_def using two_passes_fit[of "replicate 384 0" "replicate 384 255"] by blast
qed

end
