(* ===== verification/Fec.thy ===== *)
theory Fec
  imports Batchers
begin

text \<open>
  Forward error correction: the server's XOR groups (\<^verbatim>\<open>transport/reliable_emitter/parity.rs\<close>) and
  the client's \<^verbatim>\<open>ParityDecoder\<close> (\<^verbatim>\<open>client-core/src/parity_decoder.rs\<close>).  The decoder's
  hash map of sources is a list of pairs with distinct keys.
\<close>

section \<open>XOR with left padding\<close>

definition xor_into :: "bytes \<Rightarrow> bytes \<Rightarrow> bytes" where
  "xor_into out src =
     (let pad = length out - length src in take pad out @ map2 (XOR) (drop pad out) src)"

definition max_len :: "nat \<Rightarrow> bytes list \<Rightarrow> nat" where
  "max_len n srcs = foldl (\<lambda>m s. max m (length s)) n srcs"

definition xor_payloads :: "bytes list \<Rightarrow> bytes" where
  "xor_payloads sources = foldl xor_into (replicate (max_len 0 sources) 0) sources"

section \<open>The server's groups\<close>

record GroupResult =
  gr_group_first_wire_seq :: u32
  gr_k :: u8
  gr_source_lens :: "u16 list"
  gr_parity :: bytes

record GroupBuilder =
  gb_target_k :: nat
  gb_first_wire_seq :: "u32 option"
  gb_last_wire_seq :: "u32 option"
  gb_source_lens :: "u16 list"
  gb_sources :: "bytes list"

definition GroupBuilder_new :: "nat \<Rightarrow> GroupBuilder" where
  "GroupBuilder_new k = \<lparr> gb_target_k = k, gb_first_wire_seq = None, gb_last_wire_seq = None,
     gb_source_lens = [], gb_sources = [] \<rparr>"

definition GroupBuilder_reset :: "GroupBuilder \<Rightarrow> GroupBuilder" where
  "GroupBuilder_reset g = g\<lparr> gb_first_wire_seq := None, gb_last_wire_seq := None,
     gb_source_lens := [], gb_sources := [] \<rparr>"

definition GroupBuilder_add :: "u32 \<Rightarrow> bytes \<Rightarrow> GroupBuilder \<Rightarrow> GroupResult option \<times> GroupBuilder" where
  "GroupBuilder_add wire_seq source_bytes g =
     (let g = (case gb_last_wire_seq g of
                 Some last_ws \<Rightarrow> if wire_seq \<noteq> last_ws + 1 then GroupBuilder_reset g else g
               | None \<Rightarrow> g);
          g = (if gb_first_wire_seq g = None then g\<lparr> gb_first_wire_seq := Some wire_seq \<rparr> else g);
          g = g\<lparr> gb_source_lens := gb_source_lens g @ [of_nat (length source_bytes)],
                 gb_sources := gb_sources g @ [source_bytes],
                 gb_last_wire_seq := Some wire_seq \<rparr>
      in if length (gb_sources g) < gb_target_k g then (None, g)
         else (Some \<lparr> gr_group_first_wire_seq = the (gb_first_wire_seq g),
                      gr_k = of_nat (gb_target_k g),
                      gr_source_lens = gb_source_lens g,
                      gr_parity = xor_payloads (gb_sources g) \<rparr>,
               GroupBuilder_reset g))"

section \<open>The client's decoder\<close>

record ParityDecoder =
  pd_window :: "(u32, bytes) OrderedMap"
  pd_order :: "u32 list"
  pd_pending_parities :: "(u32, TileParityEnvelope) OrderedMap"
  pd_newest_wire_seq :: "u32 option"
  pd_window_capacity :: nat
  pd_max_evicted :: "u32 option"

definition ParityDecoder_new :: "nat \<Rightarrow> ParityDecoder" where
  "ParityDecoder_new window_capacity = \<lparr> pd_window = [], pd_order = [], pd_pending_parities = [],
     pd_newest_wire_seq = None, pd_window_capacity = window_capacity, pd_max_evicted = None \<rparr>"

definition ParityDecoder_has_source :: "ParityDecoder \<Rightarrow> u32 \<Rightarrow> bool" where
  "ParityDecoder_has_source d wire_seq \<longleftrightarrow> om_get wire_seq (pd_window d) \<noteq> None"

definition ParityDecoder_covers :: "TileParityEnvelope \<Rightarrow> u32 \<Rightarrow> bool" where
  "ParityDecoder_covers parity ws \<longleftrightarrow> ws - tp_group_first_wire_seq parity < ucast (tp_k parity)"

definition group_members :: "TileParityEnvelope \<Rightarrow> u32 list" where
  "group_members parity = map (\<lambda>i. tp_group_first_wire_seq parity + of_nat i) [0..<unat (tp_k parity)]"

definition ParityDecoder_missing_in_window :: "ParityDecoder \<Rightarrow> TileParityEnvelope \<Rightarrow> nat" where
  "ParityDecoder_missing_in_window d parity =
     length (filter (\<lambda>ws. om_get ws (pd_window d) = None) (group_members parity))"

definition ParityDecoder_try_recover :: "ParityDecoder \<Rightarrow> TileParityEnvelope \<Rightarrow> bytes option" where
  "ParityDecoder_try_recover d parity =
     (let missing = filter (\<lambda>ws. om_get ws (pd_window d) = None) (group_members parity);
          received = map (\<lambda>ws. the (om_get ws (pd_window d)))
                       (filter (\<lambda>ws. om_get ws (pd_window d) \<noteq> None) (group_members parity)) in
      if length missing \<noteq> 1 then None
      else
        let missing_ws = last missing in
        if (case pd_max_evicted d of Some m \<Rightarrow> sdist missing_ws m \<le> 0 | None \<Rightarrow> False) then None
        else
          let target_len = max_len (length (tp_parity_payload parity)) received;
              out = foldl xor_into (xor_into (replicate target_len 0) (tp_parity_payload parity)) received;
              idx = unat (missing_ws - tp_group_first_wire_seq parity) in
          if idx \<ge> length (tp_source_lens parity) then None
          else
            let len = unat (tp_source_lens parity ! idx) in
            if len > length out then None
            else
              let recovered = drop (length out - len) out in
              if \<not> is_tile_datagram recovered then None else Some recovered)"

text \<open>The eviction loop of \<open>record_source\<close>.\<close>

fun pd_evict :: "nat \<Rightarrow> (u32, bytes) OrderedMap \<Rightarrow> u32 list \<Rightarrow> u32 option
    \<Rightarrow> (u32, bytes) OrderedMap \<times> u32 list \<times> u32 option" where
  "pd_evict cap window [] max_evicted = (window, [], max_evicted)"
| "pd_evict cap window (oldest # order) max_evicted =
     (if length window > cap then
        pd_evict cap (om_remove oldest window) order
          (Some (case max_evicted of
                   Some m \<Rightarrow> if sdist oldest m \<le> 0 then m else oldest
                 | None \<Rightarrow> oldest))
      else (window, oldest # order, max_evicted))"

definition ParityDecoder_insert :: "u32 \<Rightarrow> bytes \<Rightarrow> ParityDecoder \<Rightarrow> ParityDecoder" where
  "ParityDecoder_insert wire_seq bytes d =
     (let d = d\<lparr> pd_newest_wire_seq := Some (case pd_newest_wire_seq d of
                   Some prev \<Rightarrow> max prev wire_seq | None \<Rightarrow> wire_seq) \<rparr> in
      if om_get wire_seq (pd_window d) \<noteq> None then d
      else
        let (window, order, max_evicted) =
              pd_evict (pd_window_capacity d) (om_set wire_seq bytes (pd_window d))
                (pd_order d @ [wire_seq]) (pd_max_evicted d)
        in d\<lparr> pd_window := window, pd_order := order, pd_max_evicted := max_evicted \<rparr>)"

definition ParityDecoder_record_source :: "u32 \<Rightarrow> bytes \<Rightarrow> ParityDecoder \<Rightarrow> bytes option \<times> ParityDecoder" where
  "ParityDecoder_record_source wire_seq bytes d =
     (let d = ParityDecoder_insert wire_seq bytes d in
      case find (\<lambda>(gfws, parity). ParityDecoder_covers parity wire_seq \<and>
                   ParityDecoder_try_recover d parity \<noteq> None) (pd_pending_parities d) of
        Some (gfws, parity) \<Rightarrow>
          (ParityDecoder_try_recover d parity,
           d\<lparr> pd_pending_parities := om_remove gfws (pd_pending_parities d) \<rparr>)
      | None \<Rightarrow> (None, d))"

definition ParityDecoder_prune_pending :: "ParityDecoder \<Rightarrow> ParityDecoder" where
  "ParityDecoder_prune_pending d =
     (let pending = (case pd_newest_wire_seq d of
            Some newest \<Rightarrow>
              let horizon = sat_sub newest (of_nat (pd_window_capacity d)) in
              om_retain (\<lambda>gfws env.
                  let group_last = sat_add gfws (sat_sub (ucast (tp_k env)) 1) in group_last \<ge> horizon)
                (pd_pending_parities d)
          | None \<Rightarrow> pd_pending_parities d)
      in d\<lparr> pd_pending_parities := drop (length pending - pd_window_capacity d) pending \<rparr>)"

definition ParityDecoder_receive_parity :: "TileParityEnvelope \<Rightarrow> ParityDecoder \<Rightarrow> bytes option \<times> ParityDecoder" where
  "ParityDecoder_receive_parity env d =
     (let result = ParityDecoder_try_recover d env in
      (result,
       if result = None \<and> ParityDecoder_missing_in_window d env > 0
       then ParityDecoder_prune_pending
              (d\<lparr> pd_pending_parities := om_set (tp_group_first_wire_seq env) env (pd_pending_parities d) \<rparr>)
       else d))"

section \<open>The algebra of padded XOR\<close>

text \<open>The \<open>i\<close>-th byte from the right, zero beyond the left end.\<close>

definition tail_at :: "bytes \<Rightarrow> nat \<Rightarrow> u8" where
  "tail_at xs i = (if i < length xs then rev xs ! i else 0)"

lemma tail_at_eqI:
  assumes "length xs = length ys" "\<And>i. tail_at xs i = tail_at ys i"
  shows "xs = ys"
proof -
  have "rev xs ! i = rev ys ! i" if "i < length ys" for i
    using assms(1) assms(2)[of i] that by (simp add: tail_at_def)
  then have "rev xs = rev ys" using assms(1) by (intro nth_equalityI) simp_all
  then show ?thesis by simp
qed

lemma length_xor_into [simp]: "length src \<le> length out \<Longrightarrow> length (xor_into out src) = length out"
  by (simp add: xor_into_def Let_def)

lemma tail_at_xor_into:
  assumes "length src \<le> length out"
  shows "tail_at (xor_into out src) i = tail_at out i XOR tail_at src i"
proof -
  let ?pad = "length out - length src"
  have out: "out = take ?pad out @ drop ?pad out" by simp
  have "rev (xor_into out src) = map2 (XOR) (rev (drop ?pad out)) (rev src) @ rev (take ?pad out)"
    using assms by (simp add: xor_into_def Let_def zip_rev rev_map)
  moreover have "rev out = rev (drop ?pad out) @ rev (take ?pad out)" by (subst out) (simp only: rev_append)
  ultimately show ?thesis using assms by (auto simp: tail_at_def nth_append)
qed

definition xsum :: "bytes list \<Rightarrow> nat \<Rightarrow> u8" where
  "xsum srcs i = foldr (XOR) (map (\<lambda>s. tail_at s i) srcs) 0"

lemma xsum_simps [simp]: "xsum [] i = 0" "xsum (s # srcs) i = tail_at s i XOR xsum srcs i"
  by (simp_all add: xsum_def)

lemma xsum_append: "xsum (xs @ ys) i = xsum xs i XOR xsum ys i"
  by (induction xs) (simp_all add: xor.assoc)

lemma foldl_xor_into:
  assumes "\<And>s. s \<in> set srcs \<Longrightarrow> length s \<le> length out"
  shows "length (foldl xor_into out srcs) = length out \<and>
     tail_at (foldl xor_into out srcs) i = tail_at out i XOR xsum srcs i"
  using assms by (induction srcs arbitrary: out) (auto simp: tail_at_xor_into xor.assoc)

lemma max_len_Cons: "max_len n (s # srcs) = max_len (max n (length s)) srcs"
  by (simp add: max_len_def)

lemma max_len_ge_start: "n \<le> max_len n srcs"
proof (induction srcs arbitrary: n)
  case (Cons s srcs)
  then show ?case by (metis max.bounded_iff max_len_Cons)
qed (simp add: max_len_def)

lemma max_len_ge: "n \<le> max_len n srcs" "s \<in> set srcs \<Longrightarrow> length s \<le> max_len n srcs"
proof -
  show "n \<le> max_len n srcs" by (rule max_len_ge_start)
  show "s \<in> set srcs \<Longrightarrow> length s \<le> max_len n srcs"
  proof (induction srcs arbitrary: n)
    case (Cons r srcs)
    then show ?case using max_len_ge_start[of "max n (length r)" srcs] by (auto simp: max_len_Cons)
  qed simp
qed

lemma max_len_le: "n \<le> m \<Longrightarrow> (\<And>s. s \<in> set srcs \<Longrightarrow> length s \<le> m) \<Longrightarrow> max_len n srcs \<le> m"
  unfolding max_len_def by (induction srcs arbitrary: n) auto

lemma tail_at_zeros [simp]: "tail_at (replicate n 0) i = 0"
  by (simp add: tail_at_def)

lemma xor_payloads_facts:
  "length (xor_payloads srcs) = max_len 0 srcs" "tail_at (xor_payloads srcs) i = xsum srcs i"
  using foldl_xor_into[of srcs "replicate (max_len 0 srcs) 0" i] max_len_ge(2)[of _ srcs 0]
  by (simp_all add: xor_payloads_def)

section \<open>Groups are contiguous\<close>

text \<open>The sources handed to a builder, oldest first, and the builder they leave.\<close>

fun gb_feed :: "GroupBuilder \<Rightarrow> (u32 \<times> bytes) list \<Rightarrow> GroupBuilder" where
  "gb_feed g [] = g"
| "gb_feed g ((ws, src) # hist) = gb_feed (snd (GroupBuilder_add ws src g)) hist"

definition seq_from :: "u32 \<Rightarrow> bytes list \<Rightarrow> (u32 \<times> bytes) list" where
  "seq_from f srcs = map (\<lambda>i. (f + of_nat i, srcs ! i)) [0..<length srcs]"

text \<open>A builder that holds the run \<open>srcs\<close> from sequence \<open>f\<close>, and the group it closes.\<close>

definition gb_state :: "nat \<Rightarrow> u32 \<Rightarrow> bytes list \<Rightarrow> GroupBuilder" where
  "gb_state k f srcs = \<lparr> gb_target_k = k, gb_first_wire_seq = Some f,
     gb_last_wire_seq = Some (f + of_nat (length srcs - 1)),
     gb_source_lens = map (\<lambda>s. of_nat (length s)) srcs, gb_sources = srcs \<rparr>"

definition group_of :: "nat \<Rightarrow> u32 \<Rightarrow> bytes list \<Rightarrow> GroupResult" where
  "group_of k f srcs = \<lparr> gr_group_first_wire_seq = f, gr_k = of_nat k,
     gr_source_lens = map (\<lambda>s. of_nat (length s)) srcs, gr_parity = xor_payloads srcs \<rparr>"

definition gb_inv :: "nat \<Rightarrow> (u32 \<times> bytes) list \<Rightarrow> GroupBuilder \<Rightarrow> bool" where
  "gb_inv k hist g \<longleftrightarrow> 0 < k \<and>
     (g = GroupBuilder_new k \<or>
      (\<exists>f pre srcs. srcs \<noteq> [] \<and> length srcs < k \<and> g = gb_state k f srcs \<and> hist = pre @ seq_from f srcs))"

lemma seq_from_snoc: "seq_from f (srcs @ [s]) = seq_from f srcs @ [(f + of_nat (length srcs), s)]"
  by (simp add: seq_from_def nth_append)

lemma length_seq_from [simp]: "length (seq_from f srcs) = length srcs"
  by (simp add: seq_from_def)

lemma seq_from_nth: "i < length srcs \<Longrightarrow> seq_from f srcs ! i = (f + of_nat i, srcs ! i)"
  by (simp add: seq_from_def)

text \<open>One addition: the new source joins the current run or starts one.\<close>

lemma gb_add_fresh:
  "GroupBuilder_add ws src (GroupBuilder_new k) =
     (if 1 < k then (None, gb_state k ws [src]) else (Some (group_of k ws [src]), GroupBuilder_new k))"
  by (simp add: GroupBuilder_add_def GroupBuilder_reset_def GroupBuilder_new_def gb_state_def group_of_def)

lemma gb_add_gap:
  "ws \<noteq> f + of_nat (length srcs - 1) + 1 \<Longrightarrow>
   GroupBuilder_add ws src (gb_state k f srcs) = GroupBuilder_add ws src (GroupBuilder_new k)"
  by (simp add: GroupBuilder_add_def GroupBuilder_reset_def GroupBuilder_new_def gb_state_def)

lemma gb_add_next:
  assumes "srcs \<noteq> []"
  shows "GroupBuilder_add (f + of_nat (length srcs)) src (gb_state k f srcs) =
     (if length srcs + 1 < k then (None, gb_state k f (srcs @ [src]))
      else (Some (group_of k f (srcs @ [src])), GroupBuilder_new k))"
proof -
  have "f + of_nat (length srcs) = f + of_nat (length srcs - Suc 0) + 1"
    using assms by (cases srcs) simp_all
  then show ?thesis
    by (simp add: GroupBuilder_add_def GroupBuilder_reset_def GroupBuilder_new_def gb_state_def group_of_def)
qed

lemma gb_invI_new: "0 < k \<Longrightarrow> gb_inv k hist (GroupBuilder_new k)"
  by (simp add: gb_inv_def)

lemma gb_invI_state:
  "srcs \<noteq> [] \<Longrightarrow> length srcs < k \<Longrightarrow> hist = pre @ seq_from f srcs \<Longrightarrow> gb_inv k hist (gb_state k f srcs)"
  by (auto simp: gb_inv_def)

lemma gb_add_step:
  assumes "gb_inv k hist g" "GroupBuilder_add ws src g = (r, g')"
  obtains srcs f pre where "hist @ [(ws, src)] = pre @ seq_from f srcs" "srcs \<noteq> []" "length srcs \<le> k"
    "r = (if length srcs < k then None else Some (group_of k f srcs))" "gb_inv k (hist @ [(ws, src)]) g'"
proof -
  note result = that
  have k: "0 < k" using assms(1) by (simp add: gb_inv_def)
  have fresh: thesis if "GroupBuilder_add ws src (GroupBuilder_new k) = (r, g')"
  proof (rule result[of hist ws "[src]"])
    show hist: "hist @ [(ws, src)] = hist @ seq_from ws [src]" by (simp add: seq_from_def)
    show "gb_inv k (hist @ [(ws, src)]) g'"
      using that k gb_invI_new gb_invI_state[OF _ _ hist] by (auto simp: gb_add_fresh split: if_splits)
  qed (use k that in \<open>auto simp: gb_add_fresh split: if_splits\<close>)
  consider "g = GroupBuilder_new k"
    | f pre srcs where "srcs \<noteq> []" "length srcs < k" "g = gb_state k f srcs" "hist = pre @ seq_from f srcs"
    using assms(1) by (auto simp: gb_inv_def)
  then show thesis
  proof cases
    case 1
    then show thesis using fresh assms(2) by simp
  next
    case (2 f pre srcs)
    show thesis
    proof (cases "ws = f + of_nat (length srcs)")
      case True
      then have hist: "hist @ [(ws, src)] = pre @ seq_from f (srcs @ [src])" using 2 by (simp add: seq_from_snoc)
      show thesis
      proof (rule result[OF hist])
        show "gb_inv k (hist @ [(ws, src)]) g'"
          using assms(2) 2(1-3) True k gb_invI_new gb_invI_state[OF _ _ hist]
          by (auto simp: gb_add_next split: if_splits)
      qed (use assms(2) 2(1-3) True in \<open>auto simp: gb_add_next split: if_splits\<close>)
    next
      case False
      then have "ws \<noteq> f + of_nat (length srcs - 1) + 1" using 2(1) by (cases srcs) auto
      then show thesis using fresh assms(2) 2(3) by (simp add: gb_add_gap)
    qed
  qed
qed

lemma gb_inv_feed: "gb_inv k h g \<Longrightarrow> gb_inv k (h @ hist) (gb_feed g hist)"
proof (induction hist arbitrary: h g)
  case (Cons p hist)
  obtain ws src where p: "p = (ws, src)" by (cases p)
  obtain r g' where a: "GroupBuilder_add ws src g = (r, g')" by fastforce
  have "gb_inv k (h @ [(ws, src)]) g'" by (rule gb_add_step[OF Cons.prems a])
  then show ?case using Cons.IH[of "h @ [(ws, src)]" g'] p a by simp
qed simp

section \<open>One lost member is recovered\<close>

lemma tail_at_drop: "n \<le> length xs \<Longrightarrow> tail_at (drop n xs) i = (if i < length xs - n then tail_at xs i else 0)"
  by (auto simp: tail_at_def rev_nth)

lemma tail_at_beyond: "length xs \<le> i \<Longrightarrow> tail_at xs i = 0"
  by (simp add: tail_at_def)

lemma xor_recover:
  assumes "j < length srcs" and rest: "rest = take j srcs @ drop (Suc j) srcs"
    and out: "out = foldl xor_into (xor_into (replicate (max_len (length (xor_payloads srcs)) rest) 0) (xor_payloads srcs)) rest"
  shows "length (srcs ! j) \<le> length out" "drop (length out - length (srcs ! j)) out = srcs ! j"
proof -
  let ?M = "max_len 0 srcs"
  have split: "srcs = take j srcs @ srcs ! j # drop (Suc j) srcs" using assms(1) by (rule id_take_nth_drop)
  have le: "length s \<le> ?M" if "s \<in> set rest" for s
    using that max_len_ge(2)[of s srcs 0] rest by (auto dest: in_set_takeD in_set_dropD)
  have M: "max_len ?M rest = ?M"
    using max_len_le[of ?M ?M rest] le max_len_ge(1)[of ?M rest] by simp
  have len: "length out = ?M" and bits: "tail_at out i = xsum srcs i XOR xsum rest i" for i
    using foldl_xor_into[of rest "xor_into (replicate ?M 0) (xor_payloads srcs)" i] le
    by (simp_all add: out M xor_payloads_facts tail_at_xor_into)
  have bits': "tail_at out i = tail_at (srcs ! j) i" for i
  proof -
    have "xsum srcs i = xsum (take j srcs) i XOR (tail_at (srcs ! j) i XOR xsum (drop (Suc j) srcs) i)"
      by (subst split) (simp add: xsum_append)
    then show ?thesis by (simp add: bits rest xsum_append ac_simps)
  qed
  show "length (srcs ! j) \<le> length out" using max_len_ge(2)[of "srcs ! j" srcs 0] assms(1) len by simp
  then show "drop (length out - length (srcs ! j)) out = srcs ! j"
    by (intro tail_at_eqI) (auto simp: tail_at_drop bits' tail_at_beyond)
qed

lemma upt_split: "j < k \<Longrightarrow> [0..<k] = [0..<j] @ j # [Suc j..<k]"
  using upt_add_eq_append[of 0 j "k - j"] by (simp add: upt_conv_Cons)

lemma try_recover_one:
  assumes srcs: "length srcs < 256" "j < length srcs" "\<And>s. s \<in> set srcs \<Longrightarrow> length s < 65536"
    and env: "tp_group_first_wire_seq env = f" "tp_k env = of_nat (length srcs)"
      "tp_source_lens env = map (\<lambda>s. of_nat (length s)) srcs" "tp_parity_payload env = xor_payloads srcs"
    and win: "\<And>i. i < length srcs \<Longrightarrow> om_get (f + of_nat i) (pd_window d) = (if i = j then None else Some (srcs ! i))"
    and fresh: "\<And>m. pd_max_evicted d = Some m \<Longrightarrow> 0 < sdist (f + of_nat j) m"
    and tile: "is_tile_datagram (srcs ! j)"
  shows "ParityDecoder_try_recover d env = Some (srcs ! j)"
proof -
  let ?at = "\<lambda>i. f + of_nat i :: u32" and ?get = "\<lambda>ws. om_get ws (pd_window d)"
  let ?rest = "take j srcs @ drop (Suc j) srcs"
  have mem: "group_members env = map ?at [0..<j] @ ?at j # map ?at [Suc j..<length srcs]"
    using srcs(1,2) by (simp add: group_members_def env unat_of_nat upt_split[of j])
  have miss: "filter (\<lambda>ws. ?get ws = None) (group_members env) = [?at j]"
    using srcs(2) win by (simp add: mem)
  have "filter (\<lambda>ws. ?get ws \<noteq> None) (group_members env) = map ?at [0..<j] @ map ?at [Suc j..<length srcs]"
    using srcs(2) win by (simp add: mem)
  moreover have "map (\<lambda>i. the (?get (?at i))) [0..<j] = map ((!) srcs) [0..<j]"
    "map (\<lambda>i. the (?get (?at i))) [Suc j..<length srcs] = map ((!) srcs) [Suc j..<length srcs]"
    using srcs(2) win by simp_all
  moreover have "map ((!) srcs) [0..<j] = take j srcs" "map ((!) srcs) [Suc j..<length srcs] = drop (Suc j) srcs"
    using srcs(2) by (auto simp: list_eq_iff_nth_eq)
  ultimately have recv: "map (\<lambda>ws. the (?get ws)) (filter (\<lambda>ws. ?get ws \<noteq> None) (group_members env)) = ?rest"
    by (simp add: comp_def)
  have idx: "unat (of_nat j :: u32) = j" using srcs(1,2) by (simp add: unat_of_nat)
  have len: "unat (tp_source_lens env ! j) = length (srcs ! j)"
    using srcs(2) srcs(3)[of "srcs ! j"] by (simp add: env unat_of_nat)
  have lens: "length (tp_source_lens env) = length srcs" by (simp add: env)
  have old: "\<not> (case pd_max_evicted d of Some m \<Rightarrow> sdist (last [?at j]) m \<le> 0 | None \<Rightarrow> False)"
    using fresh by (auto split: option.split)
  note X = xor_recover[OF srcs(2) refl refl]
  show ?thesis
    unfolding ParityDecoder_try_recover_def Let_def miss recv
    using srcs(2) old X tile by (simp add: env(1,4) idx len lens del: foldl_append)
qed

text \<open>The envelope that \<open>feed_group\<close> makes of a completed group.\<close>

definition parity_envelope :: "GroupResult \<Rightarrow> TileParityEnvelope" where
  "parity_envelope result = \<lparr> tp_group_first_wire_seq = gr_group_first_wire_seq result, tp_k = gr_k result,
     tp_parity_idx = 0, tp_source_lens = gr_source_lens result, tp_parity_payload = gr_parity result \<rparr>"

lemma completed_group:
  assumes "0 < k" "GroupBuilder_add ws src (gb_feed (GroupBuilder_new k) hist) = (Some gr, g')"
  obtains f pre srcs where "hist @ [(ws, src)] = pre @ seq_from f srcs" "length srcs = k" "gr = group_of k f srcs"
proof -
  have "gb_inv k hist (gb_feed (GroupBuilder_new k) hist)"
    using gb_inv_feed[of k "[]" "GroupBuilder_new k" hist] gb_invI_new assms(1) by simp
  from this assms(2) obtain srcs f pre where S: "hist @ [(ws, src)] = pre @ seq_from f srcs" "length srcs \<le> k"
    "Some gr = (if length srcs < k then None else Some (group_of k f srcs))"
    by (rule gb_add_step)
  show thesis by (rule that[OF S(1)]) (use S(2,3) in \<open>simp_all split: if_splits\<close>)
qed

section \<open>The decoder stays bounded\<close>

definition pd_inv :: "ParityDecoder \<Rightarrow> bool" where
  "pd_inv d \<longleftrightarrow> distinct (pd_order d) \<and> distinct (map fst (pd_window d)) \<and>
     set (pd_order d) = set (map fst (pd_window d)) \<and> length (pd_window d) \<le> pd_window_capacity d \<and>
     distinct (map fst (pd_pending_parities d)) \<and> length (pd_pending_parities d) \<le> pd_window_capacity d"

lemma pd_evict_inv:
  assumes "distinct order" "distinct (map fst w)" "set order = set (map fst w)"
    "pd_evict cap w order m = (w', order', m')"
  shows "distinct order' \<and> distinct (map fst w') \<and> set order' = set (map fst w') \<and> length w' \<le> cap"
  using assms
proof (induction cap w order m rule: pd_evict.induct)
  case (1 cap w m)
  then show ?case by simp
next
  case (2 cap w x order m)
  show ?case
  proof (cases "length w > cap")
    case True
    have "set order = set (map fst (om_remove x w))" using "2.prems" by (auto simp: set_om_remove)
    moreover have "distinct order" "distinct (map fst (om_remove x w))"
      using "2.prems" om_remove_facts(1)[of w x] by simp_all
    ultimately show ?thesis using "2.IH"[OF True] "2.prems"(4) True by simp
  next
    case False
    then have "w' = w" "order' = x # order" using "2.prems"(4) by simp_all
    then show ?thesis using "2.prems"(1-3) False by (metis not_less)
  qed
qed

lemma length_om_remove_le: "length (om_remove k m) \<le> length m"
  by (induction m) auto

lemma insert_pd_inv: "pd_inv d \<Longrightarrow> pd_inv (ParityDecoder_insert ws bs d)"
proof -
  assume inv: "pd_inv d"
  show ?thesis
  proof (cases "om_get ws (pd_window d) = None")
    case True
    obtain w' order' m' where e: "pd_evict (pd_window_capacity d) (om_set ws bs (pd_window d)) (pd_order d @ [ws])
        (pd_max_evicted d) = (w', order', m')" by (metis prod_cases3)
    then show ?thesis
      using True inv pd_evict_inv[OF _ _ _ e] om_set_facts(1,3)[where m = "pd_window d" and k = ws and v = bs]
      by (auto simp: pd_inv_def ParityDecoder_insert_def Let_def om_get_None)
  next
    case False
    then show ?thesis using inv by (auto simp: pd_inv_def ParityDecoder_insert_def Let_def)
  qed
qed

lemma record_source_pd_inv: "pd_inv d \<Longrightarrow> pd_inv (snd (ParityDecoder_record_source ws bs d))"
proof -
  assume "pd_inv d"
  then have d: "pd_inv (ParityDecoder_insert ws bs d)" by (rule insert_pd_inv)
  have "pd_inv (e\<lparr> pd_pending_parities := om_remove k (pd_pending_parities e) \<rparr>)" if "pd_inv e" for e k
    using that om_remove_facts(1)[of "pd_pending_parities e" k]
      length_om_remove_le[of k "pd_pending_parities e"] by (simp add: pd_inv_def)
  with d show ?thesis
    by (auto simp: ParityDecoder_record_source_def Let_def split: option.split prod.split)
qed

lemma prune_pending_pd_inv:
  assumes "pd_inv d" "distinct (map fst ps)"
  shows "pd_inv (ParityDecoder_prune_pending (d\<lparr> pd_pending_parities := ps \<rparr>))"
proof -
  have "distinct (map fst (drop n (om_retain f ps)))" for n f
    using assms(2) by (simp add: om_retain_def distinct_map_filter distinct_drop flip: drop_map)
  moreover have "distinct (map fst (drop n ps))" for n
    using assms(2) by (simp add: distinct_drop flip: drop_map)
  ultimately show ?thesis
    using assms(1) by (auto simp: pd_inv_def ParityDecoder_prune_pending_def Let_def split: option.split)
qed

lemma receive_parity_pd_inv: "pd_inv d \<Longrightarrow> pd_inv (snd (ParityDecoder_receive_parity env d))"
  using prune_pending_pd_inv[OF _ om_set_facts(1)]
  by (simp add: ParityDecoder_receive_parity_def Let_def) (simp add: pd_inv_def)

text \<open>What the client does to its decoder, as a step relation.\<close>

inductive parity_step :: "ParityDecoder \<Rightarrow> ParityDecoder \<Rightarrow> bool" where
  source: "parity_step d (snd (ParityDecoder_record_source ws bs d))"
| parity: "parity_step d (snd (ParityDecoder_receive_parity env d))"

interpretation parity_sys: step_system parity_step pd_inv
  by unfold_locales (auto elim!: parity_step.cases intro: record_source_pd_inv receive_parity_pd_inv)

lemma cap_evict [simp]: "pd_window_capacity (ParityDecoder_insert ws bs d) = pd_window_capacity d"
  by (simp add: ParityDecoder_insert_def Let_def split: prod.split)

lemma cap_step: "parity_step d d' \<Longrightarrow> pd_window_capacity d' = pd_window_capacity d"
  by (auto elim!: parity_step.cases
      simp: ParityDecoder_record_source_def ParityDecoder_receive_parity_def ParityDecoder_prune_pending_def Let_def
      split: option.split prod.split)

lemma cap_run: "parity_step\<^sup>*\<^sup>* d d' \<Longrightarrow> pd_window_capacity d' = pd_window_capacity d"
  by (induction rule: rtranclp_induct) (auto dest: cap_step)

section \<open>Properties\<close>

text \<open>
  C15. Forward error correction recovers a lost datagram.  Let the server's group builder, fed any
  history of datagrams, complete a group of \<open>k\<close>.  The group is the last \<open>k\<close> datagrams of
  the history; a client that holds all of them but one, whose window has not passed the missing one, gets
  back exactly the missing datagram from the group's parity envelope.
\<close>

theorem parity_recovers_lost_source:
  assumes k: "0 < k" "k < 256"
    and add: "GroupBuilder_add ws src (gb_feed (GroupBuilder_new k) hist) = (Some gr, g')"
    and sent: "sent = drop (length hist + 1 - k) (hist @ [(ws, src)])"
    and j: "j < k" "is_tile_datagram (snd (sent ! j))"
    and len: "\<And>s. s \<in> snd ` set sent \<Longrightarrow> length s < 65536"
    and win: "\<And>i. i < k \<Longrightarrow> om_get (fst (sent ! i)) (pd_window d) = (if i = j then None else Some (snd (sent ! i)))"
    and fresh: "\<And>m. pd_max_evicted d = Some m \<Longrightarrow> 0 < sdist (fst (sent ! j)) m"
  shows "ParityDecoder_receive_parity (parity_envelope gr) d = (Some (snd (sent ! j)), d)"
proof -
  obtain f pre srcs where S: "hist @ [(ws, src)] = pre @ seq_from f srcs" "length srcs = k" "gr = group_of k f srcs"
    using completed_group[OF k(1) add] by blast
  have "length hist + 1 = length pre + k" using arg_cong[OF S(1), of length] S(2) by simp
  then have sent': "sent = seq_from f srcs" using sent S(1) by simp
  have at: "fst (sent ! i) = f + of_nat i" "snd (sent ! i) = srcs ! i" if "i < k" for i
    using that S(2) by (simp_all add: sent' seq_from_nth)
  have lens: "length s < 65536" if "s \<in> set srcs" for s
  proof -
    from that obtain i where "i < k" "s = srcs ! i" using S(2) by (auto simp: in_set_conv_nth)
    then have "s \<in> snd ` set sent" using at(2)[of i] S(2) by (metis image_eqI length_seq_from nth_mem sent')
    then show ?thesis by (rule len)
  qed
  have "ParityDecoder_try_recover d (parity_envelope gr) = Some (srcs ! j)"
  proof (rule try_recover_one[of srcs j _ f])
    show "om_get (f + of_nat i) (pd_window d) = (if i = j then None else Some (srcs ! i))" if "i < length srcs" for i
      using that win[of i] at[of i] S(2) by simp
    show "0 < sdist (f + of_nat j) m" if "pd_max_evicted d = Some m" for m using fresh[OF that] at(1)[OF j(1)] by simp
  qed (use k j S lens at(2)[OF j(1)] in \<open>simp_all add: parity_envelope_def group_of_def\<close>)
  then show ?thesis using at(2)[OF j(1)] by (simp add: ParityDecoder_receive_parity_def)
qed

theorem parity_recovers_lost_source_witness:
  "let a = replicate 40 (255 :: u8); b = replicate 50 (129 :: u8);
       g = gb_feed (GroupBuilder_new 2) [(7, [1]), (9, a)]; d = (ParityDecoder_new 8)\<lparr> pd_window := [(9, a)] \<rparr> in
   ParityDecoder_receive_parity (parity_envelope (the (fst (GroupBuilder_add 10 b g)))) d = (Some b, d)"
proof -
  let ?a = "replicate 40 (255 :: u8)" and ?b = "replicate 50 (129 :: u8)"
  let ?g = "gb_feed (GroupBuilder_new 2) [(7, [1]), (9, ?a)]" and ?d = "(ParityDecoder_new 8)\<lparr> pd_window := [(9, ?a)] \<rparr>"
  have add: "GroupBuilder_add 10 ?b ?g = (Some (group_of 2 9 [?a, ?b]), GroupBuilder_new 2)"
    using gb_add_next[of "[?a]" 9 ?b 2] gb_add_gap[of 9 7 "[[1]]" ?a 2] by (simp add: gb_add_fresh)
  have tile: "is_tile_datagram ?b" by (simp add: is_tile_datagram_def numeral_eq_Suc) code_simp
  have nth: "i < 2 \<Longrightarrow> i = 0 \<or> i = 1" for i :: nat by auto
  have "ParityDecoder_receive_parity (parity_envelope (group_of 2 9 [?a, ?b])) ?d = (Some (snd ([(9 :: u32, ?a), (10, ?b)] ! 1)), ?d)"
    by (rule parity_recovers_lost_source[OF _ _ add])
      (use tile in \<open>auto simp: ParityDecoder_new_def om_get_map_of dest!: nth\<close>)
  then show ?thesis using add by simp
qed

text \<open>
  C16. The client's recovery state is bounded.  After any sequence of received sources and parity envelopes,
  neither the window of sources nor the list of parities awaiting one exceeds the capacity the decoder was made
  with, the eviction order lists exactly the sources held, and no key occurs twice.
\<close>

theorem parity_decoder_bounded:
  assumes "parity_step\<^sup>*\<^sup>* (ParityDecoder_new cap) d"
  shows "length (pd_window d) \<le> cap \<and> length (pd_pending_parities d) \<le> cap \<and>
    distinct (pd_order d) \<and> set (pd_order d) = fst ` set (pd_window d) \<and>
    distinct (map fst (pd_window d)) \<and> distinct (map fst (pd_pending_parities d))"
proof -
  have "pd_inv (ParityDecoder_new cap)" by (simp add: pd_inv_def ParityDecoder_new_def)
  then have "pd_inv d" by (rule parity_sys.inv_run[OF assms])
  moreover have "pd_window_capacity d = cap" using cap_run[OF assms] by (simp add: ParityDecoder_new_def)
  ultimately show ?thesis by (simp add: pd_inv_def)
qed

theorem parity_decoder_bounded_witness:
  "\<exists>d. parity_step\<^sup>*\<^sup>* (ParityDecoder_new 1) d \<and> pd_window d = [(2, [5])] \<and> length (pd_window d) \<le> 1"
proof -
  let ?d1 = "snd (ParityDecoder_record_source 1 [4] (ParityDecoder_new 1))"
  let ?d2 = "snd (ParityDecoder_record_source 2 [5] ?d1)"
  have run: "parity_step\<^sup>*\<^sup>* (ParityDecoder_new 1) ?d2"
    by (meson parity_step.source rtranclp.rtrancl_into_rtrancl rtranclp.rtrancl_refl)
  have "pd_window ?d2 = [(2, [5])]"
    by (simp add: ParityDecoder_record_source_def ParityDecoder_insert_def ParityDecoder_new_def om_set_def
        om_get_map_of Let_def)
  then show ?thesis using run parity_decoder_bounded[OF run] by blast
qed

end
