(* ===== verification/H264_Gate.thy ===== *)
theory H264_Gate
  imports Batchers
begin

text \<open>
  The client's reference gate and frame-ack window (\<^verbatim>\<open>client-core/src/h264_gate.rs\<close>).  The gate decides
  which completed access units reach the decoder.  Its specification is the list of frames fed since the last
  reset: what a decoder that was given exactly those frames holds as references.
\<close>

section \<open>Constants and serial order\<close>

definition RESET_REQUEST_MIN_INTERVAL_US :: nat where "RESET_REQUEST_MIN_INTERVAL_US = 2200000"
definition ACKED_REF_STUCK_US :: nat where "ACKED_REF_STUCK_US = 2200000"
definition FRAME_ACK_MIN_INTERVAL_US :: nat where "FRAME_ACK_MIN_INTERVAL_US = 4000"
definition FRAME_ACK_FALLBACK_US :: nat where "FRAME_ACK_FALLBACK_US = 100000"
definition FED_CAP :: nat where "FED_CAP = 128"
definition GOOD_CAP :: nat where "GOOD_CAP = 128"
definition LT_SLOTS :: nat where "LT_SLOTS = 2"

definition seq_after :: "u32 \<Rightarrow> u32 \<Rightarrow> bool" where
  "seq_after a b \<longleftrightarrow> (let forward = (a - b) AND 0x7FFFFFFF in forward \<noteq> 0 \<and> forward < 0x40000000)"

section \<open>The gate\<close>

datatype RefuseCause = Stale | NoReference | BadSlot
datatype Verdict = Feed bool | Refuse RefuseCause
datatype H264Outcome = HO_Decoded | HO_NotOutput | HO_DecodeError | HO_NoDecoder
datatype ResetCause = RC_IdrReceived | RC_Resolution | RC_DecoderFailure | RC_NoDecoder

record H264Gate =
  hg_good :: "u32 list"
  hg_lt :: "u32 option list"
  hg_newest_ref :: "u32 option"
  hg_last_fed :: "u32 option"
  hg_waiting_for_idr :: bool
  hg_acked_ref_stream :: bool
  hg_refusing_since_us :: "nat option"
  hg_fed :: "u32 list"
  hg_last_request_us :: "nat option"
  hg_last_failure_request_us :: "nat option"
  hg_no_decoder :: bool
  hg_request :: "(ResetReason \<times> u32) option"
  hg_decoder_reset_pending :: bool

definition H264Gate_new :: H264Gate where
  "H264Gate_new = \<lparr> hg_good = [], hg_lt = [None, None], hg_newest_ref = None, hg_last_fed = None,
     hg_waiting_for_idr = False, hg_acked_ref_stream = False, hg_refusing_since_us = None, hg_fed = [],
     hg_last_request_us = None, hg_last_failure_request_us = None, hg_no_decoder = False, hg_request = None,
     hg_decoder_reset_pending = False \<rparr>"

definition take_request :: "H264Gate \<Rightarrow> (ResetReason \<times> u32) option \<times> H264Gate" where
  "take_request g = (hg_request g, g\<lparr> hg_request := None \<rparr>)"

definition note_fed :: "u32 \<Rightarrow> H264Gate \<Rightarrow> H264Gate" where
  "note_fed seq g =
     (let fed = hg_fed g @ [seq] in g\<lparr> hg_fed := if length fed > FED_CAP then tl fed else fed \<rparr>)"

definition was_fed :: "H264Gate \<Rightarrow> u32 \<Rightarrow> bool" where
  "was_fed g seq \<longleftrightarrow> seq \<in> set (hg_fed g)"

definition request_due :: "nat \<Rightarrow> nat option \<Rightarrow> bool" where
  "request_due now_us last_us =
     (case last_us of None \<Rightarrow> True | Some t \<Rightarrow> now_us - t \<ge> RESET_REQUEST_MIN_INTERVAL_US)"

definition paced_request :: "ResetReason \<Rightarrow> u32 \<Rightarrow> nat \<Rightarrow> H264Gate \<Rightarrow> H264Gate" where
  "paced_request reason seq now_us g =
     (let send = (case reason of
            DecoderFailure \<Rightarrow> request_due now_us (hg_last_failure_request_us g)
          | GateReset \<Rightarrow> request_due now_us (hg_last_request_us g) \<and> request_due now_us (hg_last_failure_request_us g)
          | Resolution \<Rightarrow> request_due now_us (hg_last_request_us g)
          | NoDecoder \<Rightarrow> request_due now_us (hg_last_request_us g))
      in if \<not> send then g
         else (case reason of
                 DecoderFailure \<Rightarrow> g\<lparr> hg_last_failure_request_us := Some now_us, hg_request := Some (reason, seq) \<rparr>
               | _ \<Rightarrow> g\<lparr> hg_last_request_us := Some now_us, hg_request := Some (reason, seq) \<rparr>))"

definition gate_reset :: "ResetCause \<Rightarrow> u32 \<Rightarrow> nat \<Rightarrow> H264Gate \<Rightarrow> H264Gate" where
  "gate_reset cause frame_seq now_us g =
     (let g = g\<lparr> hg_good := [], hg_lt := [None, None], hg_newest_ref := None, hg_decoder_reset_pending := True \<rparr>
      in case cause of
           RC_IdrReceived \<Rightarrow> g
         | RC_Resolution \<Rightarrow> g\<lparr> hg_waiting_for_idr := True \<rparr>
         | RC_DecoderFailure \<Rightarrow> paced_request DecoderFailure frame_seq now_us (g\<lparr> hg_waiting_for_idr := True \<rparr>)
         | RC_NoDecoder \<Rightarrow>
             let g = g\<lparr> hg_waiting_for_idr := True \<rparr>
             in if hg_no_decoder g then g
                else g\<lparr> hg_no_decoder := True, hg_request := Some (NoDecoder, frame_seq),
                        hg_last_request_us := Some now_us \<rparr>)"

definition gate_refuse :: "RefuseCause \<Rightarrow> u32 \<Rightarrow> nat \<Rightarrow> H264Gate \<Rightarrow> Verdict \<times> H264Gate" where
  "gate_refuse cause seq now_us g =
     (Refuse cause,
      if cause \<noteq> NoReference then g
      else
        let g = g\<lparr> hg_waiting_for_idr := True \<rparr> in
        if hg_no_decoder g then g
        else
          let since = (case hg_refusing_since_us g of Some t \<Rightarrow> t | None \<Rightarrow> now_us);
              g = g\<lparr> hg_refusing_since_us := Some since \<rparr>;
              due = (\<not> hg_acked_ref_stream g \<or> now_us - since \<ge> ACKED_REF_STUCK_US)
          in if due then paced_request GateReset seq now_us g else g)"

definition has_flag :: "FrameHeader \<Rightarrow> u8 \<Rightarrow> bool" where
  "has_flag h f \<longleftrightarrow> fh_flags h AND f \<noteq> 0"

definition mark_slot_of :: "FrameHeader \<Rightarrow> nat" where "mark_slot_of h = unat (fh_slots h AND 3)"
definition target_slot_of :: "FrameHeader \<Rightarrow> nat" where "target_slot_of h = unat (drop_bit 2 (fh_slots h) AND 3)"

definition marks_self :: "FrameHeader \<Rightarrow> bool" where
  "marks_self h \<longleftrightarrow> has_flag h FRAME_FLAG_MARK_LT \<and> \<not> has_flag h FRAME_FLAG_NON_REF"

definition marks_target :: "FrameHeader \<Rightarrow> bool" where
  "marks_target h \<longleftrightarrow> has_flag h FRAME_FLAG_MARK_TARGET \<and>
     \<not> has_flag h (FRAME_FLAG_NON_REF OR FRAME_FLAG_TARGET_IS_LT)"

definition on_idr :: "u32 \<Rightarrow> nat \<Rightarrow> H264Gate \<Rightarrow> H264Gate" where
  "on_idr seq now_us g =
     (let g = gate_reset RC_IdrReceived seq now_us g;
          g = note_fed seq (g\<lparr> hg_last_fed := Some seq \<rparr>)
      in g\<lparr> hg_good := hg_good g @ [seq], hg_lt := [Some seq, None], hg_newest_ref := Some seq,
            hg_waiting_for_idr := False, hg_refusing_since_us := None, hg_decoder_reset_pending := False \<rparr>)"

definition on_predicted :: "FrameHeader \<Rightarrow> H264Gate \<Rightarrow> H264Gate" where
  "on_predicted h g =
     (let seq = fh_frame_seq h;
          g = note_fed seq (g\<lparr> hg_last_fed := Some seq \<rparr>);
          good = hg_good g @ [seq];
          g = g\<lparr> hg_good := if length good > GOOD_CAP then tl good else good \<rparr>;
          g = (if \<not> has_flag h FRAME_FLAG_NON_REF
               then g\<lparr> hg_newest_ref := Some seq,
                       hg_lt := if marks_self h then (hg_lt g)[mark_slot_of h := Some seq] else hg_lt g \<rparr>
               else g);
          g = (if marks_target h \<and> fh_ref_frame_seq h \<noteq> REF_FRAME_NONE
               then g\<lparr> hg_lt := (hg_lt g)[mark_slot_of h := Some (fh_ref_frame_seq h)] \<rparr> else g)
      in g\<lparr> hg_refusing_since_us := None, hg_decoder_reset_pending := False \<rparr>)"

definition gate_on_frame :: "FrameHeader \<Rightarrow> nat \<Rightarrow> H264Gate \<Rightarrow> Verdict \<times> H264Gate" where
  "gate_on_frame h now_us g =
     (let seq = fh_frame_seq h;
          g = (if has_flag h (FRAME_FLAG_NON_REF OR FRAME_FLAG_MARK_LT OR FRAME_FLAG_MARK_TARGET OR FRAME_FLAG_TARGET_IS_LT)
               then g\<lparr> hg_acked_ref_stream := True \<rparr> else g)
      in if (case hg_last_fed g of Some l \<Rightarrow> \<not> seq_after seq l | None \<Rightarrow> False) then (Refuse Stale, g)
         else if FrameHeader_is_keyframe h then (Feed True, on_idr seq now_us g)
         else if (marks_self h \<or> marks_target h) \<and> mark_slot_of h \<ge> LT_SLOTS then gate_refuse BadSlot seq now_us g
         else if marks_self h \<and> has_flag h FRAME_FLAG_MARK_TARGET then gate_refuse BadSlot seq now_us g
         else if has_flag h FRAME_FLAG_TARGET_IS_LT \<and> target_slot_of h \<ge> LT_SLOTS then gate_refuse BadSlot seq now_us g
         else
           let held =
             (if has_flag h FRAME_FLAG_TARGET_IS_LT
              then fh_ref_frame_seq h \<noteq> REF_FRAME_NONE \<and> hg_lt g ! target_slot_of h = Some (fh_ref_frame_seq h)
              else if fh_ref_frame_seq h = REF_FRAME_NONE then \<not> hg_waiting_for_idr g
              else fh_ref_frame_seq h \<in> set (hg_good g) \<and> hg_newest_ref g = Some (fh_ref_frame_seq h))
           in if \<not> held then gate_refuse NoReference seq now_us g
              else (Feed (hg_decoder_reset_pending g), on_predicted h g))"

section \<open>The frame-ack window\<close>

record FrameAckWindow =
  fw_newest :: "u32 option"
  fw_decoded :: u64
  fw_refused :: u64
  fw_dirty_since_us :: "nat option"
  fw_last_sent_us :: "nat option"

definition FrameAckWindow_new :: FrameAckWindow where
  "FrameAckWindow_new = \<lparr> fw_newest = None, fw_decoded = 0, fw_refused = 0, fw_dirty_since_us = None,
     fw_last_sent_us = None \<rparr>"

definition SEQ_MASK :: u32 where "SEQ_MASK = 0x7FFFFFFF"

definition fw_set :: "nat \<Rightarrow> bool \<Rightarrow> FrameAckWindow \<Rightarrow> FrameAckWindow" where
  "fw_set b decoded w =
     (let m = push_bit b 1 in
      if \<not> decoded \<and> fw_decoded w AND m \<noteq> 0 then w
      else if decoded then w\<lparr> fw_decoded := fw_decoded w OR m, fw_refused := fw_refused w AND NOT m \<rparr>
      else w\<lparr> fw_refused := fw_refused w OR m, fw_decoded := fw_decoded w AND NOT m \<rparr>)"

definition fw_touch :: "nat \<Rightarrow> FrameAckWindow \<Rightarrow> FrameAckWindow" where
  "fw_touch now_us w = w\<lparr> fw_dirty_since_us := Some (case fw_dirty_since_us w of Some t \<Rightarrow> t | None \<Rightarrow> now_us) \<rparr>"

definition FrameAckWindow_record :: "u32 \<Rightarrow> bool \<Rightarrow> nat \<Rightarrow> FrameAckWindow \<Rightarrow> FrameAckWindow" where
  "FrameAckWindow_record seq decoded now_us w =
     (case fw_newest w of
        None \<Rightarrow> fw_touch now_us (fw_set 0 decoded (w\<lparr> fw_newest := Some seq, fw_decoded := 0, fw_refused := 0 \<rparr>))
      | Some newest \<Rightarrow>
          let forward = (seq - newest) AND SEQ_MASK in
          if forward = 0 then fw_touch now_us (fw_set 0 decoded w)
          else if forward < 0x40000000 then
            let w = (if forward \<ge> 64 then w\<lparr> fw_decoded := 0, fw_refused := 0 \<rparr>
                     else w\<lparr> fw_decoded := push_bit (unat forward) (fw_decoded w),
                             fw_refused := push_bit (unat forward) (fw_refused w) \<rparr>)
            in fw_touch now_us (fw_set 0 decoded (w\<lparr> fw_newest := Some seq \<rparr>))
          else
            let back = (newest - seq) AND SEQ_MASK in
            if back \<ge> 64 then w else fw_touch now_us (fw_set (unat back) decoded w))"

definition fw_fallback_at :: "FrameAckWindow \<Rightarrow> nat option" where
  "fw_fallback_at w = map_option (\<lambda>t. t + FRAME_ACK_FALLBACK_US) (fw_dirty_since_us w)"

definition fw_take :: "nat \<Rightarrow> FrameAckWindow \<Rightarrow> FrameAck option \<times> FrameAckWindow" where
  "fw_take now_us w =
     (case fw_newest w of
        None \<Rightarrow> (None, w)
      | Some newest_seq \<Rightarrow>
          (Some \<lparr> fa_newest_seq = newest_seq, fa_decoded_mask = fw_decoded w, fa_refused_mask = fw_refused w \<rparr>,
           w\<lparr> fw_dirty_since_us := None, fw_last_sent_us := Some now_us \<rparr>))"

definition FrameAckWindow_take_due :: "nat \<Rightarrow> FrameAckWindow \<Rightarrow> FrameAck option \<times> FrameAckWindow" where
  "FrameAckWindow_take_due now_us w =
     (if fw_dirty_since_us w = None then (None, w)
      else if (case fw_last_sent_us w of Some t \<Rightarrow> now_us - t < FRAME_ACK_MIN_INTERVAL_US | None \<Rightarrow> False) then (None, w)
      else fw_take now_us w)"

definition FrameAckWindow_take_overdue :: "nat \<Rightarrow> FrameAckWindow \<Rightarrow> FrameAck option \<times> FrameAckWindow" where
  "FrameAckWindow_take_overdue now_us w =
     (case fw_fallback_at w of
        None \<Rightarrow> (None, w)
      | Some d \<Rightarrow> if d > now_us then (None, w) else fw_take now_us w)"

section \<open>The gate as a function of the frames fed since the last reset\<close>

definition is_reference :: "FrameHeader \<Rightarrow> bool" where
  "is_reference h \<longleftrightarrow> FrameHeader_is_keyframe h \<or> \<not> has_flag h FRAME_FLAG_NON_REF"

definition log_newest_ref :: "FrameHeader list \<Rightarrow> u32 option" where
  "log_newest_ref log =
     (let refs = filter is_reference log in if refs = [] then None else Some (fh_frame_seq (last refs)))"

text \<open>The long-term slots of a decoder that has decoded a frame, and a list of frames.\<close>

definition dpb_mark :: "u32 option list \<Rightarrow> FrameHeader \<Rightarrow> u32 option list" where
  "dpb_mark lt h =
     (if FrameHeader_is_keyframe h then [Some (fh_frame_seq h), None]
      else
        let lt = (if marks_self h then lt[mark_slot_of h := Some (fh_frame_seq h)] else lt)
        in if marks_target h \<and> fh_ref_frame_seq h \<noteq> REF_FRAME_NONE
           then lt[mark_slot_of h := Some (fh_ref_frame_seq h)] else lt)"

definition dpb_lt :: "FrameHeader list \<Rightarrow> u32 option list" where
  "dpb_lt log = foldl dpb_mark [None, None] log"

definition reference_held :: "FrameHeader list \<Rightarrow> bool \<Rightarrow> FrameHeader \<Rightarrow> bool" where
  "reference_held log waiting h =
     (if has_flag h FRAME_FLAG_TARGET_IS_LT
      then target_slot_of h < LT_SLOTS \<and> fh_ref_frame_seq h \<noteq> REF_FRAME_NONE \<and>
           dpb_lt log ! target_slot_of h = Some (fh_ref_frame_seq h)
      else if fh_ref_frame_seq h = REF_FRAME_NONE then \<not> waiting
      else log_newest_ref log = Some (fh_ref_frame_seq h) \<and>
           fh_ref_frame_seq h \<in> set (lastn GOOD_CAP (map fh_frame_seq log)))"

definition well_marked :: "FrameHeader \<Rightarrow> bool" where
  "well_marked h \<longleftrightarrow> (marks_self h \<or> marks_target h \<longrightarrow> mark_slot_of h < LT_SLOTS) \<and>
     \<not> (marks_self h \<and> has_flag h FRAME_FLAG_MARK_TARGET)"

text \<open>
  The gate with two ghost lists: the frames fed since the last reset, and all frames ever fed.
\<close>

inductive gate_step :: "H264Gate \<times> FrameHeader list \<times> FrameHeader list \<Rightarrow>
    H264Gate \<times> FrameHeader list \<times> FrameHeader list \<Rightarrow> bool" where
  fed: "gate_on_frame h t g = (Feed rd, g') \<Longrightarrow>
     gate_step (g, log, fed) (g', if FrameHeader_is_keyframe h then [h] else log @ [h], fed @ [h])"
| refused: "gate_on_frame h t g = (Refuse c, g') \<Longrightarrow> gate_step (g, log, fed) (g', log, fed)"
| reset: "c \<noteq> RC_IdrReceived \<Longrightarrow> gate_step (g, log, fed) (gate_reset c seq t g, [], fed)"
| taken: "gate_step (g, log, fed) (snd (take_request g), log, fed)"

fun gate_inv :: "H264Gate \<times> FrameHeader list \<times> FrameHeader list \<Rightarrow> bool" where
  "gate_inv (g, log, fed) \<longleftrightarrow>
     hg_good g = lastn GOOD_CAP (map fh_frame_seq log) \<and>
     hg_newest_ref g = log_newest_ref log \<and> hg_lt g = dpb_lt log \<and>
     hg_last_fed g = (if fed = [] then None else Some (fh_frame_seq (last fed))) \<and>
     (hg_decoder_reset_pending g \<longrightarrow> hg_waiting_for_idr g \<and> log = []) \<and>
     (log = [] \<and> fed \<noteq> [] \<longrightarrow> hg_waiting_for_idr g) \<and>
     (\<exists>pre. fed = pre @ log)"

lemma lastn_push:
  "0 < n \<Longrightarrow> (if length (lastn n xs @ [x]) > n then tl (lastn n xs @ [x]) else lastn n xs @ [x]) = lastn n (xs @ [x])"
proof -
  assume n: "0 < n"
  have eq: "lastn n ys = drop (length ys - n) ys" for ys :: "'a list" by (simp add: lastn_def rev_take)
  show ?thesis
  proof (cases "length xs < n")
    case True
    then show ?thesis by (simp add: eq)
  next
    case False
    then have "Suc (length xs) - n = Suc (length xs - n)" "drop (length xs - n) xs \<noteq> []" using n by auto
    then show ?thesis using False n by (simp add: eq drop_Suc tl_drop)
  qed
qed

lemma lastn_Nil [simp]: "lastn n [] = []"
  by (simp add: lastn_def)

lemma lastn_single: "0 < n \<Longrightarrow> lastn n [x] = [x]"
  by (simp add: lastn_def)

lemma log_newest_ref_snoc:
  "log_newest_ref (log @ [h]) = (if is_reference h then Some (fh_frame_seq h) else log_newest_ref log)"
  by (simp add: log_newest_ref_def)

lemma dpb_lt_snoc: "dpb_lt (log @ [h]) = dpb_mark (dpb_lt log) h"
  by (simp add: dpb_lt_def)

text \<open>Refusals and resets leave the references alone, or clear them.\<close>

lemma paced_request_frame [simp]:
  "hg_good (paced_request r s t g) = hg_good g" "hg_lt (paced_request r s t g) = hg_lt g"
  "hg_newest_ref (paced_request r s t g) = hg_newest_ref g" "hg_last_fed (paced_request r s t g) = hg_last_fed g"
  "hg_waiting_for_idr (paced_request r s t g) = hg_waiting_for_idr g"
  "hg_decoder_reset_pending (paced_request r s t g) = hg_decoder_reset_pending g"
  "hg_no_decoder (paced_request r s t g) = hg_no_decoder g"
  by (auto simp: paced_request_def Let_def split: ResetReason.split)

lemma gate_refuse_frame:
  assumes "gate_refuse c s t g = (v, g')"
  shows "v = Refuse c" "hg_good g' = hg_good g" "hg_lt g' = hg_lt g" "hg_newest_ref g' = hg_newest_ref g"
    "hg_last_fed g' = hg_last_fed g" "hg_decoder_reset_pending g' = hg_decoder_reset_pending g"
    "hg_waiting_for_idr g \<longrightarrow> hg_waiting_for_idr g'"
  using assms unfolding gate_refuse_def Let_def by (auto split: if_splits)

lemma gate_reset_frame [simp]:
  "hg_good (gate_reset c s t g) = []" "hg_lt (gate_reset c s t g) = [None, None]"
  "hg_newest_ref (gate_reset c s t g) = None" "hg_last_fed (gate_reset c s t g) = hg_last_fed g"
  "hg_waiting_for_idr (gate_reset c s t g) = (c \<noteq> RC_IdrReceived \<or> hg_waiting_for_idr g)"
  by (auto simp: gate_reset_def Let_def split: ResetCause.split)

text \<open>What feeding does, in one step.\<close>

definition note_stream :: "FrameHeader \<Rightarrow> H264Gate \<Rightarrow> H264Gate" where
  "note_stream h g =
     (if has_flag h (FRAME_FLAG_NON_REF OR FRAME_FLAG_MARK_LT OR FRAME_FLAG_MARK_TARGET OR FRAME_FLAG_TARGET_IS_LT)
      then g\<lparr> hg_acked_ref_stream := True \<rparr> else g)"

lemma note_stream_frame [simp]:
  "hg_good (note_stream h g) = hg_good g" "hg_lt (note_stream h g) = hg_lt g"
  "hg_newest_ref (note_stream h g) = hg_newest_ref g" "hg_last_fed (note_stream h g) = hg_last_fed g"
  "hg_waiting_for_idr (note_stream h g) = hg_waiting_for_idr g"
  "hg_decoder_reset_pending (note_stream h g) = hg_decoder_reset_pending g"
  "hg_no_decoder (note_stream h g) = hg_no_decoder g" "hg_request (note_stream h g) = hg_request g"
  "hg_last_request_us (note_stream h g) = hg_last_request_us g"
  "hg_last_failure_request_us (note_stream h g) = hg_last_failure_request_us g"
  by (simp_all add: note_stream_def)

definition gate_holds :: "FrameHeader \<Rightarrow> H264Gate \<Rightarrow> bool" where
  "gate_holds h g =
     (if has_flag h FRAME_FLAG_TARGET_IS_LT
      then fh_ref_frame_seq h \<noteq> REF_FRAME_NONE \<and> hg_lt g ! target_slot_of h = Some (fh_ref_frame_seq h)
      else if fh_ref_frame_seq h = REF_FRAME_NONE then \<not> hg_waiting_for_idr g
      else fh_ref_frame_seq h \<in> set (hg_good g) \<and> hg_newest_ref g = Some (fh_ref_frame_seq h))"

definition gate_admits :: "FrameHeader \<Rightarrow> H264Gate \<Rightarrow> bool" where
  "gate_admits h g \<longleftrightarrow> (\<forall>l. hg_last_fed g = Some l \<longrightarrow> seq_after (fh_frame_seq h) l) \<and>
     (FrameHeader_is_keyframe h \<or>
      well_marked h \<and> (has_flag h FRAME_FLAG_TARGET_IS_LT \<longrightarrow> target_slot_of h < LT_SLOTS) \<and> gate_holds h g)"

lemma gate_on_frame_eq:
  "gate_on_frame h t g =
     (let seq = fh_frame_seq h; g' = note_stream h g in
      if \<not> (\<forall>l. hg_last_fed g = Some l \<longrightarrow> seq_after seq l) then (Refuse Stale, g')
      else if FrameHeader_is_keyframe h then (Feed True, on_idr seq t g')
      else if \<not> well_marked h \<or> (has_flag h FRAME_FLAG_TARGET_IS_LT \<and> LT_SLOTS \<le> target_slot_of h)
      then gate_refuse BadSlot seq t g'
      else if \<not> gate_holds h g then gate_refuse NoReference seq t g'
      else (Feed (hg_decoder_reset_pending g), on_predicted h g'))"
proof -
  have stale: "(case hg_last_fed g of Some l \<Rightarrow> \<not> seq_after (fh_frame_seq h) l | None \<Rightarrow> False) \<longleftrightarrow>
    \<not> (\<forall>l. hg_last_fed g = Some l \<longrightarrow> seq_after (fh_frame_seq h) l)" by (simp split: option.split)
  have marked: "\<not> well_marked h \<longleftrightarrow> (marks_self h \<or> marks_target h) \<and> LT_SLOTS \<le> mark_slot_of h \<or>
    marks_self h \<and> has_flag h FRAME_FLAG_MARK_TARGET" by (auto simp: well_marked_def)
  have holds: "gate_holds h (note_stream h g) = gate_holds h g" by (simp add: gate_holds_def)
  show ?thesis
    unfolding gate_on_frame_def Let_def note_stream_def[symmetric] note_stream_frame stale marked
      gate_holds_def[symmetric] holds by auto
qed

lemma gate_on_frame_cases:
  obtains (admitted) "gate_admits h g" "gate_on_frame h t g =
      (Feed (FrameHeader_is_keyframe h \<or> hg_decoder_reset_pending g),
       if FrameHeader_is_keyframe h then on_idr (fh_frame_seq h) t (note_stream h g) else on_predicted h (note_stream h g))"
  | (stale) "\<not> gate_admits h g" "gate_on_frame h t g = (Refuse Stale, note_stream h g)"
  | (refused) c where "\<not> gate_admits h g" "gate_on_frame h t g = gate_refuse c (fh_frame_seq h) t (note_stream h g)"
proof (cases "\<forall>l. hg_last_fed g = Some l \<longrightarrow> seq_after (fh_frame_seq h) l")
  case False
  then have "gate_on_frame h t g = (Refuse Stale, note_stream h g)" "\<not> gate_admits h g"
    by (simp_all only: gate_on_frame_eq gate_admits_def Let_def) simp_all
  then show thesis using stale by blast
next
  case fresh: True
  let ?ok = "well_marked h \<and> (has_flag h FRAME_FLAG_TARGET_IS_LT \<longrightarrow> target_slot_of h < LT_SLOTS)"
  consider "FrameHeader_is_keyframe h" | "\<not> FrameHeader_is_keyframe h" "\<not> ?ok"
    | "\<not> FrameHeader_is_keyframe h" ?ok "\<not> gate_holds h g" | "\<not> FrameHeader_is_keyframe h" ?ok "gate_holds h g"
    by blast
  then show thesis
  proof cases
    case 1
    then show thesis using fresh admitted by (auto simp: gate_on_frame_eq gate_admits_def Let_def)
  next
    case 2
    then have "gate_on_frame h t g = gate_refuse BadSlot (fh_frame_seq h) t (note_stream h g)" "\<not> gate_admits h g"
      using fresh by (auto simp: gate_on_frame_eq gate_admits_def Let_def)
    then show thesis using refused by blast
  next
    case 3
    then have "gate_on_frame h t g = gate_refuse NoReference (fh_frame_seq h) t (note_stream h g)" "\<not> gate_admits h g"
      using fresh by (auto simp: gate_on_frame_eq gate_admits_def Let_def)
    then show thesis using refused by blast
  next
    case 4
    then show thesis using fresh admitted by (auto simp: gate_on_frame_eq gate_admits_def Let_def)
  qed
qed

lemma on_idr_frame:
  "hg_good (on_idr seq t g) = [seq]" "hg_lt (on_idr seq t g) = [Some seq, None]"
  "hg_newest_ref (on_idr seq t g) = Some seq" "hg_last_fed (on_idr seq t g) = Some seq"
  "\<not> hg_waiting_for_idr (on_idr seq t g)" "\<not> hg_decoder_reset_pending (on_idr seq t g)"
  by (simp_all add: on_idr_def note_fed_def Let_def)

lemma on_predicted_frame:
  assumes "\<not> FrameHeader_is_keyframe h" "hg_good g = lastn GOOD_CAP xs"
  shows "hg_good (on_predicted h g) = lastn GOOD_CAP (xs @ [fh_frame_seq h])"
    "hg_lt (on_predicted h g) = dpb_mark (hg_lt g) h"
    "hg_newest_ref (on_predicted h g) = (if is_reference h then Some (fh_frame_seq h) else hg_newest_ref g)"
    "hg_last_fed (on_predicted h g) = Some (fh_frame_seq h)"
    "hg_waiting_for_idr (on_predicted h g) = hg_waiting_for_idr g" "\<not> hg_decoder_reset_pending (on_predicted h g)"
proof -
  have "0 < GOOD_CAP" by (simp add: GOOD_CAP_def)
  then show "hg_good (on_predicted h g) = lastn GOOD_CAP (xs @ [fh_frame_seq h])"
    using lastn_push[of GOOD_CAP xs "fh_frame_seq h"] assms(2)
    by (auto simp: on_predicted_def note_fed_def Let_def split: if_splits)
  have "marks_self h \<Longrightarrow> \<not> has_flag h FRAME_FLAG_NON_REF" by (simp add: marks_self_def)
  then show "hg_lt (on_predicted h g) = dpb_mark (hg_lt g) h"
    using assms(1) by (auto simp: on_predicted_def note_fed_def dpb_mark_def Let_def)
qed (use assms(1) in \<open>auto simp: on_predicted_def note_fed_def is_reference_def Let_def\<close>)

lemma gate_inv_feed:
  assumes "gate_inv (g, log, fed)" "gate_on_frame h t g = (Feed rd, g')"
  shows "gate_inv (g', if FrameHeader_is_keyframe h then [h] else log @ [h], fed @ [h])"
  using gate_on_frame_cases[of h g t]
proof cases
  case admitted
  then have g': "g' = (if FrameHeader_is_keyframe h then on_idr (fh_frame_seq h) t (note_stream h g)
      else on_predicted h (note_stream h g))" using assms(2) by simp
  show ?thesis
  proof (cases "FrameHeader_is_keyframe h")
    case True
    then show ?thesis
      using g' assms(1) on_idr_frame[of "fh_frame_seq h" t "note_stream h g"]
      by (simp add: GOOD_CAP_def lastn_single log_newest_ref_def is_reference_def dpb_lt_def dpb_mark_def)
  next
    case False
    have "hg_good (note_stream h g) = lastn GOOD_CAP (map fh_frame_seq log)" using assms(1) by simp
    note F = on_predicted_frame[OF False this]
    show ?thesis using False g' assms(1) F by (simp add: log_newest_ref_snoc dpb_lt_snoc)
  qed
next
  case (refused c)
  then show ?thesis using assms(2) gate_refuse_frame(1) by (metis Verdict.distinct(1))
qed (use assms(2) in simp)

lemma gate_inv_step: "gate_step s s' \<Longrightarrow> gate_inv s \<Longrightarrow> gate_inv s'"
proof (induction rule: gate_step.induct)
  case (fed h t g rd g' log fed)
  then show ?case using gate_inv_feed by blast
next
  case (refused h t g c g' log fed)
  note R = refused
  show ?case
    using gate_on_frame_cases[of h g t]
  proof cases
    case (refused c')
    then show ?thesis
      using R gate_refuse_frame[of c' "fh_frame_seq h" t "note_stream h g" "Refuse c" g'] by auto
  qed (use R in auto)
next
  case (reset c g log fed seq t)
  then show ?case by (auto simp: log_newest_ref_def dpb_lt_def)
qed (simp add: take_request_def)

interpretation gate_sys: step_system gate_step gate_inv
  by unfold_locales (rule gate_inv_step)

lemma gate_inv_new: "gate_inv (H264Gate_new, [], [])"
  by (simp add: H264Gate_new_def log_newest_ref_def dpb_lt_def)

section \<open>Reset requests are paced\<close>

datatype gate_op = OnFrame FrameHeader | ResetGate ResetCause u32

fun gate_apply :: "gate_op \<Rightarrow> nat \<Rightarrow> H264Gate \<Rightarrow> H264Gate" where
  "gate_apply (OnFrame h) t g = snd (gate_on_frame h t g)"
| "gate_apply (ResetGate c seq) t g = gate_reset c seq t g"

text \<open>The requests a caller that drains the gate after each call sends, with their times.\<close>

fun gate_requests :: "H264Gate \<Rightarrow> (gate_op \<times> nat) list \<Rightarrow> (ResetReason \<times> nat) list" where
  "gate_requests g [] = []"
| "gate_requests g ((op, t) # ops) =
     (let (req, g') = take_request (gate_apply op t g)
      in (case req of Some (r, _) \<Rightarrow> [(r, t)] | None \<Rightarrow> []) @ gate_requests g' ops)"

definition paced :: "ResetReason \<times> nat \<Rightarrow> ResetReason \<times> nat \<Rightarrow> bool" where
  "paced e f \<longleftrightarrow>
     (case (fst e, fst f) of
        (NoDecoder, r) \<Rightarrow> r = DecoderFailure
      | (DecoderFailure, DecoderFailure) \<Rightarrow> snd e + RESET_REQUEST_MIN_INTERVAL_US \<le> snd f
      | (DecoderFailure, GateReset) \<Rightarrow> snd e + RESET_REQUEST_MIN_INTERVAL_US \<le> snd f
      | (GateReset, GateReset) \<Rightarrow> snd e + RESET_REQUEST_MIN_INTERVAL_US \<le> snd f
      | _ \<Rightarrow> True)"

text \<open>What the gate remembers of the requests sent.\<close>

definition pace_inv :: "nat \<Rightarrow> (ResetReason \<times> nat) list \<Rightarrow> H264Gate \<Rightarrow> bool" where
  "pace_inv now ems g \<longleftrightarrow> hg_request g = None \<and>
     (\<forall>u. hg_last_failure_request_us g = Some u \<longrightarrow> u \<le> now) \<and> (\<forall>u. hg_last_request_us g = Some u \<longrightarrow> u \<le> now) \<and>
     (\<forall>e \<in> set ems. snd e \<le> now) \<and>
     (\<forall>t. (DecoderFailure, t) \<in> set ems \<longrightarrow> (\<exists>u. hg_last_failure_request_us g = Some u \<and> t \<le> u)) \<and>
     (\<forall>t. (GateReset, t) \<in> set ems \<longrightarrow> (\<exists>u. hg_last_request_us g = Some u \<and> t \<le> u)) \<and>
     (\<forall>t. (NoDecoder, t) \<in> set ems \<longrightarrow> hg_no_decoder g)"

definition emitted :: "nat \<Rightarrow> (ResetReason \<times> u32) option \<Rightarrow> (ResetReason \<times> nat) list" where
  "emitted t req = (case req of Some (r, _) \<Rightarrow> [(r, t)] | None \<Rightarrow> [])"

lemma due_after: "request_due t (Some u) \<Longrightarrow> s \<le> u \<Longrightarrow> u \<le> t \<Longrightarrow> s + RESET_REQUEST_MIN_INTERVAL_US \<le> t"
  by (simp add: request_due_def)

text \<open>One request at most, and only when it is due.\<close>

definition pace_step :: "nat \<Rightarrow> H264Gate \<Rightarrow> H264Gate \<Rightarrow> bool" where
  "pace_step t g g' \<longleftrightarrow>
     (hg_request g' = None \<and> hg_last_request_us g' = hg_last_request_us g \<and>
        hg_last_failure_request_us g' = hg_last_failure_request_us g \<and> (hg_no_decoder g \<longrightarrow> hg_no_decoder g')) \<or>
     (\<exists>s. hg_request g' = Some (DecoderFailure, s) \<and> request_due t (hg_last_failure_request_us g) \<and>
        hg_last_failure_request_us g' = Some t \<and> hg_last_request_us g' = hg_last_request_us g \<and>
        hg_no_decoder g' = hg_no_decoder g) \<or>
     (\<exists>s. hg_request g' = Some (GateReset, s) \<and> request_due t (hg_last_failure_request_us g) \<and>
        request_due t (hg_last_request_us g) \<and> \<not> hg_no_decoder g \<and> \<not> hg_no_decoder g' \<and>
        hg_last_request_us g' = Some t \<and> hg_last_failure_request_us g' = hg_last_failure_request_us g) \<or>
     (\<exists>s. hg_request g' = Some (NoDecoder, s) \<and> \<not> hg_no_decoder g \<and> hg_no_decoder g' \<and>
        hg_last_request_us g' = Some t \<and> hg_last_failure_request_us g' = hg_last_failure_request_us g)"

lemma on_idr_pace [simp]:
  "hg_request (on_idr seq t g) = hg_request g" "hg_last_request_us (on_idr seq t g) = hg_last_request_us g"
  "hg_last_failure_request_us (on_idr seq t g) = hg_last_failure_request_us g"
  "hg_no_decoder (on_idr seq t g) = hg_no_decoder g"
  by (simp_all add: on_idr_def note_fed_def gate_reset_def Let_def)

lemma on_predicted_pace [simp]:
  "hg_request (on_predicted h g) = hg_request g" "hg_last_request_us (on_predicted h g) = hg_last_request_us g"
  "hg_last_failure_request_us (on_predicted h g) = hg_last_failure_request_us g"
  "hg_no_decoder (on_predicted h g) = hg_no_decoder g"
  by (simp_all add: on_predicted_def note_fed_def Let_def)

lemma pace_step_refuse: "hg_request g = None \<Longrightarrow> pace_step t g (snd (gate_refuse c seq t g))"
  unfolding gate_refuse_def Let_def paced_request_def pace_step_def by simp

lemma pace_step_reset: "hg_request g = None \<Longrightarrow> pace_step t g (gate_reset c seq t g)"
  by (cases c) (simp_all add: gate_reset_def Let_def paced_request_def pace_step_def)

lemma pace_step_apply: "hg_request g = None \<Longrightarrow> pace_step t g (gate_apply op t g)"
proof (cases op)
  case (OnFrame h)
  assume none: "hg_request g = None"
  have "pace_step t g (snd (gate_on_frame h t g))"
    using gate_on_frame_cases[of h g t]
  proof cases
    case (refused c)
    have "pace_step t (note_stream h g) (snd (gate_refuse c (fh_frame_seq h) t (note_stream h g)))"
      using none by (intro pace_step_refuse) simp
    then show ?thesis using refused by (simp add: pace_step_def)
  qed (use none in \<open>auto simp: pace_step_def\<close>)
  then show ?thesis using OnFrame by simp
qed (simp add: pace_step_reset)

lemma pace_inv_step:
  assumes inv: "pace_inv now ems g" and t: "now \<le> t" and step: "pace_step t g g'"
  shows "pace_inv t (ems @ emitted t (hg_request g')) (g'\<lparr> hg_request := None \<rparr>)"
    "e \<in> set ems \<Longrightarrow> f \<in> set (emitted t (hg_request g')) \<Longrightarrow> paced e f"
proof -
  have le: "\<And>u. hg_last_failure_request_us g = Some u \<Longrightarrow> u \<le> t" "\<And>u. hg_last_request_us g = Some u \<Longrightarrow> u \<le> t"
    "\<And>e. e \<in> set ems \<Longrightarrow> snd e \<le> t"
    using inv t unfolding pace_inv_def by (auto intro: order_trans)
  have D: "\<And>s. (DecoderFailure, s) \<in> set ems \<Longrightarrow> \<exists>u. hg_last_failure_request_us g = Some u \<and> s \<le> u"
    and G: "\<And>s. (GateReset, s) \<in> set ems \<Longrightarrow> \<exists>u. hg_last_request_us g = Some u \<and> s \<le> u"
    and N: "\<And>s. (NoDecoder, s) \<in> set ems \<Longrightarrow> hg_no_decoder g"
    using inv unfolding pace_inv_def by auto
  have D': "s + RESET_REQUEST_MIN_INTERVAL_US \<le> t"
    if "(DecoderFailure, s) \<in> set ems" "request_due t (hg_last_failure_request_us g)" for s
    using D[OF that(1)] that(2) le(1) due_after by metis
  have G': "s + RESET_REQUEST_MIN_INTERVAL_US \<le> t"
    if "(GateReset, s) \<in> set ems" "request_due t (hg_last_request_us g)" for s
    using G[OF that(1)] that(2) le(2) due_after by metis
  note cases = step[unfolded pace_step_def]
  have eq: "snd e \<le> t \<and> (fst e, snd e) \<in> set ems" if "e \<in> set ems" for e using that le(3) by simp
  from cases show "pace_inv t (ems @ emitted t (hg_request g')) (g'\<lparr> hg_request := None \<rparr>)"
    unfolding pace_inv_def emitted_def
    by (elim disjE exE conjE) (use D G N le in \<open>fastforce\<close>)+
  from cases show "e \<in> set ems \<Longrightarrow> f \<in> set (emitted t (hg_request g')) \<Longrightarrow> paced e f"
    unfolding emitted_def
    by (elim disjE exE conjE; cases e; cases "fst e") (use D' G' N in \<open>auto simp: paced_def\<close>)
qed

lemma gate_requests_paced:
  assumes "pace_inv now ems g" "sorted (map snd ops)" "\<And>p. p \<in> set ops \<Longrightarrow> now \<le> snd p" "sorted_wrt paced ems"
  shows "sorted_wrt paced (ems @ gate_requests g ops)"
  using assms
proof (induction ops arbitrary: now ems g)
  case (Cons p ops)
  obtain op t where p: "p = (op, t)" by (cases p)
  let ?g = "gate_apply op t g"
  have step: "pace_step t g ?g" using Cons.prems(1) by (intro pace_step_apply) (simp add: pace_inv_def)
  have t: "now \<le> t" using Cons.prems(3)[of p] p by simp
  note S = pace_inv_step[OF Cons.prems(1) t step]
  have "sorted_wrt paced (emitted t (hg_request ?g))" by (simp add: emitted_def split: option.split)
  then have "sorted_wrt paced (ems @ emitted t (hg_request ?g))"
    using Cons.prems(4) S(2) by (simp add: sorted_wrt_append)
  from Cons.IH[OF S(1) _ _ this] have "sorted_wrt paced ((ems @ emitted t (hg_request ?g)) @
      gate_requests (?g\<lparr> hg_request := None \<rparr>) ops)"
    using Cons.prems(2) p by simp
  then show ?case by (simp add: p take_request_def emitted_def)
qed simp

section \<open>The frame-ack window as a set of outcomes\<close>

text \<open>The 31-bit sequence number \<open>n\<close> frames after a base.\<close>

definition seq_at :: "u32 \<Rightarrow> nat \<Rightarrow> u32" where
  "seq_at b n = (b + of_nat n) AND SEQ_MASK"

lemma mask_take_bit: "x AND SEQ_MASK = take_bit 31 x"
  by (simp add: SEQ_MASK_def take_bit_eq_mask mask_eq_exp_minus_1)

lemma take_bit_diff_word:
  "k \<le> LENGTH('a) \<Longrightarrow> take_bit k (take_bit k x - take_bit k y) = take_bit k (x - y :: 'a::len word)"
proof -
  assume "k \<le> LENGTH('a)"
  then have "uint (take_bit k (take_bit k x - take_bit k y)) = uint (take_bit k (x - y))"
    by (simp add: unsigned_take_bit_eq uint_word_arith_bintrs take_bit_diff min_def)
  then show ?thesis by (simp only: word_uint_eq_iff)
qed

lemma take_bit_add_word:
  "k \<le> LENGTH('a) \<Longrightarrow> take_bit k (take_bit k x + take_bit k y) = take_bit k (x + y :: 'a::len word)"
proof -
  assume "k \<le> LENGTH('a)"
  then have "uint (take_bit k (take_bit k x + take_bit k y)) = uint (take_bit k (x + y))"
    by (simp add: unsigned_take_bit_eq uint_word_arith_bintrs take_bit_add min_def)
  then show ?thesis by (simp only: word_uint_eq_iff)
qed

lemma seq_at_diff: "(seq_at b m - seq_at b n) AND SEQ_MASK = take_bit 31 (of_nat m - of_nat n)"
  unfolding seq_at_def mask_take_bit by (simp add: take_bit_diff_word)

lemma unat_of_nat_u32: "n < 2 ^ 32 \<Longrightarrow> unat (of_nat n :: u32) = n"
  by (simp add: unat_of_nat)

lemma seq_at_fwd: "n \<le> m \<Longrightarrow> m < 2 ^ 30 \<Longrightarrow> (seq_at b m - seq_at b n) AND SEQ_MASK = of_nat (m - n)"
proof -
  assume a: "n \<le> m" "m < 2 ^ 30"
  have "unat (of_nat (m - n) :: u32) = m - n" by (rule unat_of_nat_u32) (use a in simp)
  then have "unat (take_bit 31 (of_nat (m - n) :: u32)) = unat (of_nat (m - n) :: u32)"
    using a by (simp add: unsigned_take_bit_eq take_bit_nat_eq_self)
  then have "take_bit 31 (of_nat (m - n) :: u32) = of_nat (m - n)" by (metis word_unat_eq_iff)
  then show ?thesis using a by (simp add: seq_at_diff)
qed

lemma seq_at_back: "m < n \<Longrightarrow> n < 2 ^ 30 \<Longrightarrow> \<not> (seq_at b m - seq_at b n) AND SEQ_MASK < 0x40000000"
proof
  assume a: "m < n" "n < 2 ^ 30"
  define d where "d = n - m"
  have d: "0 < d" "d < 2 ^ 30" "of_nat n = of_nat m + (of_nat d :: u32)"
    using a by (simp_all add: d_def flip: of_nat_add)
  let ?f = "(seq_at b m - seq_at b n) AND SEQ_MASK"
  assume lt: "?f < 0x40000000"
  have x: "unat (of_nat d :: u32) = d" using d(2) by (intro unat_of_nat_u32) simp
  have f: "?f = take_bit 31 (- of_nat d)" unfolding seq_at_diff d(3) by simp
  have "take_bit 31 (?f + of_nat d) = take_bit 31 (take_bit 31 ?f + take_bit 31 (of_nat d))" by (subst take_bit_add_word) simp_all
  also have "\<dots> = take_bit 31 (take_bit 31 (- of_nat d) + take_bit 31 (of_nat d :: u32))"
    by (simp only: f take_bit_take_bit min.idem)
  also have "\<dots> = 0" by (simp add: take_bit_add_word)
  finally have "take_bit 31 (unat (?f + of_nat d)) = 0" by (metis unsigned_take_bit_eq unsigned_0)
  moreover have lt': "unat ?f < 2 ^ 30" using lt by (simp add: word_less_nat_alt)
  moreover have "unat (?f + of_nat d) = unat ?f + d"
    using lt' d(2) x unat_add_lem[of ?f "of_nat d"] by simp
  ultimately show False using d(1,2) by (simp add: take_bit_eq_mod)
qed

text \<open>The outcome of frame \<open>n\<close> after a history of records: a decode outranks a refusal.\<close>

definition was_decoded :: "(nat \<times> bool) list \<Rightarrow> nat \<Rightarrow> bool" where
  "was_decoded recs n \<longleftrightarrow> (n, True) \<in> set recs"

definition was_refused :: "(nat \<times> bool) list \<Rightarrow> nat \<Rightarrow> bool" where
  "was_refused recs n \<longleftrightarrow> (n, False) \<in> set recs \<and> (n, True) \<notin> set recs"

definition fw_bits :: "u32 \<Rightarrow> (nat \<times> bool) list \<Rightarrow> nat \<Rightarrow> FrameAckWindow \<Rightarrow> bool" where
  "fw_bits b recs N w \<longleftrightarrow> fw_newest w = Some (seq_at b N) \<and> N < 2 ^ 30 \<and> (\<forall>r \<in> set recs. fst r \<le> N) \<and>
     (\<forall>k < 64. bit (fw_decoded w) k \<longleftrightarrow> k \<le> N \<and> was_decoded recs (N - k)) \<and>
     (\<forall>k < 64. bit (fw_refused w) k \<longleftrightarrow> k \<le> N \<and> was_refused recs (N - k))"

definition fw_inv :: "u32 \<Rightarrow> (nat \<times> bool) list \<Rightarrow> FrameAckWindow \<Rightarrow> bool" where
  "fw_inv b recs w \<longleftrightarrow>
     (if recs = [] then fw_newest w = None else \<exists>N \<in> fst ` set recs. fw_bits b recs N w)"

lemma fw_set_bits:
  assumes "k < 64" "\<not> (bit (fw_decoded w) k \<and> bit (fw_refused w) k)"
  shows "bit (fw_decoded (fw_set k d w)) j \<longleftrightarrow> bit (fw_decoded w) j \<or> (j = k \<and> d)"
    "bit (fw_refused (fw_set k d w)) j \<longleftrightarrow> (if j = k then \<not> d \<and> \<not> bit (fw_decoded w) k else bit (fw_refused w) j)"
    "fw_newest (fw_set k d w) = fw_newest w"
proof -
  have m: "bit (push_bit k 1 :: u64) j \<longleftrightarrow> j = k" for j
    using assms(1) by (auto simp: bit_simps)
  have t: "fw_decoded w AND push_bit k 1 \<noteq> 0 \<longleftrightarrow> bit (fw_decoded w) k"
    using assms(1) by (simp add: and_exp_eq_0_iff_not_bit)
  have lt: "bit (x :: u64) j \<Longrightarrow> j < 64" for x using bit_imp_le_length[of x j] by simp
  show "bit (fw_decoded (fw_set k d w)) j \<longleftrightarrow> bit (fw_decoded w) j \<or> (j = k \<and> d)"
    using assms t by (auto simp: fw_set_def Let_def bit_simps m dest: lt)
  show "bit (fw_refused (fw_set k d w)) j \<longleftrightarrow>
      (if j = k then \<not> d \<and> \<not> bit (fw_decoded w) k else bit (fw_refused w) j)"
    using assms t by (auto simp: fw_set_def Let_def bit_simps m dest: lt)
  show "fw_newest (fw_set k d w) = fw_newest w" by (simp add: fw_set_def Let_def)
qed

lemma fw_touch_frame [simp]:
  "fw_newest (fw_touch t w) = fw_newest w" "fw_decoded (fw_touch t w) = fw_decoded w"
  "fw_refused (fw_touch t w) = fw_refused w"
  by (simp_all add: fw_touch_def)

lemma of_nat_u32_0: "k < 2 ^ 32 \<Longrightarrow> (of_nat k :: u32) = 0 \<longleftrightarrow> k = 0"
  using unat_of_nat_u32[of k] by auto

lemma of_nat_u32_less: "k < 2 ^ 32 \<Longrightarrow> (of_nat k :: u32) < w \<longleftrightarrow> k < unat w"
  using unat_of_nat_u32[of k] by (simp add: word_less_nat_alt)

lemma seq_at_facts:
  assumes "n \<le> m" "m < 2 ^ 30"
  shows "(seq_at b m - seq_at b n) AND SEQ_MASK = 0 \<longleftrightarrow> m = n" "(seq_at b m - seq_at b n) AND SEQ_MASK < 0x40000000"
    "unat ((seq_at b m - seq_at b n) AND SEQ_MASK) = m - n" "(seq_at b m - seq_at b n) AND SEQ_MASK < 64 \<longleftrightarrow> m - n < 64"
proof -
  have lt: "m - n < 2 ^ 30" "m - n < 2 ^ 32" using assms(2) by simp_all
  show "(seq_at b m - seq_at b n) AND SEQ_MASK = 0 \<longleftrightarrow> m = n"
    unfolding seq_at_fwd[OF assms] of_nat_u32_0[OF lt(2)] using assms(1) by linarith
  show "(seq_at b m - seq_at b n) AND SEQ_MASK < 0x40000000"
    unfolding seq_at_fwd[OF assms] of_nat_u32_less[OF lt(2)] using lt(1) by simp
  show "unat ((seq_at b m - seq_at b n) AND SEQ_MASK) = m - n"
    unfolding seq_at_fwd[OF assms] by (rule unat_of_nat_u32[OF lt(2)])
  show "(seq_at b m - seq_at b n) AND SEQ_MASK < 64 \<longleftrightarrow> m - n < 64"
    unfolding seq_at_fwd[OF assms] of_nat_u32_less[OF lt(2)] by simp
qed

text \<open>One record, in the three places a frame can fall.\<close>

lemma fw_record_same:
  assumes "fw_newest w = Some (seq_at b N)"
  shows "FrameAckWindow_record (seq_at b N) d t w = fw_touch t (fw_set 0 d w)"
  using assms by (simp add: FrameAckWindow_record_def Let_def)

lemma fw_record_newer:
  assumes "fw_newest w = Some (seq_at b N)" "N < n" "n < 2 ^ 30"
  shows "FrameAckWindow_record (seq_at b n) d t w = fw_touch t (fw_set 0 d (w\<lparr>
     fw_decoded := if n - N < 64 then push_bit (n - N) (fw_decoded w) else 0,
     fw_refused := if n - N < 64 then push_bit (n - N) (fw_refused w) else 0, fw_newest := Some (seq_at b n) \<rparr>))"
  using assms seq_at_facts[OF less_imp_le[OF assms(2)] assms(3), of b]
  by (auto simp: FrameAckWindow_record_def Let_def not_less)

lemma fw_record_older:
  assumes "fw_newest w = Some (seq_at b N)" "n < N" "N < 2 ^ 30"
  shows "FrameAckWindow_record (seq_at b n) d t w = (if N - n < 64 then fw_touch t (fw_set (N - n) d w) else w)"
proof -
  have "(seq_at b n - seq_at b N) AND SEQ_MASK \<noteq> 0" using seq_at_back[OF assms(2,3), of b] by auto
  then show ?thesis
    using assms(1) seq_at_back[OF assms(2,3), of b] seq_at_facts[OF less_imp_le[OF assms(2)] assms(3), of b]
    by (simp add: FrameAckWindow_record_def Let_def not_less[symmetric])
qed

lemma was_snoc:
  "was_decoded (recs @ [(n, d)]) m \<longleftrightarrow> was_decoded recs m \<or> (m = n \<and> d)"
  "was_refused (recs @ [(n, d)]) m \<longleftrightarrow> (if m = n then \<not> d \<and> \<not> was_decoded recs n else was_refused recs m)"
  by (auto simp: was_decoded_def was_refused_def)

lemma fw_bits_set:
  assumes w: "fw_bits b recs N w" and n: "n \<le> N" "N - n < 64"
  shows "fw_bits b (recs @ [(n, d)]) N (fw_touch t (fw_set (N - n) d w))"
proof -
  have dec: "bit (fw_decoded w) k \<longleftrightarrow> k \<le> N \<and> was_decoded recs (N - k)"
    and ref: "bit (fw_refused w) k \<longleftrightarrow> k \<le> N \<and> was_refused recs (N - k)" if "k < 64" for k
    using w that by (auto simp: fw_bits_def)
  have "\<not> (bit (fw_decoded w) (N - n) \<and> bit (fw_refused w) (N - n))"
    using dec[OF n(2)] ref[OF n(2)] by (auto simp: was_decoded_def was_refused_def)
  note B = fw_set_bits[OF n(2) this, of d]
  have at: "k \<le> N \<and> N - k = n \<longleftrightarrow> k = N - n" for k using n(1) by auto
  have "bit (fw_decoded (fw_set (N - n) d w)) k \<longleftrightarrow> k \<le> N \<and> was_decoded (recs @ [(n, d)]) (N - k)"
    "bit (fw_refused (fw_set (N - n) d w)) k \<longleftrightarrow> k \<le> N \<and> was_refused (recs @ [(n, d)]) (N - k)"
    if "k < 64" for k
    using B(1)[of k] B(2)[of k] dec[OF that] ref[OF that] dec[OF n(2)] at[of k] n(1) by (auto simp: was_snoc)
  then show ?thesis using w n B(3) by (simp add: fw_bits_def)
qed

lemma fw_bits_slide:
  assumes w: "fw_bits b recs N w" and n: "N < n" "n < 2 ^ 30"
  shows "fw_bits b recs n (w\<lparr>
     fw_decoded := if n - N < 64 then push_bit (n - N) (fw_decoded w) else 0,
     fw_refused := if n - N < 64 then push_bit (n - N) (fw_refused w) else 0, fw_newest := Some (seq_at b n) \<rparr>)"
proof -
  have le: "fst r \<le> N" if "r \<in> set recs" for r using w that by (auto simp: fw_bits_def)
  have none: "\<not> was_decoded recs m" "\<not> was_refused recs m" if "N < m" for m
    using le that by (force simp: was_decoded_def was_refused_def)+
  have bits: "bit (push_bit (n - N) x) k \<longleftrightarrow> n - N \<le> k \<and> bit x (k - (n - N))" if "k < 64" for k and x :: u64
    using that by (auto simp: bit_simps)
  have slide: "bit (if n - N < 64 then push_bit (n - N) x else 0) k \<longleftrightarrow> k \<le> n \<and> P (n - k)"
    if x: "\<forall>k < 64. bit x k \<longleftrightarrow> k \<le> N \<and> P (N - k)" and k: "k < 64" and P: "\<And>m. N < m \<Longrightarrow> \<not> P m"
    for x :: u64 and P k
  proof (cases "n - N \<le> k")
    case True
    then have "N - (k - (n - N)) = n - k" "k - (n - N) \<le> N \<longleftrightarrow> k \<le> n" "k - (n - N) < 64" "n - N < 64"
      using n(1) k by auto
    then show ?thesis using True bits[OF k] x by simp
  next
    case False
    then have "k \<le> n" "N < n - k" using n(1) by auto
    then show ?thesis using False bits[OF k] P[of "n - k"] by simp
  qed
  show ?thesis
    using w n le slide[of _ "was_decoded recs"] slide[of _ "was_refused recs"] none
    by (simp add: fw_bits_def) (meson le_trans less_imp_le_nat)
qed

lemma fw_inv_record:
  assumes inv: "fw_inv b recs w" and n: "n < 2 ^ 30"
  shows "fw_inv b (recs @ [(n, d)]) (FrameAckWindow_record (seq_at b n) d t w)"
proof (cases "recs = []")
  case True
  let ?w = "w\<lparr> fw_newest := Some (seq_at b n), fw_decoded := 0, fw_refused := 0 \<rparr>"
  have "fw_bits b [] n ?w" using n by (simp add: fw_bits_def was_decoded_def was_refused_def)
  from fw_bits_set[OF this, of n d t] show ?thesis
    using True inv by (simp add: fw_inv_def FrameAckWindow_record_def)
next
  case False
  then obtain N where N: "N \<in> fst ` set recs" "fw_bits b recs N w" using inv by (auto simp: fw_inv_def)
  then have new: "fw_newest w = Some (seq_at b N)" "N < 2 ^ 30" by (auto simp: fw_bits_def)
  consider "n = N" | "N < n" | "n < N" "N - n < 64" | "n < N" "\<not> N - n < 64" by linarith
  then show ?thesis
  proof cases
    case 1
    then show ?thesis using fw_bits_set[OF N(2), of n d t] fw_record_same[OF new(1)] by (auto simp: fw_inv_def)
  next
    case 2
    from fw_bits_set[OF fw_bits_slide[OF N(2) 2 n], of n d t] show ?thesis
      using fw_record_newer[OF new(1) 2 n] by (auto simp: fw_inv_def)
  next
    case 3
    then show ?thesis
      using fw_bits_set[OF N(2), of n d t] fw_record_older[OF new(1) _ new(2), of n d t] N(1) by (auto simp: fw_inv_def)
  next
    case 4
    then have "fw_bits b (recs @ [(n, d)]) N w" using N(2) by (auto simp: fw_bits_def was_snoc)
    then show ?thesis using fw_record_older[OF new(1) 4(1) new(2)] 4 N(1) by (auto simp: fw_inv_def)
  qed
qed

lemma fw_inv_run:
  assumes "fw_inv b recs w" "\<And>r. r \<in> set rs \<Longrightarrow> fst r < 2 ^ 30"
  shows "fw_inv b (recs @ map (\<lambda>(n, d, t). (n, d)) rs)
    (foldl (\<lambda>w (n, d, t). FrameAckWindow_record (seq_at b n) d t w) w rs)"
  using assms
proof (induction rs arbitrary: recs w)
  case (Cons r rs)
  obtain n d t where r: "r = (n, d, t)" by (cases r)
  have "n < 2 ^ 30" using Cons.prems(2)[of r] r by simp
  from Cons.IH[OF fw_inv_record[OF Cons.prems(1) this, of d t]] show ?case using Cons.prems(2) r by simp
qed simp

section \<open>Properties\<close>

text \<open>
  C17. The gate feeds exactly the decodable frames.  In every state the gate can reach, a frame is fed iff it is
  newer than the last frame fed and is an IDR or names, with legal slots, a reference that a decoder given the
  frames since the last reset holds.  The decoder is told to reset exactly with an IDR, and after a reset of a
  running stream the next frame fed is an IDR.
\<close>

theorem gate_feeds_exactly_decodable:
  assumes "gate_step\<^sup>*\<^sup>* (H264Gate_new, [], []) (g, log, fed)"
  shows "((\<exists>rd. fst (gate_on_frame h t g) = Feed rd) \<longleftrightarrow>
      (fed \<noteq> [] \<longrightarrow> seq_after (fh_frame_seq h) (fh_frame_seq (last fed))) \<and>
      (FrameHeader_is_keyframe h \<or> well_marked h \<and> reference_held log (hg_waiting_for_idr g) h)) \<and>
    (\<forall>rd. fst (gate_on_frame h t g) = Feed rd \<longrightarrow>
      rd = FrameHeader_is_keyframe h \<and> (log = [] \<and> fed \<noteq> [] \<longrightarrow> FrameHeader_is_keyframe h))"
    (is "?iff \<and> (\<forall>rd. ?feed rd \<longrightarrow> ?reset rd)")
proof -
  have inv: "gate_inv (g, log, fed)" by (rule gate_sys.inv_run[OF assms gate_inv_new])
  then have holds: "(has_flag h FRAME_FLAG_TARGET_IS_LT \<longrightarrow> target_slot_of h < LT_SLOTS) \<and> gate_holds h g \<longleftrightarrow>
      reference_held log (hg_waiting_for_idr g) h"
    by (auto simp: gate_holds_def reference_held_def)
  have fresh: "(\<forall>l. hg_last_fed g = Some l \<longrightarrow> seq_after (fh_frame_seq h) l) \<longleftrightarrow>
      (fed \<noteq> [] \<longrightarrow> seq_after (fh_frame_seq h) (fh_frame_seq (last fed)))" using inv by auto
  have feeds: "(\<exists>rd. fst (gate_on_frame h t g) = Feed rd) \<longleftrightarrow> gate_admits h g"
    using gate_on_frame_cases[of h g t] by cases (auto simp: gate_refuse_def)
  then have ?iff unfolding gate_admits_def fresh holds[symmetric] by blast
  moreover have "?reset rd" if f: "?feed rd" for rd
  proof -
    have adm: "gate_admits h g" using f feeds by blast
    have empty: "\<not> reference_held [] w h" if "w" for w
      using that less_2_cases[of "target_slot_of h"]
      by (auto simp: reference_held_def log_newest_ref_def dpb_lt_def LT_SLOTS_def)
    have idr: "FrameHeader_is_keyframe h" if "log = []" "hg_waiting_for_idr g"
      using adm empty[OF that(2)] that(1) holds by (auto simp: gate_admits_def)
    have rd: "rd \<longleftrightarrow> FrameHeader_is_keyframe h \<or> hg_decoder_reset_pending g"
      using gate_on_frame_cases[of h g t] by cases (use f adm in \<open>auto\<close>)
    show ?thesis using idr rd inv by auto
  qed
  ultimately show ?thesis by blast
qed

definition demo_frame :: "u32 \<Rightarrow> u8 \<Rightarrow> u32 \<Rightarrow> FrameHeader" where
  "demo_frame seq flags r = \<lparr> fh_frame_seq = seq, fh_frag_idx = 0, fh_frag_total = 1, fh_wire_seq = 0,
     fh_timestamp_us = 0, fh_flags = flags, fh_slots = 0, fh_ref_frame_seq = r \<rparr>"

theorem gate_feeds_exactly_decodable_witness:
  "\<exists>g. gate_step\<^sup>*\<^sup>* (H264Gate_new, [], []) (g, [demo_frame 5 1 REF_FRAME_NONE], [demo_frame 5 1 REF_FRAME_NONE]) \<and>
     (\<exists>rd. fst (gate_on_frame (demo_frame 6 0 5) 9 g) = Feed rd)"
proof -
  let ?h = "demo_frame 5 1 REF_FRAME_NONE" and ?p = "demo_frame 6 0 5"
  let ?g = "snd (gate_on_frame ?h 7 H264Gate_new)"
  have key: "FrameHeader_is_keyframe ?h" "\<not> FrameHeader_is_keyframe ?p"
    by (simp_all add: FrameHeader_is_keyframe_def demo_frame_def FRAME_FLAG_IDR_def)
  have "gate_on_frame ?h 7 H264Gate_new = (Feed True, ?g)"
    using key(1) by (simp add: gate_on_frame_eq Let_def H264Gate_new_def)
  from gate_step.fed[OF this, of "[]" "[]"] have run: "gate_step\<^sup>*\<^sup>* (H264Gate_new, [], []) (?g, [?h], [?h])"
    using key(1) by (intro r_into_rtranclp) simp
  have "reference_held [?h] w ?p" "well_marked ?p" "seq_after 6 5" for w
    using key(1) by (simp_all add: reference_held_def well_marked_def marks_self_def marks_target_def has_flag_def
        log_newest_ref_def is_reference_def lastn_def GOOD_CAP_def demo_frame_def REF_FRAME_NONE_def seq_after_def)
  then have "\<exists>rd. fst (gate_on_frame ?p 9 ?g) = Feed rd"
    using gate_feeds_exactly_decodable[OF run, of ?p 9] by (simp add: demo_frame_def)
  with run show ?thesis by blast
qed

text \<open>
  C18. Reset requests are paced.  Over any calls in clock order, two requests for the same reason are at least
  2.2 seconds apart, a gate reset also waits out a decoder failure, and once the client has said it has no decoder
  it never says so again and asks for no gate reset.
\<close>

theorem reset_requests_paced:
  assumes "sorted (map snd ops)"
  shows "sorted_wrt paced (gate_requests H264Gate_new ops)"
proof -
  have "pace_inv 0 [] H264Gate_new" by (simp add: pace_inv_def H264Gate_new_def)
  from gate_requests_paced[OF this assms] show ?thesis by simp
qed

theorem reset_requests_paced_witness:
  "sorted_wrt paced (gate_requests H264Gate_new [(ResetGate RC_DecoderFailure 3, 5), (ResetGate RC_NoDecoder 4, 9)])"
  using reset_requests_paced[of "[(ResetGate RC_DecoderFailure 3, 5), (ResetGate RC_NoDecoder 4, 9)]"] by simp

text \<open>
  C19. Frame acks report what happened.  After any outcomes, in any order, of frames within half the sequence
  space, the ack that the window gives reports exactly the 64 newest frames: decoded if the frame was ever
  reported decoded, refused if it was only ever refused, silent otherwise.
\<close>

theorem frame_ack_reports:
  fixes b :: u32
  assumes "recs \<noteq> []" "\<And>r. r \<in> set recs \<Longrightarrow> fst r < 2 ^ 30"
  defines "N \<equiv> Max (fst ` set recs)"
    and "w \<equiv> foldl (\<lambda>w (n, d, t). FrameAckWindow_record (seq_at b n) d t w) FrameAckWindow_new recs"
  shows "\<exists>ack w'. fw_take now w = (Some ack, w') \<and>
    (\<forall>n < 2 ^ 30.
      (FrameAck_is_decoded ack (seq_at b n) \<longleftrightarrow> n \<le> N \<and> N < n + 64 \<and> (\<exists>t. (n, True, t) \<in> set recs)) \<and>
      (FrameAck_is_refused ack (seq_at b n) \<longleftrightarrow> n \<le> N \<and> N < n + 64 \<and> (\<exists>t. (n, False, t) \<in> set recs) \<and>
         (\<nexists>t. (n, True, t) \<in> set recs)))"
proof -
  let ?recs = "map (\<lambda>(n, d, t). (n, d)) recs"
  have "fw_inv b [] FrameAckWindow_new" by (simp add: fw_inv_def FrameAckWindow_new_def)
  from fw_inv_run[OF this assms(2)] have "fw_inv b ?recs w" by (simp add: w_def)
  then obtain M where M: "M \<in> fst ` set ?recs" "fw_bits b ?recs M w"
    using assms(1) unfolding fw_inv_def by (metis list.map_disc_iff)
  have fsts: "fst ` set ?recs = fst ` set recs" by force
  have "M = N" unfolding N_def
    by (rule Max_eqI[symmetric]) (use M in \<open>auto simp: fw_bits_def fsts image_iff Ball_def split_beta\<close>)
  note B = M(2)[unfolded this fw_bits_def]
  let ?ack = "\<lparr> fa_newest_seq = seq_at b N, fa_decoded_mask = fw_decoded w, fa_refused_mask = fw_refused w \<rparr>"
  have "\<exists>w'. fw_take now w = (Some ?ack, w')" using B by (simp add: fw_take_def)
  moreover have bits: "FrameAck_bit ?ack m (seq_at b n) \<longleftrightarrow> n \<le> N \<and> N < n + 64 \<and> bit m (N - n)"
    if "n < 2 ^ 30" for n m
  proof (cases "n \<le> N")
    case True
    note F = seq_at_facts[OF True, of b]
    have "drop_bit (N - n) m AND 1 = 1 \<longleftrightarrow> bit m (N - n)" by (simp add: and_one_eq bit_iff_odd_drop_bit odd_iff_mod_2_eq_one)
    then show ?thesis using F B True by (auto simp: FrameAck_bit_def Let_def SEQ_MASK_def)
  next
    case False
    then show ?thesis using seq_at_back[of N n b] that by (auto simp: FrameAck_bit_def Let_def SEQ_MASK_def word_less_nat_alt)
  qed
  moreover have "was_decoded ?recs n \<longleftrightarrow> (\<exists>t. (n, True, t) \<in> set recs)"
    "was_refused ?recs n \<longleftrightarrow> (\<exists>t. (n, False, t) \<in> set recs) \<and> (\<nexists>t. (n, True, t) \<in> set recs)" for n
    by (force simp: was_decoded_def was_refused_def)+
  ultimately show ?thesis
    using B by (intro exI[of _ ?ack]) (auto simp: FrameAck_is_decoded_def FrameAck_is_refused_def)
qed

theorem frame_ack_reports_witness:
  "\<exists>ack w'. fw_take 9 (foldl (\<lambda>w (n, d, t). FrameAckWindow_record (seq_at 7 n) d t w) FrameAckWindow_new
      [(2, True, 3), (1, False, 4)]) = (Some ack, w') \<and>
    FrameAck_is_decoded ack (seq_at 7 2) \<and> FrameAck_is_refused ack (seq_at 7 1)"
proof -
  let ?recs = "[(2, True, 3), (1, False, 4)] :: (nat \<times> bool \<times> nat) list"
  have lt: "\<And>r. r \<in> set ?recs \<Longrightarrow> fst r < 2 ^ 30" by auto
  obtain ack w' where A: "fw_take 9 (foldl (\<lambda>w (n, d, t). FrameAckWindow_record (seq_at 7 n) d t w) FrameAckWindow_new
      ?recs) = (Some ack, w')"
    and R: "\<And>n. n < 2 ^ 30 \<Longrightarrow>
      (FrameAck_is_decoded ack (seq_at 7 n) \<longleftrightarrow> n \<le> Max (fst ` set ?recs) \<and> Max (fst ` set ?recs) < n + 64 \<and>
         (\<exists>t. (n, True, t) \<in> set ?recs)) \<and>
      (FrameAck_is_refused ack (seq_at 7 n) \<longleftrightarrow> n \<le> Max (fst ` set ?recs) \<and> Max (fst ` set ?recs) < n + 64 \<and>
         (\<exists>t. (n, False, t) \<in> set ?recs) \<and> (\<nexists>t. (n, True, t) \<in> set ?recs))"
    using frame_ack_reports[of ?recs 9 7, OF _ lt] by auto
  show ?thesis using A R[of 2] R[of 1] by auto
qed

end
