(* ===== verification/Loss.thy ===== *)
theory Loss
  imports Batchers
begin

text \<open>
  What the client measures of the path and tells the server about itself: the receive counters and the suspension
  detector with the feedback-stream encoders (\<^verbatim>\<open>client-core/src/loss_tracker.rs\<close>), and the loss runs read from
  gaps in the wire sequence (\<^verbatim>\<open>client-core/src/wire_loss.rs\<close>).
\<close>

section \<open>Receive counters\<close>

definition SUSPENSION_GAP_US :: nat where "SUSPENSION_GAP_US = 100000"

record LossTracker =
  lt_received :: u32
  lt_recovered_fec :: u32
  lt_last_timed :: "(nat \<times> u32) option"
  lt_suspension :: bool

definition LossTracker_new :: LossTracker where
  "LossTracker_new = \<lparr> lt_received = 0, lt_recovered_fec = 0, lt_last_timed = None, lt_suspension = False \<rparr>"

definition LossTracker_on_datagram :: "LossTracker \<Rightarrow> LossTracker" where
  "LossTracker_on_datagram l = l\<lparr> lt_received := lt_received l + 1 \<rparr>"

definition LossTracker_on_datagram_sent_at :: "nat \<Rightarrow> u32 \<Rightarrow> LossTracker \<Rightarrow> LossTracker" where
  "LossTracker_on_datagram_sent_at now_us sent_us l =
     (let l = l\<lparr> lt_received := lt_received l + 1 \<rparr> in
      case lt_last_timed l of
        None \<Rightarrow> l\<lparr> lt_last_timed := Some (now_us, sent_us) \<rparr>
      | Some (prev_arrival, prev_sent) \<Rightarrow>
          let send_gap = sdist sent_us prev_sent in
          if send_gap < 0 then l
          else
            let arrival_gap = now_us - prev_arrival;
                l = (if arrival_gap > nat send_gap + SUSPENSION_GAP_US then l\<lparr> lt_suspension := True \<rparr> else l)
            in l\<lparr> lt_last_timed := Some (now_us, sent_us) \<rparr>)"

definition LossTracker_on_fec_recovery :: "LossTracker \<Rightarrow> LossTracker" where
  "LossTracker_on_fec_recovery l = l\<lparr> lt_recovered_fec := lt_recovered_fec l + 1 \<rparr>"

definition LossTracker_encode_feedback :: "nat \<Rightarrow> LossTracker \<Rightarrow> bytes \<times> LossTracker" where
  "LossTracker_encode_feedback now_us l =
     (ReceiverFeedback_encode \<lparr> rf_timestamp_ns = of_nat (now_us * 1000), rf_datagrams_received = lt_received l,
        rf_datagrams_recovered_fec = lt_recovered_fec l, rf_suspension_detected = lt_suspension l \<rparr> [],
      l\<lparr> lt_received := 0, lt_recovered_fec := 0, lt_suspension := False \<rparr>)"

definition encode_hello :: "bool \<Rightarrow> bool \<Rightarrow> bool \<Rightarrow> bytes" where
  "encode_hello indices_raw supports_h264 h264_acked_ref =
     (let caps = 0;
          caps = (if indices_raw then caps OR HELLO_CAP_INDICES_RAW else caps);
          caps = (if supports_h264 then caps OR HELLO_CAP_SUPPORTS_H264 else caps);
          caps = (if h264_acked_ref then caps OR HELLO_CAP_H264_ACKED_REF else caps)
      in [HELLO_MSG_TYPE, caps])"

definition encode_reset_request :: "ResetReason \<Rightarrow> u32 \<Rightarrow> bytes" where
  "encode_reset_request reason frame_seq = ResetRequest_encode \<lparr> rr_reason = reason, rr_frame_seq = frame_seq \<rparr> []"

definition encode_display_info :: "u16 \<Rightarrow> u16 \<Rightarrow> u16 \<Rightarrow> u16 \<Rightarrow> u16 \<Rightarrow> bytes" where
  "encode_display_info max_width max_height scale_milli mm_width mm_height =
     [DISPLAY_INFO_MSG_TYPE] @ to_be_bytes 2 max_width @ to_be_bytes 2 max_height @
     to_be_bytes 2 scale_milli @ to_be_bytes 2 mm_width @ to_be_bytes 2 mm_height"

definition encode_display_mode :: "u16 \<Rightarrow> u16 \<Rightarrow> bytes" where
  "encode_display_mode width height = [DISPLAY_MODE_MSG_TYPE] @ to_be_bytes 2 width @ to_be_bytes 2 height"

section \<open>Loss runs from sequence gaps\<close>

definition REORDER_WINDOW :: int where "REORDER_WINDOW = 64"
definition RING :: nat where "RING = 512"
definition RESYNC_JUMP :: nat where "RESYNC_JUMP = 4096"

record WireLossStats =
  ws_received :: nat
  ws_lost_pre_fec :: nat
  ws_reorder_late :: nat
  ws_late_after_declared :: nat
  ws_recovered :: nat
  ws_dup_rebuilt :: nat
  ws_run_hist :: "nat list"
  ws_max_run :: nat

definition WireLossStats_default :: WireLossStats where
  "WireLossStats_default = \<lparr> ws_received = 0, ws_lost_pre_fec = 0, ws_reorder_late = 0, ws_late_after_declared = 0,
     ws_recovered = 0, ws_dup_rebuilt = 0, ws_run_hist = replicate 8 0, ws_max_run = 0 \<rparr>"

record WireLossTracker =
  wl_stats :: WireLossStats
  wl_newest :: "u32 option"
  wl_settled_next :: u32
  wl_ring :: "bool list"
  wl_cur_run :: nat

definition bucket :: "nat \<Rightarrow> nat" where
  "bucket run = (if 1 \<le> run \<and> run \<le> 4 then run - 1 else if 5 \<le> run \<and> run \<le> 8 then 4
     else if 9 \<le> run \<and> run \<le> 16 then 5 else if 17 \<le> run \<and> run \<le> 32 then 6 else 7)"

definition WireLossTracker_new :: WireLossTracker where
  "WireLossTracker_new = \<lparr> wl_stats = WireLossStats_default, wl_newest = None, wl_settled_next = 0,
     wl_ring = replicate RING False, wl_cur_run = 0 \<rparr>"

definition slot_of :: "u32 \<Rightarrow> nat" where "slot_of seq = unat seq mod RING"

definition get_slot :: "u32 \<Rightarrow> WireLossTracker \<Rightarrow> bool" where
  "get_slot seq w = wl_ring w ! slot_of seq"

definition set_slot :: "u32 \<Rightarrow> bool \<Rightarrow> WireLossTracker \<Rightarrow> WireLossTracker" where
  "set_slot seq v w = w\<lparr> wl_ring := (wl_ring w)[slot_of seq := v] \<rparr>"

definition close_run :: "WireLossTracker \<Rightarrow> WireLossTracker" where
  "close_run w =
     (if wl_cur_run w > 0 then
        let s = wl_stats w; b = bucket (wl_cur_run w) in
        w\<lparr> wl_stats := s\<lparr> ws_run_hist := (ws_run_hist s)[b := ws_run_hist s ! b + 1],
                          ws_max_run := max (ws_max_run s) (wl_cur_run w) \<rparr>,
           wl_cur_run := 0 \<rparr>
      else w)"

definition count_lost :: "WireLossTracker \<Rightarrow> WireLossTracker" where
  "count_lost w = w\<lparr> wl_stats := (wl_stats w)\<lparr> ws_lost_pre_fec := ws_lost_pre_fec (wl_stats w) + 1 \<rparr>,
     wl_cur_run := wl_cur_run w + 1 \<rparr>"

definition count_received :: "WireLossTracker \<Rightarrow> WireLossTracker" where
  "count_received w = w\<lparr> wl_stats := (wl_stats w)\<lparr> ws_received := ws_received (wl_stats w) + 1 \<rparr> \<rparr>"

text \<open>One turn of the settling loop, and the loop.\<close>

definition settle_one :: "WireLossTracker \<Rightarrow> WireLossTracker" where
  "settle_one w =
     (let s = wl_settled_next w; w = (if get_slot s w then close_run w else count_lost w)
      in (set_slot s False w)\<lparr> wl_settled_next := s + 1 \<rparr>)"

lemma settled_next_frame [simp]:
  "wl_settled_next (close_run w) = wl_settled_next w" "wl_settled_next (count_lost w) = wl_settled_next w"
  "wl_settled_next (set_slot s v w) = wl_settled_next w" "wl_settled_next (settle_one w) = wl_settled_next w + 1"
  by (simp_all add: close_run_def count_lost_def set_slot_def settle_one_def Let_def)

lemma sdist_pred:
  assumes "0 < sdist a b"
  shows "sdist a (b + 1) = sdist a b - 1"
proof -
  have "sdist a b < 2 ^ 31" using sint_lt[of "a - b"] by (simp add: sdist_def)
  then have "- (2 ^ 31) \<le> sint (a - b) - 1 \<and> sint (a - b) - 1 < 2 ^ 31" using assms by (simp add: sdist_def)
  then have "sint (a - b - 1) = sint (a - b) - 1"
    by (subst sint_word_ariths(2)) (simp add: signed_take_bit_int_eq_self)
  then show ?thesis by (simp add: sdist_def diff_diff_eq)
qed

function settle :: "u32 \<Rightarrow> WireLossTracker \<Rightarrow> WireLossTracker" where
  "settle newest w = (if sdist newest (wl_settled_next w) > REORDER_WINDOW then settle newest (settle_one w) else w)"
  by pat_completeness auto
termination
  by (relation "measure (\<lambda>(newest, w). nat (sdist newest (wl_settled_next w)))")
    (auto simp: sdist_pred REORDER_WINDOW_def)

declare settle.simps [simp del]

definition resync :: "u32 \<Rightarrow> WireLossTracker \<Rightarrow> WireLossTracker" where
  "resync seq w = count_received (set_slot seq True (w\<lparr> wl_newest := Some seq, wl_settled_next := seq \<rparr>))"

definition WireLossTracker_on_received :: "u32 \<Rightarrow> WireLossTracker \<Rightarrow> WireLossTracker" where
  "WireLossTracker_on_received seq w =
     (case wl_newest w of
        None \<Rightarrow> resync seq w
      | Some newest \<Rightarrow>
          let d = sdist seq newest in
          if d > 0 then
            if nat d > RESYNC_JUMP then
              resync seq ((close_run w)\<lparr> wl_ring := map (\<lambda>_. False) (wl_ring w) \<rparr>)
            else
              let w = foldl (\<lambda>w s. set_slot (newest + of_nat s) False w) w [1..<nat d];
                  w = count_received ((set_slot seq True w)\<lparr> wl_newest := Some seq \<rparr>)
              in settle seq w
          else if sdist seq (wl_settled_next w) < 0 then
            count_received (w\<lparr> wl_stats := (wl_stats w)\<lparr>
              ws_late_after_declared := ws_late_after_declared (wl_stats w) + 1 \<rparr> \<rparr>)
          else if get_slot seq w then w
          else
            let w = count_received (set_slot seq True w)
            in w\<lparr> wl_stats := (wl_stats w)\<lparr> ws_reorder_late := ws_reorder_late (wl_stats w) + 1 \<rparr> \<rparr>)"

definition WireLossTracker_on_rebuilt :: "u32 \<Rightarrow> WireLossTracker \<Rightarrow> bool \<times> WireLossTracker" where
  "WireLossTracker_on_rebuilt seq w =
     (let settled = (sdist seq (wl_settled_next w) < 0);
          in_win = (case wl_newest w of None \<Rightarrow> False | Some n \<Rightarrow> sdist n seq \<ge> 0 \<and> unat (n - seq) < RING);
          arrived = (\<not> settled \<and> in_win \<and> get_slot seq w);
          s = wl_stats w
      in if arrived then (False, w\<lparr> wl_stats := s\<lparr> ws_dup_rebuilt := ws_dup_rebuilt s + 1 \<rparr> \<rparr>)
         else (True, w\<lparr> wl_stats := s\<lparr> ws_recovered := ws_recovered s + 1 \<rparr> \<rparr>))"

section \<open>Loss accounting is exact\<close>

text \<open>Positions count from an arbitrary base, so the sequence may wrap.\<close>

lemma sdist_at:
  assumes "m < 2 ^ 31" "n < 2 ^ 31"
  shows "sdist (b + of_nat m) (b + of_nat n) = int m - int n"
proof -
  have "of_nat m - of_nat n = (word_of_int (int m - int n) :: u32)" by simp
  then have "sint (of_nat m - of_nat n :: u32) = signed_take_bit 31 (int m - int n)"
    by (simp only: sint_sbintrunc') simp
  then show ?thesis using assms by (simp add: sdist_def signed_take_bit_int_eq_self)
qed

lemma slot_at: "slot_of (b + of_nat n) = (unat b + n) mod RING"
proof -
  have "unat (b + of_nat n) = (unat b + n) mod 2 ^ 32" by (simp add: unat_word_ariths unat_of_nat mod_simps)
  then show ?thesis by (simp add: slot_of_def RING_def mod_mod_cancel)
qed

lemma slot_inj:
  assumes "slot_of (b + of_nat m) = slot_of (b + of_nat n)" "m \<le> n" "n - m < RING"
  shows "m = n"
proof -
  have "(unat b + n) mod RING = (unat b + m) mod RING" using assms(1) by (simp add: slot_at)
  then have "RING dvd (unat b + n) - (unat b + m)" using assms(2) by (subst (asm) mod_eq_dvd_iff_nat) simp_all
  then show ?thesis using assms(2,3) by (auto dest: dvd_imp_le)
qed

definition slots_are :: "u32 \<Rightarrow> nat set \<Rightarrow> nat \<Rightarrow> nat \<Rightarrow> WireLossTracker \<Rightarrow> bool" where
  "slots_are b R S N w \<longleftrightarrow> length (wl_ring w) = RING \<and>
     (\<forall>n. S \<le> n \<and> n \<le> N \<longrightarrow> get_slot (b + of_nat n) w \<longleftrightarrow> n \<in> R)"

lemma slot_lt: "slot_of x < RING"
  by (simp add: slot_of_def RING_def)

lemma slots_are_set:
  assumes "slots_are b R S N w" "S \<le> m" "m \<le> N" "N - S < RING"
  shows "slots_are b (if v then insert m R else R - {m}) S N (set_slot (b + of_nat m) v w)"
proof -
  have ne: "slot_of (b + of_nat m) \<noteq> slot_of (b + of_nat n)" if "S \<le> n" "n \<le> N" "n \<noteq> m" for n
  proof (cases "m \<le> n")
    case True
    have "n - m < RING" using that assms(2-4) by linarith
    then show ?thesis using slot_inj[of b m n] True that(3) by blast
  next
    case False
    then have "n \<le> m" "m - n < RING" using that assms(2-4) by linarith+
    then show ?thesis using slot_inj[of b n m] that(3) by metis
  qed
  show ?thesis
    using assms ne slot_lt[of "b + of_nat m"]
    by (auto simp: slots_are_def set_slot_def get_slot_def nth_list_update)
qed

lemma slots_are_sub: "slots_are b R S N w \<Longrightarrow> S \<le> S' \<Longrightarrow> N' \<le> N \<Longrightarrow> slots_are b R S' N' w"
  by (auto simp: slots_are_def)

lemma ring_frame [simp]:
  "wl_ring (close_run w) = wl_ring w" "wl_ring (count_lost w) = wl_ring w" "wl_ring (count_received w) = wl_ring w"
  "wl_newest (close_run w) = wl_newest w" "wl_newest (count_lost w) = wl_newest w"
  "wl_newest (count_received w) = wl_newest w" "wl_newest (set_slot x v w) = wl_newest w"
  "wl_settled_next (count_received w) = wl_settled_next w" "wl_stats (set_slot x v w) = wl_stats w"
  by (simp_all add: close_run_def count_lost_def count_received_def set_slot_def Let_def)

lemma slots_are_ring: "wl_ring w = wl_ring w' \<Longrightarrow> slots_are b R S N w = slots_are b R S N w'"
  by (simp add: slots_are_def get_slot_def)

lemma lost_frame [simp]:
  "ws_lost_pre_fec (wl_stats (close_run w)) = ws_lost_pre_fec (wl_stats w)"
  "ws_lost_pre_fec (wl_stats (count_received w)) = ws_lost_pre_fec (wl_stats w)"
  "ws_lost_pre_fec (wl_stats (count_lost w)) = Suc (ws_lost_pre_fec (wl_stats w))"
  by (simp_all add: close_run_def count_lost_def count_received_def Let_def)

lemma settle_one_at:
  assumes "slots_are b R S N w" "wl_settled_next w = b + of_nat S" "S \<le> N" "N - S < RING"
  shows "slots_are b R (Suc S) N (settle_one w)" "wl_settled_next (settle_one w) = b + of_nat (Suc S)"
    "wl_newest (settle_one w) = wl_newest w"
    "ws_lost_pre_fec (wl_stats (settle_one w)) = ws_lost_pre_fec (wl_stats w) + (if S \<in> R then 0 else 1)"
proof -
  let ?w = "if get_slot (b + of_nat S) w then close_run w else count_lost w"
  have S: "get_slot (b + of_nat S) w \<longleftrightarrow> S \<in> R" using assms by (auto simp: slots_are_def)
  have "wl_ring ?w = wl_ring w" by simp
  then have "slots_are b R S N ?w" using assms(1) slots_are_ring by blast
  from slots_are_set[OF this order_refl assms(3,4), of False]
  have "slots_are b (R - {S}) S N (set_slot (b + of_nat S) False ?w)" by simp
  then show "slots_are b R (Suc S) N (settle_one w)"
    using assms(2) by (auto simp: settle_one_def Let_def slots_are_def get_slot_def)
  show "ws_lost_pre_fec (wl_stats (settle_one w)) = ws_lost_pre_fec (wl_stats w) + (if S \<in> R then 0 else 1)"
    using assms(2) S by (simp add: settle_one_def Let_def)
qed (use assms(2) in \<open>simp_all add: settle_one_def Let_def\<close>)

lemma settle_at:
  assumes "slots_are b R S N w" "wl_settled_next w = b + of_nat S" "S \<le> N" "N - S < RING" "N < 2 ^ 31"
  shows "slots_are b R (max S (N - 64)) N (settle (b + of_nat N) w)
    \<and> wl_settled_next (settle (b + of_nat N) w) = b + of_nat (max S (N - 64))
    \<and> wl_newest (settle (b + of_nat N) w) = wl_newest w
    \<and> ws_lost_pre_fec (wl_stats (settle (b + of_nat N) w)) =
      ws_lost_pre_fec (wl_stats w) + card {n. S \<le> n \<and> n + 64 < N \<and> n \<notin> R}"
  using assms
proof (induction "N - S" arbitrary: S w rule: less_induct)
  case less
  have d: "sdist (b + of_nat N) (wl_settled_next w) = int N - int S"
    using less.prems(2,3,5) sdist_at[of N S b] by simp
  show ?case
  proof (cases "S + 64 < N")
    case True
    note one = settle_one_at[OF less.prems(1-4)]
    have rec: "settle (b + of_nat N) w = settle (b + of_nat N) (settle_one w)"
      using d True by (subst settle.simps) (simp add: REORDER_WINDOW_def)
    have IH: "slots_are b R (max (Suc S) (N - 64)) N (settle (b + of_nat N) (settle_one w))
      \<and> wl_settled_next (settle (b + of_nat N) (settle_one w)) = b + of_nat (max (Suc S) (N - 64))
      \<and> wl_newest (settle (b + of_nat N) (settle_one w)) = wl_newest (settle_one w)
      \<and> ws_lost_pre_fec (wl_stats (settle (b + of_nat N) (settle_one w))) =
        ws_lost_pre_fec (wl_stats (settle_one w)) + card {n. Suc S \<le> n \<and> n + 64 < N \<and> n \<notin> R}"
      by (rule less.hyps[OF _ one(1,2)]) (use True less.prems in auto)
    have mx: "max (Suc S) (N - 64) = max S (N - 64)" using True by simp
    have "{n. S \<le> n \<and> n + 64 < N \<and> n \<notin> R} =
        (if S \<in> R then {n. Suc S \<le> n \<and> n + 64 < N \<and> n \<notin> R} else insert S {n. Suc S \<le> n \<and> n + 64 < N \<and> n \<notin> R})"
      using True by (auto simp: Suc_le_eq le_less)
    moreover have "finite {n. Suc S \<le> n \<and> n + 64 < N \<and> n \<notin> R}" by (rule finite_subset[of _ "{..N}"]) auto
    ultimately show ?thesis using IH one(3,4) unfolding rec mx by auto
  next
    case False
    then have "settle (b + of_nat N) w = w"
      using d by (subst settle.simps) (simp add: REORDER_WINDOW_def)
    moreover have none: "{n. S \<le> n \<and> n + 64 < N \<and> n \<notin> R} = {}" using False by auto
    moreover have "max S (N - 64) = S" using False by simp
    ultimately show ?thesis unfolding none using less.prems(1,2) by simp
  qed
qed

text \<open>The slots between the newest sequence and a forward jump are cleared.\<close>

lemma clear_gap:
  assumes "slots_are b R S N w" "S \<le> N" "N + k - S < RING" "\<And>r. r \<in> R \<Longrightarrow> r \<le> N"
  shows "slots_are b R S (N + k) (foldl (\<lambda>w s. set_slot (b + of_nat N + of_nat s) False w) w [1..<Suc k])"
    (is "slots_are b R S (N + k) (?clear k)")
  using assms(3)
proof (induction k)
  case 0
  then show ?case using assms(1) by simp
next
  case (Suc k)
  have at: "b + of_nat N + of_nat (Suc k) = (b + of_nat (N + Suc k) :: u32)" by simp
  have cl: "?clear (Suc k) = set_slot (b + of_nat (N + Suc k)) False (?clear k)" unfolding at[symmetric] by simp
  have IH: "slots_are b R S (N + k) (?clear k)" using Suc by simp
  let ?R = "if get_slot (b + of_nat (N + Suc k)) (?clear k) then insert (N + Suc k) R else R"
  have "N + Suc k \<notin> R" using assms(4) by fastforce
  then have "slots_are b ?R S (N + Suc k) (?clear k)" using IH by (auto simp: slots_are_def le_Suc_eq)
  from slots_are_set[OF this, of "N + Suc k" False] show ?case
    using Suc.prems assms(2) \<open>N + Suc k \<notin> R\<close> unfolding cl by (simp split: if_splits)
qed

text \<open>
  A position is lost when the stream has moved more than the reorder window past it and it has not arrived by then.
\<close>

definition lost_set :: "nat list \<Rightarrow> nat set" where
  "lost_set xs = {n. hd xs \<le> n \<and> (\<exists>k < length xs. n + 64 < xs ! k \<and> n \<notin> set (take k xs))}"

lemma lost_set_snoc:
  "xs \<noteq> [] \<Longrightarrow> lost_set (xs @ [x]) = lost_set xs \<union> {n. hd xs \<le> n \<and> n + 64 < x \<and> n \<notin> set xs}"
proof -
  assume "xs \<noteq> []"
  moreover have "(\<exists>k < length (xs @ [x]). n + 64 < (xs @ [x]) ! k \<and> n \<notin> set (take k (xs @ [x]))) \<longleftrightarrow>
      n + 64 < x \<and> n \<notin> set xs \<or> (\<exists>k < length xs. n + 64 < xs ! k \<and> n \<notin> set (take k xs))" for n
    by (simp add: Ex_less_Suc nth_append cong: conj_cong)
  ultimately show ?thesis unfolding lost_set_def by auto
qed

lemma lost_set_passed:
  assumes "xs \<noteq> []"
  shows "n \<in> lost_set xs \<Longrightarrow> hd xs \<le> n \<and> n + 64 < Max (set xs)"
    "hd xs \<le> n \<Longrightarrow> n + 64 < Max (set xs) \<Longrightarrow> n \<notin> set xs \<Longrightarrow> n \<in> lost_set xs"
proof -
  have "xs ! k \<le> Max (set xs)" if "k < length xs" for k using that by simp
  then show "n \<in> lost_set xs \<Longrightarrow> hd xs \<le> n \<and> n + 64 < Max (set xs)"
    by (auto simp: lost_set_def intro: less_le_trans)
  assume "hd xs \<le> n" "n + 64 < Max (set xs)" "n \<notin> set xs"
  moreover obtain k where "k < length xs" "xs ! k = Max (set xs)"
    using Max_in[of "set xs"] assms by (auto simp: in_set_conv_nth)
  ultimately show "n \<in> lost_set xs" by (auto simp: lost_set_def dest: in_set_takeD intro!: exI[of _ k])
qed

lemma finite_lost_set: "xs \<noteq> [] \<Longrightarrow> finite (lost_set xs)"
  by (rule finite_subset[of _ "{..Max (set xs)}"]) (auto dest!: lost_set_passed(1))

definition wl_inv :: "u32 \<Rightarrow> nat list \<Rightarrow> WireLossTracker \<Rightarrow> bool" where
  "wl_inv b xs w \<longleftrightarrow>
     (let N = Max (set xs); S = max (hd xs) (N - 64) in
      xs \<noteq> [] \<and> N < 2 ^ 31 \<and> wl_newest w = Some (b + of_nat N) \<and> wl_settled_next w = b + of_nat S \<and>
      slots_are b (set xs) S N w \<and> ws_lost_pre_fec (wl_stats w) = card (lost_set xs))"

lemma foldl_set_slot_frame:
  "wl_settled_next (foldl (\<lambda>w s. set_slot (f s) v w) w ss) = wl_settled_next w"
  "wl_stats (foldl (\<lambda>w s. set_slot (f s) v w) w ss) = wl_stats w"
  by (induction ss arbitrary: w) simp_all

lemma wl_inv_ahead:
  assumes inv: "wl_inv b xs w" and x: "Max (set xs) < x" "x < Max (set xs) + 448" "x < 2 ^ 31"
  shows "wl_inv b (xs @ [x]) (WireLossTracker_on_received (b + of_nat x) w)"
proof -
  define N where "N = Max (set xs)"
  define S where "S = max (hd xs) (N - 64)"
  have I: "xs \<noteq> []" "N < 2 ^ 31" "wl_newest w = Some (b + of_nat N)" "wl_settled_next w = b + of_nat S"
    "slots_are b (set xs) S N w" "ws_lost_pre_fec (wl_stats w) = card (lost_set xs)"
    using inv by (auto simp: wl_inv_def Let_def N_def S_def)
  have N: "\<And>r. r \<in> set xs \<Longrightarrow> r \<le> N" "hd xs \<le> N" using I(1) by (auto simp: N_def)
  obtain k where k: "x = N + Suc k" using x(1) N_def less_iff_Suc_add by auto
  have d: "sdist (b + of_nat x) (b + of_nat N) = int (Suc k)" using sdist_at[of x N b] x(3) I(2) k by simp
  have S: "S \<le> N" using N(2) by (simp add: S_def)
  have k': "k < 447" and "N - S \<le> 64" using x(2) k N_def by (auto simp: S_def)
  then have far: "N + Suc k - S < RING" using S by (simp add: RING_def)
  let ?w1 = "foldl (\<lambda>w s. set_slot (b + of_nat N + of_nat s) False w) w [1..<Suc k]"
  let ?w2 = "count_received ((set_slot (b + of_nat x) True ?w1)\<lparr> wl_newest := Some (b + of_nat x) \<rparr>)"
  have step: "WireLossTracker_on_received (b + of_nat x) w = settle (b + of_nat x) ?w2"
    unfolding WireLossTracker_on_received_def I(3) option.case Let_def d nat_int using k' by (simp add: RESYNC_JUMP_def)
  note keep = foldl_set_slot_frame[of "\<lambda>s. b + of_nat N + of_nat s" False w "[1..<Suc k]"]
  have "slots_are b (set xs) S (N + k) ?w1" by (rule clear_gap[OF I(5) S]) (use far N in auto)
  then have "slots_are b (if get_slot (b + of_nat x) ?w1 then insert x (set xs) else set xs) S x ?w1"
    using N(1)[of x] k by (auto simp: slots_are_def le_Suc_eq)
  from slots_are_set[OF this, of x True] have "slots_are b (insert x (set xs)) S x (set_slot (b + of_nat x) True ?w1)"
    using S far k by (simp add: insert_absorb split: if_splits)
  then have slots: "slots_are b (insert x (set xs)) S x ?w2" by (rule slots_are_ring[THEN iffD1, rotated]) simp
  have settled: "wl_settled_next ?w2 = b + of_nat S" using keep I(4) by simp
  have Sx: "S \<le> x" "x - S < RING" using S far k by simp_all
  note T = settle_at[OF slots settled Sx x(3), folded step]
  have w2: "ws_lost_pre_fec (wl_stats ?w2) = card (lost_set xs)" "wl_newest ?w2 = Some (b + of_nat x)"
    using keep(2) I(6) by simp_all
  have new: "lost_set (xs @ [x]) = lost_set xs \<union> {n. S \<le> n \<and> n + 64 < x \<and> n \<notin> insert x (set xs)}"
  proof -
    have "S \<le> n" if "hd xs \<le> n" "n \<notin> set xs" "n \<notin> lost_set xs" for n
    proof -
      have "\<not> n + 64 < N" using lost_set_passed(2)[OF I(1), of n] that N_def by blast
      then show ?thesis using that(1) by (simp add: S_def)
    qed
    moreover have "hd xs \<le> S" by (simp add: S_def)
    ultimately show ?thesis unfolding lost_set_snoc[OF I(1)] by auto
  qed
  have "lost_set xs \<inter> {n. S \<le> n \<and> n + 64 < x \<and> n \<notin> insert x (set xs)} = {}"
    using lost_set_passed(1)[OF I(1)] by (fastforce simp: S_def N_def)
  moreover have "finite {n. S \<le> n \<and> n + 64 < x \<and> n \<notin> insert x (set xs)}" by (rule finite_subset[of _ "{..x}"]) auto
  ultimately have card: "card (lost_set (xs @ [x])) =
      card (lost_set xs) + card {n. S \<le> n \<and> n + 64 < x \<and> n \<notin> insert x (set xs)}"
    using finite_lost_set[OF I(1)] by (simp add: new card_Un_disjoint)
  have mx: "Max (set (xs @ [x])) = x" using N(1) k by (intro Max_eqI) (auto intro: le_SucI trans_le_add1)
  have mS: "max S (x - 64) = max (hd xs) (x - 64)" using x(1) by (auto simp: S_def N_def max_def)
  show ?thesis
    unfolding wl_inv_def Let_def mx using T[unfolded w2 mS] x(3) I(1) card by (simp add: hd_append)
qed

lemma wl_inv_behind:
  assumes inv: "wl_inv b xs w" and x: "x \<le> Max (set xs)"
  shows "wl_inv b (xs @ [x]) (WireLossTracker_on_received (b + of_nat x) w)"
proof -
  define N where "N = Max (set xs)"
  define S where "S = max (hd xs) (N - 64)"
  let ?w = "WireLossTracker_on_received (b + of_nat x) w"
  have I: "xs \<noteq> []" "N < 2 ^ 31" "wl_newest w = Some (b + of_nat N)" "wl_settled_next w = b + of_nat S"
    "slots_are b (set xs) S N w" "ws_lost_pre_fec (wl_stats w) = card (lost_set xs)"
    using inv by (auto simp: wl_inv_def Let_def N_def S_def)
  have "hd xs \<le> N" using I(1) by (simp add: N_def)
  then have S: "S \<le> N" "N - S < RING" by (auto simp: S_def RING_def)
  have d: "sdist (b + of_nat x) (b + of_nat N) \<le> 0" "sdist (b + of_nat x) (b + of_nat S) = int x - int S"
    using sdist_at[of x N b] sdist_at[of x S b] x I(2) S(1) N_def by auto
  have "n \<in> lost_set xs" if "hd xs \<le> n" "n + 64 < x" "n \<notin> set xs" for n
    using lost_set_passed(2)[OF I(1) that(1) _ that(3)] that(2) x by linarith
  then have "lost_set (xs @ [x]) = lost_set xs" unfolding lost_set_snoc[OF I(1)] by blast
  moreover have "Max (set (xs @ [x])) = N" unfolding N_def using x I(1) by simp
  ultimately have rest: "Max (set (xs @ [x])) = N" "lost_set (xs @ [x]) = lost_set xs" by simp_all
  have "wl_newest ?w = wl_newest w \<and> wl_settled_next ?w = wl_settled_next w \<and>
      ws_lost_pre_fec (wl_stats ?w) = ws_lost_pre_fec (wl_stats w) \<and> slots_are b (set (xs @ [x])) S N ?w"
  proof (cases "x < S")
    case True
    then have "slots_are b (set (xs @ [x])) S N w" using I(5) by (auto simp: slots_are_def)
    moreover have "?w = count_received (w\<lparr> wl_stats := (wl_stats w)\<lparr>
        ws_late_after_declared := ws_late_after_declared (wl_stats w) + 1 \<rparr> \<rparr>)"
      using True d I(3,4) by (simp add: WireLossTracker_on_received_def Let_def)
    ultimately show ?thesis by (simp add: slots_are_def get_slot_def)
  next
    case False
    then have in_win: "S \<le> x" "x \<le> N" using x N_def by auto
    then have got: "get_slot (b + of_nat x) w \<longleftrightarrow> x \<in> set xs" using I(5) by (auto simp: slots_are_def)
    have set: "slots_are b (insert x (set xs)) S N (set_slot (b + of_nat x) True w)"
      using slots_are_set[OF I(5) in_win S(2), of True] by simp
    show ?thesis
    proof (cases "x \<in> set xs")
      case True
      then have "?w = w" using False d I(3,4) got by (simp add: WireLossTracker_on_received_def Let_def)
      then show ?thesis using I(5) True by (simp add: insert_absorb)
    next
      case new: False
      then have "?w = (count_received (set_slot (b + of_nat x) True w))\<lparr> wl_stats :=
          (wl_stats (count_received (set_slot (b + of_nat x) True w)))\<lparr> ws_reorder_late :=
          ws_reorder_late (wl_stats (count_received (set_slot (b + of_nat x) True w))) + 1 \<rparr> \<rparr>"
        using False d I(3,4) got by (simp add: WireLossTracker_on_received_def Let_def)
      then show ?thesis using set by (simp add: slots_are_def get_slot_def)
    qed
  qed
  then show ?thesis using I(1,2,3,4,6) rest unfolding wl_inv_def Let_def S_def by (simp add: hd_append)
qed

lemma wl_inv_first: "x < 2 ^ 31 \<Longrightarrow> wl_inv b [x] (WireLossTracker_on_received (b + of_nat x) WireLossTracker_new)"
proof -
  have "lost_set [x] = {}" by (auto simp: lost_set_def)
  moreover assume "x < 2 ^ 31"
  ultimately show ?thesis
    by (auto simp: wl_inv_def WireLossTracker_on_received_def WireLossTracker_new_def resync_def set_slot_def get_slot_def
        count_received_def slots_are_def WireLossStats_default_def slot_lt)
qed

lemma wl_inv_run:
  assumes "wl_inv b xs w" "\<And>x. x \<in> set ys \<Longrightarrow> x < 2 ^ 31"
    "\<And>k. k < length ys \<Longrightarrow> ys ! k < Max (set (xs @ take k ys)) + 448"
  shows "wl_inv b (xs @ ys) (foldl (\<lambda>w x. WireLossTracker_on_received (b + of_nat x) w) w ys)"
  using assms
proof (induction ys arbitrary: xs w)
  case (Cons y ys)
  have y: "y < Max (set xs) + 448" "y < 2 ^ 31" using Cons.prems(3)[of 0] Cons.prems(2)[of y] by simp_all
  have "wl_inv b (xs @ [y]) (WireLossTracker_on_received (b + of_nat y) w)"
    using wl_inv_ahead[OF Cons.prems(1) _ y] wl_inv_behind[OF Cons.prems(1), of y] by (cases "Max (set xs) < y") auto
  from Cons.IH[OF this] show ?case using Cons.prems(2) Cons.prems(3)[of "Suc _"] by simp
qed simp

text \<open>
  C20. Loss before error correction is counted exactly.  Datagrams may arrive late, twice or never, and the
  sequence may wrap: as long as no arrival is \<open>RING - REORDER_WINDOW\<close> or more ahead of the newest one, the lost
  counter is the number of sequence positions that had not arrived when the stream was more than the reorder
  window past them.
\<close>

theorem wire_loss_exact:
  assumes "xs \<noteq> []" "\<And>x. x \<in> set xs \<Longrightarrow> x < 2 ^ 31"
    and "\<And>k. 0 < k \<Longrightarrow> k < length xs \<Longrightarrow> xs ! k < Max (set (take k xs)) + 448"
  shows "ws_lost_pre_fec (wl_stats
      (foldl (\<lambda>w x. WireLossTracker_on_received (b + of_nat x) w) WireLossTracker_new xs)) =
    card {n. hd xs \<le> n \<and> (\<exists>k < length xs. n + 64 < xs ! k \<and> n \<notin> set (take k xs))}"
proof -
  obtain x ys where xs: "xs = x # ys" using assms(1) by (cases xs) auto
  have "wl_inv b ([x] @ ys) (foldl (\<lambda>w x. WireLossTracker_on_received (b + of_nat x) w)
      (WireLossTracker_on_received (b + of_nat x) WireLossTracker_new) ys)"
  proof (rule wl_inv_run[OF wl_inv_first])
    show "ys ! k < Max (set ([x] @ take k ys)) + 448" if "k < length ys" for k
      using assms(3)[of "Suc k"] that xs by simp
  qed (use assms(2) xs in auto)
  then show ?thesis by (simp add: xs wl_inv_def Let_def lost_set_def)
qed

theorem wire_loss_exact_witness:
  "ws_lost_pre_fec (wl_stats (foldl (\<lambda>w x. WireLossTracker_on_received (4294967290 + of_nat x) w)
     WireLossTracker_new [0, 2, 67])) = 1"
proof -
  have j: "\<And>k. 0 < k \<Longrightarrow> k < length [0, 2, 67 :: nat] \<Longrightarrow> [0, 2, 67 :: nat] ! k < Max (set (take k [0, 2, 67])) + 448"
    by (auto simp: less_Suc_eq numeral_3_eq_3)
  have "{n. hd [0, 2, 67] \<le> n \<and> (\<exists>k < length [0, 2, 67 :: nat]. n + 64 < [0, 2, 67] ! k \<and> n \<notin> set (take k [0, 2, 67]))} = {1 :: nat}"
    by (auto simp: less_Suc_eq numeral_3_eq_3)
  moreover have "\<And>x. x \<in> set [0, 2, 67 :: nat] \<Longrightarrow> x < 2 ^ 31" by auto
  ultimately show ?thesis using wire_loss_exact[OF _ _ j, of 4294967290] by (metis card_1_singleton_iff list.distinct(1) One_nat_def)
qed

end
