(* ===== verification/Client_State.thy ===== *)
theory Client_State
  imports Tile_Decoder Fec H264_Gate Loss "HOL-Library.Product_Lexorder"
begin

text \<open>
  The client core of \<^verbatim>\<open>ghostframe-client-core/src/lib.rs\<close>: its state, what it sends, and its
  timers.  The clock is a natural number of microseconds.  A \<^verbatim>\<open>HashMap\<close> whose iteration order
  shows nowhere is an insertion-ordered map; the \<^verbatim>\<open>BTreeMap\<close> of pending NACKs is a list sorted
  by its keys.
\<close>

section \<open>Constants and configuration\<close>

definition PARITY_WINDOW :: nat where "PARITY_WINDOW = 40"
definition NACK_DEBOUNCE_US :: nat where "NACK_DEBOUNCE_US = 50000"
definition TAIL_FALLBACK_US :: nat where "TAIL_FALLBACK_US = 1500000"
definition MAX_TAIL_SWEEP_ATTEMPTS :: u8 where "MAX_TAIL_SWEEP_ATTEMPTS = 6"
definition TAIL_SWEEP_INTERVAL_US :: nat where "TAIL_SWEEP_INTERVAL_US = 500000"
definition FEEDBACK_INTERVAL_US :: nat where "FEEDBACK_INTERVAL_US = 100000"
definition MAX_FRAME_DIMENSION :: u32 where "MAX_FRAME_DIMENSION = 8192"
definition MAX_FRAME_FRAGMENTS :: u16 where "MAX_FRAME_FRAGMENTS = 16384"
definition MAX_H264_ACCESS_UNIT_BYTES :: nat where "MAX_H264_ACCESS_UNIT_BYTES = 16 * 1024 * 1024"

record PendingNack =
  pn_frame_seq :: u32
  pn_tile_x :: u8
  pn_tile_y :: u8
  pn_pass_idx :: u8

datatype TileDelivery = Decoded | Payload

record ClientDisplay =
  cd_max_width :: u16
  cd_max_height :: u16
  cd_scale_milli :: u16
  cd_mm_width :: u16
  cd_mm_height :: u16

record ClientConfig =
  cfg_indices_raw_enabled :: bool
  cfg_supports_h264 :: bool
  cfg_h264_acked_ref :: bool
  cfg_tile_delivery :: TileDelivery
  cfg_cdf53_wire :: bool
  cfg_display :: "ClientDisplay option"

record FrameAssembly =
  fas_header :: FrameHeader
  fas_created_us :: nat
  fas_fragments :: "bytes option list"
  fas_received :: nat
  fas_bytes :: nat

section \<open>The core\<close>

record ClientCore =
  cc_outbox :: "PollOutput list"
  cc_frame_dims :: "(u32 \<times> u32) option"
  cc_parity_decoder :: ParityDecoder
  cc_wire_loss :: WireLossTracker
  cc_ack_batcher :: AckBatcher
  cc_nack_batcher :: NackBatcher
  cc_decode_error_batcher :: DecodeErrorBatcher
  cc_loss_tracker :: LossTracker
  cc_palette_shadow :: PaletteShadow
  cc_cdf53_coverage :: "(u8 \<times> u8, CoverageEntry) OrderedMap"
  cc_newest_received_label :: "u32 option"
  cc_latest_frame_seq :: u32
  cc_frame_assemblies :: "(u32, FrameAssembly) OrderedMap"
  cc_latest_full_frame_seq :: u32
  cc_h264_gate :: H264Gate
  cc_frame_acks :: FrameAckWindow
  cc_send_frame_acks :: bool
  cc_decoder_broken :: bool
  cc_decoder_epoch_start :: "u32 option"
  cc_h264_not_output_total :: nat
  cc_h264_not_output_streak :: nat
  cc_pending_nacks :: "((u8 \<times> u8 \<times> u8) \<times> PendingNack) list"
  cc_pending_nack_deadline_us :: "nat option"
  cc_next_tail_sweep_us :: nat
  cc_next_feedback_us :: nat
  cc_decoder :: "TileDecoder option"
  cc_cdf53_wire :: bool
  cc_datagrams_tile :: u64
  cc_datagrams_frame :: u64

definition push_out :: "PollOutput list \<Rightarrow> ClientCore \<Rightarrow> ClientCore" where
  "push_out msgs c = c\<lparr> cc_outbox := cc_outbox c @ msgs \<rparr>"

definition datagram_out :: "bytes option \<Rightarrow> PollOutput list" where
  "datagram_out dg = (case dg of Some dg \<Rightarrow> [Datagram dg] | None \<Rightarrow> [])"

definition set_cdf53_wire :: "bool \<Rightarrow> ClientCore \<Rightarrow> ClientCore" where
  "set_cdf53_wire on c = c\<lparr> cc_cdf53_wire := on \<rparr>"

definition set_tile_delivery :: "TileDelivery \<Rightarrow> ClientCore \<Rightarrow> ClientCore" where
  "set_tile_delivery delivery c =
     c\<lparr> cc_decoder := (case delivery of Decoded \<Rightarrow> Some TileDecoder_new | Payload \<Rightarrow> None) \<rparr>"

definition delivers_cdf53_wire :: "ClientCore \<Rightarrow> bool" where
  "delivers_cdf53_wire c \<longleftrightarrow> cc_cdf53_wire c \<and> cc_decoder c = None"

definition ClientCore_new :: "ClientConfig \<Rightarrow> nat \<Rightarrow> ClientCore" where
  "ClientCore_new config now_us =
     (let core = \<lparr>
        cc_outbox = [], cc_frame_dims = None, cc_parity_decoder = ParityDecoder_new PARITY_WINDOW,
        cc_wire_loss = WireLossTracker_new, cc_ack_batcher = AckBatcher_new, cc_nack_batcher = NackBatcher_new,
        cc_decode_error_batcher = DecodeErrorBatcher_new, cc_loss_tracker = LossTracker_new,
        cc_palette_shadow = PaletteShadow_new, cc_cdf53_coverage = [], cc_newest_received_label = None,
        cc_latest_frame_seq = 0, cc_frame_assemblies = [], cc_latest_full_frame_seq = 0,
        cc_h264_gate = H264Gate_new, cc_frame_acks = FrameAckWindow_new,
        cc_send_frame_acks = cfg_h264_acked_ref config, cc_decoder_broken = False, cc_decoder_epoch_start = None,
        cc_h264_not_output_total = 0, cc_h264_not_output_streak = 0, cc_pending_nacks = [],
        cc_pending_nack_deadline_us = None, cc_next_tail_sweep_us = now_us + TAIL_SWEEP_INTERVAL_US,
        cc_next_feedback_us = now_us + FEEDBACK_INTERVAL_US, cc_decoder = None, cc_cdf53_wire = False,
        cc_datagrams_tile = 0, cc_datagrams_frame = 0 \<rparr>;
          core = push_out [PollStream (encode_hello (cfg_indices_raw_enabled config) (cfg_supports_h264 config)
                   (cfg_h264_acked_ref config))] core;
          core = (case cfg_display config of
                    Some display \<Rightarrow> push_out [PollStream (encode_display_info (cd_max_width display)
                      (cd_max_height display) (cd_scale_milli display) (cd_mm_width display) (cd_mm_height display))] core
                  | None \<Rightarrow> core)
      in set_cdf53_wire (cfg_cdf53_wire config) (set_tile_delivery (cfg_tile_delivery config) core))"

definition request_display_mode :: "u16 \<Rightarrow> u16 \<Rightarrow> ClientCore \<Rightarrow> ClientCore" where
  "request_display_mode width height c = push_out [PollStream (encode_display_mode width height)] c"

definition request_reset :: "ResetReason \<Rightarrow> u32 \<Rightarrow> ClientCore \<Rightarrow> ClientCore" where
  "request_reset reason frame_seq c = push_out [PollStream (encode_reset_request reason frame_seq)] c"

definition after_gate :: "ClientCore \<Rightarrow> ClientCore" where
  "after_gate c =
     (let (request, gate) = take_request (cc_h264_gate c); c = c\<lparr> cc_h264_gate := gate \<rparr>
      in case request of Some (reason, frame_seq) \<Rightarrow> request_reset reason frame_seq c | None \<Rightarrow> c)"

definition record_frame :: "u32 \<Rightarrow> bool \<Rightarrow> nat \<Rightarrow> ClientCore \<Rightarrow> ClientCore" where
  "record_frame frame_seq decoded now_us c =
     c\<lparr> cc_frame_acks := FrameAckWindow_record frame_seq decoded now_us (cc_frame_acks c) \<rparr>"

definition decoder_failed :: "ResetCause \<Rightarrow> u32 \<Rightarrow> nat \<Rightarrow> ClientCore \<Rightarrow> ClientCore" where
  "decoder_failed cause frame_seq now_us c =
     record_frame frame_seq False now_us
       (c\<lparr> cc_decoder_broken := True, cc_h264_gate := gate_reset cause frame_seq now_us (cc_h264_gate c) \<rparr>)"

definition not_output :: "u32 \<Rightarrow> nat \<Rightarrow> ClientCore \<Rightarrow> ClientCore" where
  "not_output frame_seq now_us c =
     record_frame frame_seq False now_us
       (c\<lparr> cc_h264_not_output_total := cc_h264_not_output_total c + 1,
           cc_h264_not_output_streak := cc_h264_not_output_streak c + 1 \<rparr>)"

definition h264_result :: "u32 \<Rightarrow> H264Outcome \<Rightarrow> nat \<Rightarrow> ClientCore \<Rightarrow> ClientCore" where
  "h264_result frame_seq outcome now_us c =
     (let before_boundary = (cc_decoder_broken c \<or>
            (case cc_decoder_epoch_start c of Some e \<Rightarrow> seq_after e frame_seq | None \<Rightarrow> False))
      in after_gate
           (case outcome of
              HO_Decoded \<Rightarrow>
                if \<not> before_boundary then record_frame frame_seq True now_us (c\<lparr> cc_h264_not_output_streak := 0 \<rparr>)
                else not_output frame_seq now_us c
            | HO_NotOutput \<Rightarrow> not_output frame_seq now_us c
            | HO_DecodeError \<Rightarrow> decoder_failed RC_DecoderFailure frame_seq now_us c
            | HO_NoDecoder \<Rightarrow> decoder_failed RC_NoDecoder frame_seq now_us c))"

definition push_frame_ack :: "FrameAck option \<Rightarrow> ClientCore \<Rightarrow> ClientCore" where
  "push_frame_ack ack c = (case ack of Some ack \<Rightarrow> push_out [Datagram (FrameAck_encode ack [])] c | None \<Rightarrow> c)"

definition poll_transmit :: "ClientCore \<Rightarrow> PollOutput option \<times> ClientCore" where
  "poll_transmit c =
     (case cc_outbox c of [] \<Rightarrow> (None, c) | m # ms \<Rightarrow> (Some m, c\<lparr> cc_outbox := ms \<rparr>))"

definition sooner :: "nat option \<Rightarrow> nat \<Rightarrow> nat" where
  "sooner d deadline = (case d of Some d \<Rightarrow> min deadline d | None \<Rightarrow> deadline)"

definition poll_timeout :: "ClientCore \<Rightarrow> nat" where
  "poll_timeout c =
     (let deadline = min (cc_next_tail_sweep_us c) (cc_next_feedback_us c);
          deadline = sooner (akb_deadline_us (cc_ack_batcher c)) deadline;
          deadline = sooner (nkb_deadline_us (cc_nack_batcher c)) deadline;
          deadline = sooner (cc_pending_nack_deadline_us c) deadline
      in if cc_send_frame_acks c then sooner (fw_fallback_at (cc_frame_acks c)) deadline else deadline)"

section \<open>Coverage NACKs\<close>

fun bt_insert :: "'k::linorder \<Rightarrow> 'v \<Rightarrow> ('k \<times> 'v) list \<Rightarrow> ('k \<times> 'v) list" where
  "bt_insert k v [] = [(k, v)]"
| "bt_insert k v ((k', v') # m) =
     (if k < k' then (k, v) # (k', v') # m
      else if k = k' then (k, v) # m
      else (k', v') # bt_insert k v m)"

definition queue_pass_nack :: "u32 \<Rightarrow> u8 \<Rightarrow> u8 \<Rightarrow> u8 \<Rightarrow> nat \<Rightarrow> ClientCore \<Rightarrow> ClientCore" where
  "queue_pass_nack frame_seq tile_x tile_y pass_idx now_us c =
     (let key = (pass_idx, tile_y, tile_x) in
      if map_of (cc_pending_nacks c) key \<noteq> None then c
      else
        let c = c\<lparr> cc_pending_nacks := bt_insert key
                     \<lparr> pn_frame_seq = frame_seq, pn_tile_x = tile_x, pn_tile_y = tile_y, pn_pass_idx = pass_idx \<rparr>
                     (cc_pending_nacks c) \<rparr>
        in if cc_pending_nack_deadline_us c = None
           then c\<lparr> cc_pending_nack_deadline_us := Some (now_us + NACK_DEBOUNCE_US) \<rparr> else c)"

text \<open>
  One pending NACK.  \<^verbatim>\<open>1u16 << pass_idx\<close> overflows for an index of 16 or more, which is
  \<open>None\<close>.
\<close>

definition arrived_since :: "PendingNack \<Rightarrow> ClientCore \<Rightarrow> bool option" where
  "arrived_since p c =
     (case om_get (pn_tile_x p, pn_tile_y p) (cc_cdf53_coverage c) of
        None \<Rightarrow> Some False
      | Some cov \<Rightarrow>
          if unat (pn_pass_idx p) \<ge> 16 then None
          else Some (ce_pass_mask cov AND push_bit (unat (pn_pass_idx p)) 1 \<noteq> 0))"

definition nack_entry :: "PendingNack \<Rightarrow> TileNackEntry" where
  "nack_entry p = \<lparr> ne_frame_seq = pn_frame_seq p OR TILE_DATAGRAM_FLAG, ne_tile_x = pn_tile_x p,
     ne_tile_y = pn_tile_y p, ne_pass_idx = pn_pass_idx p \<rparr>"

fun flush_each :: "PendingNack list \<Rightarrow> nat \<Rightarrow> bool \<Rightarrow> ClientCore \<Rightarrow> (bool \<times> ClientCore) option" where
  "flush_each [] now_us queued c = Some (queued, c)"
| "flush_each (p # ps) now_us queued c =
     Option.bind (arrived_since p c) (\<lambda>arrived.
     if arrived then flush_each ps now_us queued c
     else
       let (dg, nacks) = NackBatcher_add (nack_entry p) now_us (cc_nack_batcher c);
           c = c\<lparr> cc_nack_batcher := nacks \<rparr>
       in case dg of
            Some dg \<Rightarrow> flush_each ps now_us queued (push_out [Datagram dg] c)
          | None \<Rightarrow> flush_each ps now_us True c)"

definition flush_pending_nacks :: "nat \<Rightarrow> ClientCore \<Rightarrow> ClientCore option" where
  "flush_pending_nacks now_us c =
     (let c = c\<lparr> cc_pending_nack_deadline_us := None \<rparr> in
      if cc_pending_nacks c = [] then Some c
      else
        let pending = map snd (cc_pending_nacks c); c = c\<lparr> cc_pending_nacks := [] \<rparr> in
        map_option (\<lambda>(queued, c).
          if queued then
            let (dg, nacks) = NackBatcher_flush (cc_nack_batcher c)
            in push_out (datagram_out dg) (c\<lparr> cc_nack_batcher := nacks \<rparr>)
          else c) (flush_each pending now_us False c))"

section \<open>The tail sweep\<close>

text \<open>The passes one entry is asked for; 0 is every \<^verbatim>\<open>continue\<close> of the loop.\<close>

definition sweep_mask :: "nat \<Rightarrow> CoverageEntry \<Rightarrow> u16" where
  "sweep_mask now_us entry =
     (case (case ce_present_passes entry of
              Some present \<Rightarrow> if ce_pass_mask entry = present then None else Some (present AND NOT (ce_pass_mask entry))
            | None \<Rightarrow> Some 1) of
        None \<Rightarrow> 0
      | Some missing \<Rightarrow>
          if now_us - ce_last_change_us entry < TAIL_FALLBACK_US then 0
          else
            let missing = gap_evidence_mask missing entry in
            if ce_sweep_attempts entry \<ge> MAX_TAIL_SWEEP_ATTEMPTS then 0 else missing)"

definition mark_swept :: "nat \<Rightarrow> u16 \<Rightarrow> CoverageEntry \<Rightarrow> CoverageEntry" where
  "mark_swept now_us missing entry =
     entry\<lparr> ce_nacked_mask := ce_nacked_mask entry AND NOT missing, ce_last_change_us := now_us,
            ce_sweep_attempts := sat_add (ce_sweep_attempts entry) 1 \<rparr>"

definition queue_missing :: "u32 \<Rightarrow> u8 \<times> u8 \<Rightarrow> u16 \<Rightarrow> nat \<Rightarrow> ClientCore \<Rightarrow> ClientCore" where
  "queue_missing frame_seq key missing now_us c =
     foldl (\<lambda>c p. if missing AND push_bit p 1 \<noteq> 0
                  then queue_pass_nack frame_seq (fst key) (snd key) (of_nat p) now_us c else c) c [0..<14]"

definition sweep_tile :: "nat \<Rightarrow> ClientCore \<Rightarrow> u8 \<times> u8 \<Rightarrow> ClientCore" where
  "sweep_tile now_us c key =
     (case om_get key (cc_cdf53_coverage c) of
        None \<Rightarrow> c
      | Some entry \<Rightarrow>
          let missing = sweep_mask now_us entry in
          if missing = 0 then c
          else
            let c = queue_missing (ce_frame_seq entry) key missing now_us c
            in c\<lparr> cc_cdf53_coverage := om_set key (mark_swept now_us missing entry) (cc_cdf53_coverage c) \<rparr>)"

definition tail_sweep :: "nat \<Rightarrow> ClientCore \<Rightarrow> ClientCore" where
  "tail_sweep now_us c =
     (if now_us < cc_next_tail_sweep_us c then c
      else foldl (sweep_tile now_us) (c\<lparr> cc_next_tail_sweep_us := now_us + TAIL_SWEEP_INTERVAL_US \<rparr>)
             (map fst (cc_cdf53_coverage c)))"

section \<open>Timers\<close>

definition ack_timeout :: "nat \<Rightarrow> ClientCore \<Rightarrow> ClientCore" where
  "ack_timeout now_us c =
     (let (dg, acks) = AckBatcher_on_timeout now_us (cc_ack_batcher c); c = c\<lparr> cc_ack_batcher := acks \<rparr>
      in case dg of
           Some dg \<Rightarrow>
             let c = push_out [Datagram dg] c in
             if cc_send_frame_acks c then
               (let (ack, w) = FrameAckWindow_take_due now_us (cc_frame_acks c)
                in push_frame_ack ack (c\<lparr> cc_frame_acks := w \<rparr>))
             else c
         | None \<Rightarrow>
             if cc_send_frame_acks c then
               (let (ack, w) = FrameAckWindow_take_overdue now_us (cc_frame_acks c)
                in push_frame_ack ack (c\<lparr> cc_frame_acks := w \<rparr>))
             else c)"

definition nack_timeout :: "nat \<Rightarrow> ClientCore \<Rightarrow> ClientCore" where
  "nack_timeout now_us c =
     (let (dg, nacks) = NackBatcher_on_timeout now_us (cc_nack_batcher c)
      in push_out (datagram_out dg) (c\<lparr> cc_nack_batcher := nacks \<rparr>))"

definition feedback_timeout :: "nat \<Rightarrow> ClientCore \<Rightarrow> ClientCore" where
  "feedback_timeout now_us c =
     (if now_us \<ge> cc_next_feedback_us c then
        (let (msg, loss) = LossTracker_encode_feedback now_us (cc_loss_tracker c)
         in push_out [PollStream msg] (c\<lparr> cc_loss_tracker := loss, cc_next_feedback_us := now_us + FEEDBACK_INTERVAL_US \<rparr>))
      else c)"

definition on_timeout :: "nat \<Rightarrow> ClientCore \<Rightarrow> ClientCore option" where
  "on_timeout now_us c =
     (let c = nack_timeout now_us (ack_timeout now_us c) in
      map_option (\<lambda>c. feedback_timeout now_us (tail_sweep now_us c))
        (case cc_pending_nack_deadline_us c of
           Some deadline \<Rightarrow> if now_us \<ge> deadline then flush_pending_nacks now_us c else Some c
         | None \<Rightarrow> Some c))"

definition encode_feedback :: "nat \<Rightarrow> ClientCore \<Rightarrow> bytes \<times> ClientCore" where
  "encode_feedback now_us c =
     (let (msg, loss) = LossTracker_encode_feedback now_us (cc_loss_tracker c) in (msg, c\<lparr> cc_loss_tracker := loss \<rparr>))"

section \<open>Diagnostics\<close>

definition cdf53_coverage_summary :: "ClientCore \<Rightarrow> Cdf53CoverageSummary" where
  "cdf53_coverage_summary c = summarize (map snd (cc_cdf53_coverage c)) MAX_TAIL_SWEEP_ATTEMPTS"

definition datagram_counts :: "ClientCore \<Rightarrow> u64 \<times> u64" where
  "datagram_counts c = (cc_datagrams_tile c, cc_datagrams_frame c)"

definition h264_not_output_stats :: "ClientCore \<Rightarrow> nat \<times> nat" where
  "h264_not_output_stats c = (cc_h264_not_output_total c, cc_h264_not_output_streak c)"

text \<open>\<^verbatim>\<open>Reverse\<close> on a byte is its complement.\<close>

definition cdf53_incomplete_tiles :: "nat \<Rightarrow> ClientCore \<Rightarrow> (u8 \<times> u8 \<times> u16 \<times> u16 \<times> u8) list" where
  "cdf53_incomplete_tiles limit c =
     take limit (sort_key (\<lambda>(x, y, mask, present, sweeps). (255 - sweeps, count_ones (present AND NOT mask), y, x))
       (List.map_filter (\<lambda>((x, y), e).
          Option.bind (ce_present_passes e) (\<lambda>present.
            if ce_pass_mask e AND present \<noteq> present
            then Some (x, y, ce_pass_mask e, present, ce_sweep_attempts e) else None))
        (cc_cdf53_coverage c)))"

section \<open>The queue of pending NACKs\<close>

lemma set_bt_insert: "set (map fst (bt_insert k v m)) = insert k (set (map fst m))"
  by (induction k v m rule: bt_insert.induct) (auto simp: image_iff)

lemma bt_insert_sorted: "sorted_wrt (<) (map fst m) \<Longrightarrow> sorted_wrt (<) (map fst (bt_insert k v m))"
proof (induction m)
  case (Cons p m)
  obtain k' v' where p: "p = (k', v')" by (cases p)
  show ?case using Cons set_bt_insert[of k v m] by (auto simp: p)
qed simp

lemma map_of_bt_insert:
  "sorted_wrt (<) (map fst m) \<Longrightarrow> map_of (bt_insert k v m) = (map_of m)(k \<mapsto> v)"
proof (induction m)
  case (Cons p m)
  obtain k' v' where p: "p = (k', v')" by (cases p)
  have "map_of m k = None" if "k < k'" using Cons.prems that by (force simp: p map_of_eq_None_iff)
  then show ?case using Cons by (auto simp: p fun_eq_iff)
qed simp

text \<open>A pending NACK is filed under its own pass and position, and its pass is a four-bit number.\<close>

definition nack_key :: "PendingNack \<Rightarrow> u8 \<times> u8 \<times> u8" where
  "nack_key p = (pn_pass_idx p, pn_tile_y p, pn_tile_x p)"

definition nacks_ok :: "ClientCore \<Rightarrow> bool" where
  "nacks_ok c \<longleftrightarrow> sorted_wrt (<) (map fst (cc_pending_nacks c)) \<and>
     (\<forall>(k, p) \<in> set (cc_pending_nacks c). k = nack_key p \<and> unat (pn_pass_idx p) < 16)"

lemma set_bt_insert_sub: "set (bt_insert k v m) \<subseteq> insert (k, v) (set m)"
  by (induction k v m rule: bt_insert.induct) auto

lemma queue_pass_nack_ok:
  assumes "nacks_ok c" "unat pass_idx < 16"
  shows "nacks_ok (queue_pass_nack frame_seq x y pass_idx now c)"
proof -
  let ?v = "\<lparr> pn_frame_seq = frame_seq, pn_tile_x = x, pn_tile_y = y, pn_pass_idx = pass_idx \<rparr> :: PendingNack"
  have "nacks_ok (c\<lparr> cc_pending_nacks := bt_insert (pass_idx, y, x) ?v (cc_pending_nacks c) \<rparr>)"
    using assms set_bt_insert_sub[of "(pass_idx, y, x)" ?v "cc_pending_nacks c"]
    by (fastforce simp: nacks_ok_def bt_insert_sorted nack_key_def)
  then show ?thesis using assms(1) by (simp add: queue_pass_nack_def Let_def nacks_ok_def)
qed

lemma queue_pass_nack_map_of:
  assumes "nacks_ok c"
  shows "map_of (cc_pending_nacks (queue_pass_nack frame_seq x y p now c)) =
    (if map_of (cc_pending_nacks c) (p, y, x) = None
     then (map_of (cc_pending_nacks c))((p, y, x) \<mapsto>
       \<lparr> pn_frame_seq = frame_seq, pn_tile_x = x, pn_tile_y = y, pn_pass_idx = p \<rparr>)
     else map_of (cc_pending_nacks c))"
  using assms by (simp add: queue_pass_nack_def Let_def map_of_bt_insert nacks_ok_def)

text \<open>Queueing touches the queue and its deadline only.\<close>

lemma queue_pass_nack_keeps [simp]:
  "cc_cdf53_coverage (queue_pass_nack f x y p now c) = cc_cdf53_coverage c"
  "cc_nack_batcher (queue_pass_nack f x y p now c) = cc_nack_batcher c"
  "cc_outbox (queue_pass_nack f x y p now c) = cc_outbox c"
  "cc_next_tail_sweep_us (queue_pass_nack f x y p now c) = cc_next_tail_sweep_us c"
  by (simp_all add: queue_pass_nack_def Let_def)

subsection \<open>Sending it\<close>

definition pass_arrived :: "ClientCore \<Rightarrow> PendingNack \<Rightarrow> bool" where
  "pass_arrived c p \<longleftrightarrow>
     (case om_get (pn_tile_x p, pn_tile_y p) (cc_cdf53_coverage c) of
        None \<Rightarrow> False | Some cov \<Rightarrow> bit (ce_pass_mask cov) (unat (pn_pass_idx p)))"

lemma arrived_since_Some: "unat (pn_pass_idx p) < 16 \<Longrightarrow> arrived_since p c = Some (pass_arrived c p)"
  by (auto simp: arrived_since_def pass_arrived_def bit_test[unfolded push_bit_of_1] split: option.split)

lemma flush_each_run:
  assumes "\<forall>p \<in> set ps. unat (pn_pass_idx p) < 16" "nkb_inv (cc_nack_batcher c)"
    "queued \<or> nkb_entries (cc_nack_batcher c) = []"
  shows "\<exists>queued' ds nacks.
    batch_run NackBatcher_step (cc_nack_batcher c) (map (\<lambda>p. Add (nack_entry p) now) (filter (Not \<circ> pass_arrived c) ps)) = (ds, nacks) \<and>
    flush_each ps now queued c =
      Some (queued', c\<lparr> cc_nack_batcher := nacks, cc_outbox := cc_outbox c @ map Datagram ds \<rparr>) \<and>
    (queued' \<or> nkb_entries nacks = [])"
  using assms
proof (induction ps arbitrary: queued c)
  case (Cons p ps)
  have p: "arrived_since p c = Some (pass_arrived c p)" using Cons.prems(1) by (simp add: arrived_since_Some)
  show ?case
  proof (cases "pass_arrived c p")
    case True
    then show ?thesis using Cons.IH[of c queued] Cons.prems p by simp
  next
    case False
    obtain dg nb where nb: "NackBatcher_add (nack_entry p) now (cc_nack_batcher c) = (dg, nb)" by fastforce
    then have st: "NackBatcher_step (cc_nack_batcher c) (Add (nack_entry p) now) = (dg, nb)" by simp
    define c' where "c' = c\<lparr> cc_nack_batcher := nb, cc_outbox := cc_outbox c @ map Datagram (case dg of None \<Rightarrow> [] | Some d \<Rightarrow> [d]) \<rparr>"
    have inv: "nkb_inv nb" using nack.step_inv[OF Cons.prems(2) st] .
    have "queued \<or> dg = None \<or> nkb_entries nb = []"
      using nack.step_some[OF Cons.prems(2), of "Add (nack_entry p) now" "the dg" nb] st by (cases dg) auto
    then have "(queued \<or> dg = None) \<or> nkb_entries (cc_nack_batcher c') = []" "nkb_inv (cc_nack_batcher c')"
      using inv by (auto simp: c'_def)
    with Cons.IH[of c' "queued \<or> dg = None"] Cons.prems(1)
    obtain queued' ds nacks where ih:
      "batch_run NackBatcher_step (cc_nack_batcher c') (map (\<lambda>p. Add (nack_entry p) now) (filter (Not \<circ> pass_arrived c') ps)) = (ds, nacks)"
      "flush_each ps now (queued \<or> dg = None) c' =
         Some (queued', c'\<lparr> cc_nack_batcher := nacks, cc_outbox := cc_outbox c' @ map Datagram ds \<rparr>)"
      "queued' \<or> nkb_entries nacks = []"
      by fastforce
    have c'nb: "cc_nack_batcher c' = nb" by (simp add: c'_def)
    have same: "pass_arrived c' = pass_arrived c" by (auto simp: pass_arrived_def c'_def fun_eq_iff)
    have eq: "flush_each (p # ps) now queued c = flush_each ps now (queued \<or> dg = None) c'"
      using p False nb by (cases dg) (auto simp: c'_def push_out_def Let_def)
    have "batch_run NackBatcher_step (cc_nack_batcher c) (map (\<lambda>p. Add (nack_entry p) now) (filter (Not \<circ> pass_arrived c) (p # ps))) =
        ((case dg of None \<Rightarrow> ds | Some d \<Rightarrow> d # ds), nacks)"
      using ih(1)[unfolded same] st False by (simp add: c'nb Let_def split: option.split)
    moreover have "cc_outbox c' @ map Datagram ds = cc_outbox c @ map Datagram (case dg of None \<Rightarrow> ds | Some d \<Rightarrow> d # ds)"
      by (cases dg) (simp_all add: c'_def)
    then have "flush_each (p # ps) now queued c = Some (queued',
        c\<lparr> cc_nack_batcher := nacks, cc_outbox := cc_outbox c @ map Datagram (case dg of None \<Rightarrow> ds | Some d \<Rightarrow> d # ds) \<rparr>)"
      unfolding eq ih(2) by (simp add: c'_def)
    ultimately show ?thesis using ih(3) by blast
  qed
qed (auto simp: comp_def)

lemma flush_pending_sends:
  assumes ok: "nacks_ok c" and inv: "nkb_inv (cc_nack_batcher c)" and empty: "nkb_entries (cc_nack_batcher c) = []"
  shows "\<exists>ds segs nacks. flush_pending_nacks now c =
      Some (c\<lparr> cc_pending_nack_deadline_us := None, cc_pending_nacks := [], cc_nack_batcher := nacks,
              cc_outbox := cc_outbox c @ map Datagram ds \<rparr>) \<and>
    nkb_inv nacks \<and> nkb_entries nacks = [] \<and> list_all2 nack_carries ds segs \<and>
    concat segs = map nack_entry (filter (Not \<circ> pass_arrived c) (map snd (cc_pending_nacks c)))"
proof (cases "cc_pending_nacks c = []")
  case True
  then show ?thesis using inv empty
    by (intro exI[of _ "[]"] exI[of _ "cc_nack_batcher c"]) (simp add: flush_pending_nacks_def)
next
  case False
  let ?ps = "map snd (cc_pending_nacks c)" and ?c = "c\<lparr> cc_pending_nack_deadline_us := None, cc_pending_nacks := [] \<rparr>"
  let ?es = "map nack_entry (filter (Not \<circ> pass_arrived c) ?ps)"
  have same: "pass_arrived ?c = pass_arrived c" by (auto simp: pass_arrived_def fun_eq_iff)
  have "\<forall>p \<in> set ?ps. unat (pn_pass_idx p) < 16" using ok by (auto simp: nacks_ok_def)
  from flush_each_run[OF this, of ?c False now] inv empty obtain q ds nb where run:
    "batch_run NackBatcher_step (cc_nack_batcher c) (map (\<lambda>p. Add (nack_entry p) now) (filter (Not \<circ> pass_arrived c) ?ps)) = (ds, nb)"
    "flush_each ?ps now False ?c = Some (q, ?c\<lparr> cc_nack_batcher := nb, cc_outbox := cc_outbox c @ map Datagram ds \<rparr>)"
    "q \<or> nkb_entries nb = []" by (auto simp: same)
  have "concat (map batch_added (map (\<lambda>p. Add (nack_entry p) now) (filter (Not \<circ> pass_arrived c) ?ps))) = ?es"
    by (simp add: comp_def)
  with nack.run_delivers[OF inv run(1)] obtain segs where segs: "nkb_inv nb" "list_all2 nack_carries ds segs"
    "concat segs @ nkb_entries nb = ?es" using empty by auto
  obtain dg nb' where fl: "NackBatcher_step nb Flush = (dg, nb')" by fastforce
  have inv': "nkb_inv nb'" using nack.step_inv[OF segs(1) fl] .
  show ?thesis
  proof (cases "q \<and> dg \<noteq> None")
    case True
    then obtain d where d: "dg = Some d" by auto
    have c: "nkb_entries nb' = []" "nack_carries d (nkb_entries nb)"
      using nack.step_some[OF segs(1), of Flush d nb'] fl d by auto
    then have "list_all2 nack_carries (ds @ [d]) (segs @ [nkb_entries nb])" using segs(2) by (simp add: list_all2_appendI)
    then show ?thesis using True False run(2) fl d c(1) inv' segs(3)
      by (intro exI[of _ "ds @ [d]"] exI[of _ "segs @ [nkb_entries nb]"] exI[of _ nb'])
        (simp add: flush_pending_nacks_def datagram_out_def push_out_def)
  next
    case none: False
    have e: "nkb_entries nb = []" "q \<Longrightarrow> nkb_entries nb' = [] \<and> dg = None"
      using run(3) none fl segs(1) by (auto simp: NackBatcher_flush_def Let_def split: if_splits)
    then show ?thesis using False run(2) fl inv' segs
      by (intro exI[of _ ds] exI[of _ segs] exI[of _ "if q then nb' else nb"])
        (auto simp: flush_pending_nacks_def datagram_out_def push_out_def)
  qed
qed

section \<open>Sweeping\<close>

definition sweep_entry :: "nat \<Rightarrow> CoverageEntry \<Rightarrow> CoverageEntry" where
  "sweep_entry now e = (if sweep_mask now e = 0 then e else mark_swept now (sweep_mask now e) e)"

lemma queue_missing_keeps [simp]:
  "cc_cdf53_coverage (queue_missing f key m now c) = cc_cdf53_coverage c"
  "cc_nack_batcher (queue_missing f key m now c) = cc_nack_batcher c"
  "cc_outbox (queue_missing f key m now c) = cc_outbox c"
  "cc_next_tail_sweep_us (queue_missing f key m now c) = cc_next_tail_sweep_us c"
proof -
  let ?q = "\<lambda>c p. if m AND push_bit p 1 \<noteq> 0 then queue_pass_nack f (fst key) (snd key) (of_nat p) now c else c"
  have "cc_cdf53_coverage (foldl ?q c ps) = cc_cdf53_coverage c \<and> cc_nack_batcher (foldl ?q c ps) = cc_nack_batcher c \<and>
      cc_outbox (foldl ?q c ps) = cc_outbox c \<and> cc_next_tail_sweep_us (foldl ?q c ps) = cc_next_tail_sweep_us c" for ps
    by (induction ps arbitrary: c) auto
  then show "cc_cdf53_coverage (queue_missing f key m now c) = cc_cdf53_coverage c"
    "cc_nack_batcher (queue_missing f key m now c) = cc_nack_batcher c"
    "cc_outbox (queue_missing f key m now c) = cc_outbox c"
    "cc_next_tail_sweep_us (queue_missing f key m now c) = cc_next_tail_sweep_us c"
    unfolding queue_missing_def by blast+
qed

lemma length_bt_insert: "length (bt_insert k v m) \<le> Suc (length m)"
  by (induction k v m rule: bt_insert.induct) auto

lemma queue_missing_queue:
  assumes "nacks_ok c"
  shows "nacks_ok (queue_missing f key m now c)"
    "length (cc_pending_nacks (queue_missing f key m now c)) \<le> length (cc_pending_nacks c) + 14"
proof -
  let ?q = "\<lambda>c p. if m AND push_bit p 1 \<noteq> 0 then queue_pass_nack f (fst key) (snd key) (of_nat p) now c else c"
  have "length (cc_pending_nacks (queue_pass_nack f x y p now c)) \<le> Suc (length (cc_pending_nacks c))" for x y p c
    by (simp add: queue_pass_nack_def Let_def length_bt_insert)
  note len = this[THEN order_trans]
  have "nacks_ok (foldl ?q c ps) \<and> length (cc_pending_nacks (foldl ?q c ps)) \<le> length (cc_pending_nacks c) + length ps"
    if "\<forall>p \<in> set ps. p < 16" for ps using that
  proof (induction ps rule: rev_induct)
    case (snoc p ps)
    then show ?case by (auto intro!: queue_pass_nack_ok len simp: unat_of_nat)
  qed (simp add: assms)
  from this[of "[0..<14]"] show "nacks_ok (queue_missing f key m now c)"
    "length (cc_pending_nacks (queue_missing f key m now c)) \<le> length (cc_pending_nacks c) + 14"
    by (auto simp: queue_missing_def simp del: upt_rec_numeral)
qed

text \<open>What is left to ask for: six sweeps for each tile, less those it has had.\<close>

definition attempts_left :: "CoverageEntry \<Rightarrow> nat" where
  "attempts_left e = 6 - unat (ce_sweep_attempts e)"

definition budget :: "ClientCore \<Rightarrow> nat" where
  "budget c = (\<Sum>k \<leftarrow> map fst (cc_cdf53_coverage c). case om_get k (cc_cdf53_coverage c) of Some e \<Rightarrow> attempts_left e | None \<Rightarrow> 0)"

lemma sweep_entry_attempts:
  assumes "sweep_mask now e \<noteq> 0" shows "attempts_left e = Suc (attempts_left (sweep_entry now e))"
proof -
  have "ce_sweep_attempts e < 6"
    using assms by (auto simp: sweep_mask_def MAX_TAIL_SWEEP_ATTEMPTS_def not_le split: option.splits if_splits)
  then have "unat (ce_sweep_attempts e) < 6" "unat (sat_add (ce_sweep_attempts e) 1) = unat (ce_sweep_attempts e) + 1"
    by (auto simp: word_less_nat_alt sat_add_def unat_word_ariths)
  then show ?thesis using assms by (simp add: sweep_entry_def mark_swept_def attempts_left_def)
qed

lemma sweep_tile_coverage:
  assumes "distinct (map fst (cc_cdf53_coverage c))"
  shows "map fst (cc_cdf53_coverage (sweep_tile now c key)) = map fst (cc_cdf53_coverage c)"
    "om_get k (cc_cdf53_coverage (sweep_tile now c key)) =
       (if k = key then map_option (sweep_entry now) (om_get k (cc_cdf53_coverage c)) else om_get k (cc_cdf53_coverage c))"
  using assms by (auto simp: sweep_tile_def Let_def om_set_facts sweep_entry_def split: option.splits)

lemma sweep_fold_coverage:
  fixes now :: nat
  assumes "distinct (map fst (cc_cdf53_coverage c))" "distinct keys"
  defines "c' \<equiv> foldl (sweep_tile now) c keys"
  shows "map fst (cc_cdf53_coverage c') = map fst (cc_cdf53_coverage c)"
    "om_get k (cc_cdf53_coverage c') =
       (if k \<in> set keys then map_option (sweep_entry now) (om_get k (cc_cdf53_coverage c)) else om_get k (cc_cdf53_coverage c))"
  using assms(2) unfolding c'_def
proof (induction keys rule: rev_induct)
  case (snoc key keys)
  { case 1 then show ?case using snoc assms(1) by (simp add: sweep_tile_coverage) }
  { case 2 then show ?case using snoc assms(1) by (auto simp: sweep_tile_coverage) }
qed simp_all

text \<open>Each swept tile pays for at most fourteen NACKs with one of its six sweeps.\<close>

lemma sum_list_upd:
  fixes f g :: "'k \<Rightarrow> nat"
  assumes "distinct ks" "key \<in> set ks" "f key = Suc (g key)" "\<And>k. k \<in> set ks \<Longrightarrow> k \<noteq> key \<Longrightarrow> f k = g k"
  shows "(\<Sum>k \<leftarrow> ks. f k) = Suc (\<Sum>k \<leftarrow> ks. g k)"
proof -
  have "(\<Sum>k \<in> set ks. f k) = f key + (\<Sum>k \<in> set ks - {key}. f k)" "(\<Sum>k \<in> set ks. g k) = g key + (\<Sum>k \<in> set ks - {key}. g k)"
    using assms(2) by (simp_all add: sum.remove)
  moreover have "(\<Sum>k \<in> set ks - {key}. f k) = (\<Sum>k \<in> set ks - {key}. g k)" using assms(4) by (intro sum.cong) auto
  ultimately show ?thesis using assms(1,3) by (simp add: sum_list_distinct_conv_sum_set)
qed

lemma sweep_tile_pays:
  fixes now :: nat and key :: "u8 \<times> u8"
  assumes ok: "nacks_ok c" "distinct (map fst (cc_cdf53_coverage c))"
  defines "c' \<equiv> sweep_tile now c key"
  shows "nacks_ok c'" "cc_nack_batcher c' = cc_nack_batcher c" "cc_outbox c' = cc_outbox c"
    "length (cc_pending_nacks c') + 14 * budget c' \<le> length (cc_pending_nacks c) + 14 * budget c"
    "budget c' \<le> budget c" "cc_pending_nacks c' \<noteq> cc_pending_nacks c \<Longrightarrow> budget c' < budget c"
proof -
  have "nacks_ok c' \<and> cc_nack_batcher c' = cc_nack_batcher c \<and> cc_outbox c' = cc_outbox c \<and>
      (c' = c \<or> length (cc_pending_nacks c') \<le> length (cc_pending_nacks c) + 14 \<and> budget c = Suc (budget c'))"
  proof (cases "om_get key (cc_cdf53_coverage c)")
    case None
    then show ?thesis using ok by (simp add: c'_def sweep_tile_def)
  next
    case (Some e)
    show ?thesis
    proof (cases "sweep_mask now e = 0")
      case True
      then show ?thesis using ok Some by (simp add: c'_def sweep_tile_def)
    next
      case False
      have "key \<in> set (map fst (cc_cdf53_coverage c))" using Some om_get_None[of key "cc_cdf53_coverage c"] by auto
      then have "budget c = Suc (budget c')" unfolding budget_def c'_def sweep_tile_coverage(1)[OF ok(2)]
        by (intro sum_list_upd[OF ok(2)])
          (use Some sweep_entry_attempts[OF False] in \<open>simp_all add: sweep_tile_coverage(2)[OF ok(2)]\<close>)
      moreover have "c' = (queue_missing (ce_frame_seq e) key (sweep_mask now e) now c)
          \<lparr> cc_cdf53_coverage := om_set key (mark_swept now (sweep_mask now e) e) (cc_cdf53_coverage c) \<rparr>"
        using Some False by (simp add: c'_def sweep_tile_def Let_def)
      ultimately show ?thesis using queue_missing_queue[OF ok(1), of "ce_frame_seq e" key "sweep_mask now e" now]
        by (simp add: nacks_ok_def)
    qed
  qed
  then show "nacks_ok c'" "cc_nack_batcher c' = cc_nack_batcher c" "cc_outbox c' = cc_outbox c"
    "length (cc_pending_nacks c') + 14 * budget c' \<le> length (cc_pending_nacks c) + 14 * budget c"
    "budget c' \<le> budget c" "cc_pending_nacks c' \<noteq> cc_pending_nacks c \<Longrightarrow> budget c' < budget c" by auto
qed

subsection \<open>A quiet client\<close>

text \<open>Timer calls with no datagram between them.\<close>

fun timeouts :: "nat list \<Rightarrow> ClientCore \<Rightarrow> ClientCore option" where
  "timeouts [] c = Some c"
| "timeouts (t # ts) c = Option.bind (on_timeout t c) (timeouts ts)"

text \<open>The NACK entries in the datagrams of the outbox.\<close>

definition nacks_in :: "PollOutput \<Rightarrow> TileNackEntry list" where
  "nacks_in m = (case m of
     Datagram d \<Rightarrow> (case TileNackEnvelope_decode d of Inr env \<Rightarrow> nk_entries env | Inl _ \<Rightarrow> [])
   | PollStream _ \<Rightarrow> [])"

definition nacks_sent :: "ClientCore \<Rightarrow> TileNackEntry list" where
  "nacks_sent c = concat (map nacks_in (cc_outbox c))"

definition quiet_ok :: "ClientCore \<Rightarrow> bool" where
  "quiet_ok c \<longleftrightarrow> nacks_ok c \<and> distinct (map fst (cc_cdf53_coverage c)) \<and> nkb_inv (cc_nack_batcher c) \<and>
     nkb_entries (cc_nack_batcher c) = []"

lemma nacks_in_others:
  "nacks_in (PollStream b) = []" "nacks_in (Datagram (FrameAck_encode ack [])) = []" "nacks_in (Datagram (AckBatch_encode ab)) = []"
  by (simp_all add: nacks_in_def TileNackEnvelope_decode_def FrameAck_encode_def AckBatch_encode_def
      TILE_NACK_ENVELOPE_def FRAME_ACK_ENVELOPE_def ACK_BATCH_MSG_TYPE_def)

lemma nacks_in_carried: "list_all2 nack_carries ds segs \<Longrightarrow> concat (map nacks_in (map Datagram ds)) = concat segs"
  by (induction ds segs rule: list_all2_induct) (simp_all add: nacks_in_def nack_carries_def)

text \<open>The timers other than the NACK flush and the sweep leave the NACKs and the coverage alone.\<close>

definition same_nacks :: "ClientCore \<Rightarrow> ClientCore \<Rightarrow> bool" where
  "same_nacks c c' \<longleftrightarrow> cc_cdf53_coverage c' = cc_cdf53_coverage c \<and> cc_pending_nacks c' = cc_pending_nacks c \<and>
     cc_nack_batcher c' = cc_nack_batcher c \<and> cc_next_tail_sweep_us c' = cc_next_tail_sweep_us c \<and> nacks_sent c' = nacks_sent c"

lemma same_nacks_facts:
  assumes "same_nacks c c'"
  shows "quiet_ok c' = quiet_ok c" "budget c' = budget c" "cc_pending_nacks c' = cc_pending_nacks c"
    "cc_cdf53_coverage c' = cc_cdf53_coverage c" "nacks_sent c' = nacks_sent c" "cc_next_tail_sweep_us c' = cc_next_tail_sweep_us c"
  using assms by (simp_all add: same_nacks_def quiet_ok_def nacks_ok_def budget_def)

lemma ack_timeout_same: "same_nacks c (ack_timeout now c)"
proof -
  obtain dg acks where a: "AckBatcher_on_timeout now (cc_ack_batcher c) = (dg, acks)" by fastforce
  have "nacks_in (Datagram d) = []" if "dg = Some d" for d
    using a that nacks_in_others(3)
    by (auto simp: AckBatcher_on_timeout_def AckBatcher_flush_def Let_def split: option.splits if_splits)
  then show ?thesis
    by (cases dg) (auto simp: ack_timeout_def a same_nacks_def nacks_sent_def push_out_def push_frame_ack_def nacks_in_others
        Let_def split: option.splits prod.splits)
qed

lemma nack_timeout_same: "quiet_ok c \<Longrightarrow> same_nacks c (nack_timeout now c)"
  by (auto simp: quiet_ok_def nkb_inv_def nack_timeout_def NackBatcher_on_timeout_def same_nacks_def nacks_sent_def
      push_out_def datagram_out_def)

lemma feedback_timeout_same: "same_nacks c (feedback_timeout now c)"
  by (auto simp: feedback_timeout_def same_nacks_def nacks_sent_def push_out_def nacks_in_others split: prod.splits)

lemma flush_pending_quiet:
  assumes "quiet_ok c"
  shows "\<exists>c'. flush_pending_nacks now c = Some c' \<and> quiet_ok c' \<and> cc_cdf53_coverage c' = cc_cdf53_coverage c \<and>
    budget c' = budget c \<and> cc_next_tail_sweep_us c' = cc_next_tail_sweep_us c \<and>
    length (nacks_sent c') + length (cc_pending_nacks c') \<le> length (nacks_sent c) + length (cc_pending_nacks c)"
proof -
  obtain ds segs nacks where f: "flush_pending_nacks now c =
      Some (c\<lparr> cc_pending_nack_deadline_us := None, cc_pending_nacks := [], cc_nack_batcher := nacks,
              cc_outbox := cc_outbox c @ map Datagram ds \<rparr>)"
    "nkb_inv nacks" "nkb_entries nacks = []" "list_all2 nack_carries ds segs"
    "concat segs = map nack_entry (filter (Not \<circ> pass_arrived c) (map snd (cc_pending_nacks c)))"
    using flush_pending_sends[of c now] assms by (auto simp: quiet_ok_def)
  have "length (concat segs) \<le> length (cc_pending_nacks c)" using length_filter_le[of _ "map snd (cc_pending_nacks c)"] by (simp add: f(5))
  then show ?thesis using f assms nacks_in_carried[OF f(4)]
    by (simp add: quiet_ok_def nacks_ok_def budget_def nacks_sent_def)
qed

definition asks :: "nat \<Rightarrow> ClientCore \<Rightarrow> bool" where
  "asks t c \<longleftrightarrow> cc_next_tail_sweep_us c \<le> t \<and> (\<exists>(k, e) \<in> set (cc_cdf53_coverage c). sweep_mask t e \<noteq> 0)"

lemma sweep_fold_pays:
  assumes "quiet_ok c"
  shows "quiet_ok (foldl (sweep_tile now) c keys) \<and> nacks_sent (foldl (sweep_tile now) c keys) = nacks_sent c \<and>
    length (cc_pending_nacks (foldl (sweep_tile now) c keys)) + 14 * budget (foldl (sweep_tile now) c keys)
      \<le> length (cc_pending_nacks c) + 14 * budget c \<and> budget (foldl (sweep_tile now) c keys) \<le> budget c"
proof (induction keys rule: rev_induct)
  case (snoc key keys)
  let ?c = "foldl (sweep_tile now) c keys"
  have ok: "nacks_ok ?c" "distinct (map fst (cc_cdf53_coverage ?c))" using snoc by (simp_all add: quiet_ok_def)
  show ?case using sweep_tile_pays[OF ok, of now key] sweep_tile_coverage(1)[OF ok(2), of now key] snoc
    by (auto simp: quiet_ok_def nacks_sent_def)
qed (simp add: assms)

lemma sweep_fold_asks:
  assumes "quiet_ok c" "(k, e) \<in> set (cc_cdf53_coverage c)" "sweep_mask now e \<noteq> 0"
  shows "budget (foldl (sweep_tile now) c (map fst (cc_cdf53_coverage c))) < budget c"
proof -
  have d: "distinct (map fst (cc_cdf53_coverage c))" using assms(1) by (simp add: quiet_ok_def)
  have get: "om_get k (cc_cdf53_coverage c) = Some e" using assms(2) d by (simp add: om_get_map_of)
  let ?ks = "map fst (cc_cdf53_coverage c)"
  let ?f = "\<lambda>k. case om_get k (cc_cdf53_coverage c) of Some e \<Rightarrow> attempts_left e | None \<Rightarrow> 0"
  let ?g = "\<lambda>k. case map_option (sweep_entry now) (om_get k (cc_cdf53_coverage c)) of Some e \<Rightarrow> attempts_left e | None \<Rightarrow> 0"
  have le: "attempts_left (sweep_entry now e) \<le> attempts_left e" for e
    using sweep_entry_attempts[of now e] by (cases "sweep_mask now e = 0") (auto simp: sweep_entry_def)
  have "(\<Sum>k \<in> set ?ks. ?g k) < (\<Sum>k \<in> set ?ks. ?f k)"
  proof (rule sum_strict_mono_ex1)
    show "\<forall>k \<in> set ?ks. ?g k \<le> ?f k" using le by (auto split: option.split)
    show "\<exists>k \<in> set ?ks. ?g k < ?f k"
      using assms(2) get sweep_entry_attempts[OF assms(3)] by (force intro!: bexI[of _ k])
  qed simp
  moreover have "budget c = (\<Sum>k \<in> set ?ks. ?f k)"
    unfolding budget_def sum_list_distinct_conv_sum_set[OF d] ..
  moreover have "budget (foldl (sweep_tile now) c ?ks) = (\<Sum>k \<in> set ?ks. ?g k)"
    unfolding budget_def sweep_fold_coverage(1)[OF d d] sum_list_distinct_conv_sum_set[OF d]
    by (rule sum.cong[OF refl]) (simp only: sweep_fold_coverage(2)[OF d d] if_True)
  ultimately show ?thesis by simp
qed

lemma tail_sweep_pays:
  assumes "quiet_ok c"
  shows "quiet_ok (tail_sweep now c)" "nacks_sent (tail_sweep now c) = nacks_sent c"
    "length (cc_pending_nacks (tail_sweep now c)) + 14 * budget (tail_sweep now c) \<le> length (cc_pending_nacks c) + 14 * budget c"
    "budget (tail_sweep now c) + of_bool (asks now c) \<le> budget c"
proof -
  let ?c = "c\<lparr> cc_next_tail_sweep_us := now + TAIL_SWEEP_INTERVAL_US \<rparr>"
  have c: "quiet_ok ?c" "nacks_sent ?c = nacks_sent c" "budget ?c = budget c"
    using assms by (simp_all add: quiet_ok_def nacks_ok_def nacks_sent_def budget_def)
  note pays = sweep_fold_pays[OF c(1), of now "map fst (cc_cdf53_coverage c)"]
  have "budget (foldl (sweep_tile now) ?c (map fst (cc_cdf53_coverage c))) < budget c" if "asks now c"
    using that sweep_fold_asks[OF c(1)] c(3) by (auto simp: asks_def)
  then show "budget (tail_sweep now c) + of_bool (asks now c) \<le> budget c"
    using pays c by (cases "asks now c") (auto simp: tail_sweep_def asks_def)
  show "quiet_ok (tail_sweep now c)" "nacks_sent (tail_sweep now c) = nacks_sent c"
    "length (cc_pending_nacks (tail_sweep now c)) + 14 * budget (tail_sweep now c) \<le> length (cc_pending_nacks c) + 14 * budget c"
    using pays assms c by (auto simp: tail_sweep_def)
qed

lemma on_timeout_pays:
  assumes ok: "quiet_ok c"
  obtains b c' where "on_timeout now c = Some c'" "quiet_ok c'" "budget c' + of_bool (asks now c) \<le> budget c"
    "length (nacks_sent c') + length (cc_pending_nacks c') + 14 * budget c'
       \<le> length (nacks_sent c) + length (cc_pending_nacks c) + 14 * budget c"
    "quiet_ok b" "cc_cdf53_coverage b = cc_cdf53_coverage c" "cc_next_tail_sweep_us b = cc_next_tail_sweep_us c"
    "same_nacks (tail_sweep now b) c'"
proof -
  let ?a = "nack_timeout now (ack_timeout now c)"
  note a1 = same_nacks_facts[OF ack_timeout_same[of c now]]
  have a2: "same_nacks c ?a"
    using ack_timeout_same[of c now] nack_timeout_same[of "ack_timeout now c" now] ok a1(1) by (simp add: same_nacks_def)
  note a = same_nacks_facts[OF a2]
  have oka: "quiet_ok ?a" using ok a(1) by simp
  obtain f where f: "flush_pending_nacks now ?a = Some f" "quiet_ok f" "cc_cdf53_coverage f = cc_cdf53_coverage ?a"
    "budget f = budget ?a" "cc_next_tail_sweep_us f = cc_next_tail_sweep_us ?a"
    "length (nacks_sent f) + length (cc_pending_nacks f) \<le> length (nacks_sent ?a) + length (cc_pending_nacks ?a)"
    using flush_pending_quiet[OF oka, of now] by blast
  define b where "b = (case cc_pending_nack_deadline_us ?a of Some d \<Rightarrow> if d \<le> now then f else ?a | None \<Rightarrow> ?a)"
  have cases: "b = f \<or> b = ?a" by (simp add: b_def split: option.split)
  have b: "(case cc_pending_nack_deadline_us ?a of
        Some deadline \<Rightarrow> if now \<ge> deadline then flush_pending_nacks now ?a else Some ?a | None \<Rightarrow> Some ?a) = Some b"
    "quiet_ok b" "cc_cdf53_coverage b = cc_cdf53_coverage ?a" "budget b = budget ?a" "cc_next_tail_sweep_us b = cc_next_tail_sweep_us ?a"
    "length (nacks_sent b) + length (cc_pending_nacks b) \<le> length (nacks_sent ?a) + length (cc_pending_nacks ?a)"
    by (simp add: b_def f(1) split: option.split) (use cases f oka in auto)
  have eq: "asks now b = asks now c" using a b by (simp add: asks_def)
  note t = tail_sweep_pays[OF b(2), of now] and f = same_nacks_facts[OF feedback_timeout_same[of "tail_sweep now b" now]]
  show thesis
    by (rule that[of "feedback_timeout now (tail_sweep now b)" b])
      (use a b t f eq feedback_timeout_same[of "tail_sweep now b" now] in \<open>simp_all add: on_timeout_def Let_def\<close>)
qed

fun asking_calls :: "nat list \<Rightarrow> ClientCore \<Rightarrow> nat" where
  "asking_calls [] c = 0"
| "asking_calls (t # ts) c = of_bool (asks t c) + (case on_timeout t c of Some c \<Rightarrow> asking_calls ts c | None \<Rightarrow> 0)"

lemma timeouts_pay:
  assumes "quiet_ok c"
  shows "\<exists>c'. timeouts ts c = Some c' \<and> quiet_ok c' \<and> asking_calls ts c + budget c' \<le> budget c \<and>
    length (nacks_sent c') + length (cc_pending_nacks c') + 14 * budget c'
      \<le> length (nacks_sent c) + length (cc_pending_nacks c) + 14 * budget c"
  using assms
proof (induction ts arbitrary: c)
  case (Cons t ts)
  from Cons.prems obtain c1 where c1: "on_timeout t c = Some c1" "quiet_ok c1" "budget c1 + of_bool (asks t c) \<le> budget c"
    "length (nacks_sent c1) + length (cc_pending_nacks c1) + 14 * budget c1
       \<le> length (nacks_sent c) + length (cc_pending_nacks c) + 14 * budget c"
    by (rule on_timeout_pays) (rule that; assumption)
  from Cons.IH[OF c1(2)] show ?case using c1 by auto
qed simp

subsection \<open>A stalled tile is asked for\<close>

text \<open>The passes a tile lacks and a later pass has overtaken.\<close>

definition overtaken :: "CoverageEntry \<Rightarrow> u16" where
  "overtaken e =
     (case ce_present_passes e of
        Some present \<Rightarrow> if ce_pass_mask e = present then 0 else gap_evidence_mask (present AND NOT (ce_pass_mask e)) e
      | None \<Rightarrow> gap_evidence_mask 1 e)"

lemma sweep_mask_overtaken:
  "sweep_mask now e = (if now - ce_last_change_us e < TAIL_FALLBACK_US \<or> ce_sweep_attempts e \<ge> MAX_TAIL_SWEEP_ATTEMPTS
     then 0 else overtaken e)"
  by (auto simp: sweep_mask_def overtaken_def Let_def split: option.split)

fun spaced :: "nat \<Rightarrow> nat list \<Rightarrow> bool" where
  "spaced t0 [] \<longleftrightarrow> True"
| "spaced t0 (t # ts) \<longleftrightarrow> t0 + TAIL_FALLBACK_US \<le> t \<and> spaced t ts"

lemma tail_sweep_entry:
  assumes "quiet_ok c" "om_get k (cc_cdf53_coverage c) = Some e" "cc_next_tail_sweep_us c \<le> now"
  shows "om_get k (cc_cdf53_coverage (tail_sweep now c)) = Some (sweep_entry now e)"
proof -
  have "k \<in> set (map fst (cc_cdf53_coverage c))" using assms(2) om_get_None[of k "cc_cdf53_coverage c"] by auto
  moreover have "distinct (map fst (cc_cdf53_coverage c))" using assms(1) by (simp add: quiet_ok_def)
  ultimately show ?thesis using assms(2,3)
    sweep_fold_coverage(2)[of "c\<lparr> cc_next_tail_sweep_us := now + TAIL_SWEEP_INTERVAL_US \<rparr>" "map fst (cc_cdf53_coverage c)" k now]
    by (simp add: tail_sweep_def)
qed

lemma queue_pass_nack_keys:
  "set (map fst (cc_pending_nacks (queue_pass_nack f x y p now c))) = insert (p, y, x) (set (map fst (cc_pending_nacks c)))"
  using set_bt_insert[of "(p, y, x)" _ "cc_pending_nacks c"]
  by (auto simp: queue_pass_nack_def Let_def map_of_eq_None_iff)

lemma queue_missing_keys:
  "set (map fst (cc_pending_nacks (queue_missing f key m now c))) =
     set (map fst (cc_pending_nacks c)) \<union> (\<lambda>p. (of_nat p, snd key, fst key)) ` {p. p < 14 \<and> bit m p}"
proof -
  let ?q = "\<lambda>c p. if m AND push_bit p 1 \<noteq> 0 then queue_pass_nack f (fst key) (snd key) (of_nat p) now c else c"
  have "set (map fst (cc_pending_nacks (foldl ?q c ps))) =
      set (map fst (cc_pending_nacks c)) \<union> (\<lambda>p. (of_nat p, snd key, fst key)) ` {p \<in> set ps. bit m p}" for ps
    by (induction ps rule: rev_induct) (auto simp: queue_pass_nack_keys bit_test simp del: set_map push_bit_of_1)
  from this[of "[0..<14]"] show ?thesis by (simp add: queue_missing_def del: set_map upt_rec_numeral)
qed

lemma sweep_fold_queues:
  assumes "distinct (map fst (cc_cdf53_coverage c))" "distinct keys"
  shows "set (map fst (cc_pending_nacks (foldl (sweep_tile now) c keys))) =
    set (map fst (cc_pending_nacks c)) \<union>
    {(of_nat p, y, x) | p x y e. (x, y) \<in> set keys \<and> om_get (x, y) (cc_cdf53_coverage c) = Some e \<and> p < 14 \<and> bit (sweep_mask now e) p}"
  using assms(2)
proof (induction keys rule: rev_induct)
  case (snoc key keys)
  let ?c = "foldl (sweep_tile now) c keys"
  have get: "om_get key (cc_cdf53_coverage ?c) = om_get key (cc_cdf53_coverage c)"
    using sweep_fold_coverage(2)[OF assms(1), of keys key now] snoc.prems by simp
  have "set (map fst (cc_pending_nacks (sweep_tile now ?c key))) = set (map fst (cc_pending_nacks ?c)) \<union>
      {(of_nat p, snd key, fst key) | p e. om_get key (cc_cdf53_coverage c) = Some e \<and> p < 14 \<and> bit (sweep_mask now e) p}"
    by (auto simp: sweep_tile_def get Let_def queue_missing_keys simp del: set_map split: option.split)
  then show ?case using snoc by (cases key) (auto simp del: set_map)
qed simp

lemma tail_sweep_queues:
  assumes "quiet_ok c" "om_get (x, y) (cc_cdf53_coverage c) = Some e" "cc_next_tail_sweep_us c \<le> now"
    "p < 14" "bit (sweep_mask now e) p"
  shows "(of_nat p, y, x) \<in> set (map fst (cc_pending_nacks (tail_sweep now c)))"
proof -
  let ?c = "c\<lparr> cc_next_tail_sweep_us := now + TAIL_SWEEP_INTERVAL_US \<rparr>"
  have "(x, y) \<in> set (map fst (cc_cdf53_coverage c))" using assms(2) om_get_None[of "(x, y)" "cc_cdf53_coverage c"] by auto
  moreover have "distinct (map fst (cc_cdf53_coverage c))" using assms(1) by (simp add: quiet_ok_def)
  ultimately show ?thesis using assms(2-5) sweep_fold_queues[of ?c "map fst (cc_cdf53_coverage c)" now]
    by (auto simp: tail_sweep_def simp del: set_map)
qed

text \<open>Spaced sweeps count up to six; the last one, if it is one of the six, queues every pass.\<close>

lemma spaced_sweeps:
  assumes "quiet_ok c" "om_get (x, y) (cc_cdf53_coverage c) = Some e" "overtaken e \<noteq> 0"
    "ce_last_change_us e \<le> t0" "cc_next_tail_sweep_us c \<le> t0 + TAIL_FALLBACK_US" "spaced t0 ts" "unat (ce_sweep_attempts e) \<le> 6"
    "timeouts ts c = Some c'"
  shows "(\<exists>e'. om_get (x, y) (cc_cdf53_coverage c') = Some e' \<and> overtaken e' = overtaken e \<and>
      unat (ce_sweep_attempts e') = min 6 (unat (ce_sweep_attempts e) + length ts)) \<and>
    (ts \<noteq> [] \<and> unat (ce_sweep_attempts e) + length ts \<le> 6 \<longrightarrow>
      (\<forall>p < 14. bit (overtaken e) p \<longrightarrow> (of_nat p, y, x) \<in> set (map fst (cc_pending_nacks c'))))"
  using assms
proof (induction ts arbitrary: c e t0)
  case (Cons t ts)
  from Cons.prems(1) obtain b c1 where c1: "on_timeout t c = Some c1" "quiet_ok c1" "quiet_ok b"
    "cc_cdf53_coverage b = cc_cdf53_coverage c" "cc_next_tail_sweep_us b = cc_next_tail_sweep_us c" "same_nacks (tail_sweep t b) c1"
    by (rule on_timeout_pays) (rule that; assumption)
  have t: "t0 + TAIL_FALLBACK_US \<le> t" "spaced t ts" and run: "timeouts ts c1 = Some c'" using Cons.prems(6,8) c1(1) by auto
  have due: "cc_next_tail_sweep_us b \<le> t" "om_get (x, y) (cc_cdf53_coverage b) = Some e" using Cons.prems(2,5) c1(4,5) t by auto
  have get: "om_get (x, y) (cc_cdf53_coverage c1) = Some (sweep_entry t e)"
    using tail_sweep_entry[OF c1(3) due(2,1)] c1(6) by (simp add: same_nacks_def)
  have mask: "sweep_mask t e = (if unat (ce_sweep_attempts e) < 6 then overtaken e else 0)"
    using t Cons.prems(4) by (auto simp: sweep_mask_overtaken MAX_TAIL_SWEEP_ATTEMPTS_def word_le_nat_alt)
  have e': "overtaken (sweep_entry t e) = overtaken e" "ce_last_change_us (sweep_entry t e) \<le> t"
    "unat (ce_sweep_attempts (sweep_entry t e)) = min 6 (unat (ce_sweep_attempts e) + 1)"
    using mask Cons.prems(3,4,7) t
    by (auto simp: sweep_entry_def mark_swept_def overtaken_def gap_evidence_mask_def unat_sat_add split: option.split)
  have next_sweep: "cc_next_tail_sweep_us c1 \<le> t + TAIL_FALLBACK_US"
  proof -
    have "cc_next_tail_sweep_us (foldl (sweep_tile t) d keys) = cc_next_tail_sweep_us d" for d keys
      by (induction keys arbitrary: d) (auto simp: sweep_tile_def Let_def split: option.split)
    then show ?thesis using c1(6) due(1) by (simp add: same_nacks_def tail_sweep_def TAIL_SWEEP_INTERVAL_US_def TAIL_FALLBACK_US_def)
  qed
  note ih = Cons.IH[OF c1(2) get _ e'(2) next_sweep t(2) _ run, unfolded e'(1,3), OF Cons.prems(3)]
  have queued: "(of_nat p, y, x) \<in> set (map fst (cc_pending_nacks c1))"
    if "unat (ce_sweep_attempts e) < 6" "p < 14" "bit (overtaken e) p" for p
    using tail_sweep_queues[OF c1(3) due(2,1) that(2), folded] that mask same_nacks_facts(3)[OF c1(6)] by simp
  show ?case
  proof (cases ts)
    case Nil
    then show ?thesis using run get e' queued by auto
  next
    case (Cons t' ts')
    then show ?thesis using ih by auto
  qed
qed auto

subsection \<open>A series of requests\<close>

definition queue_all :: "(u32 \<times> u8 \<times> u8 \<times> u8) list \<Rightarrow> nat \<Rightarrow> ClientCore \<Rightarrow> ClientCore" where
  "queue_all qs now c = foldl (\<lambda>c (frame_seq, x, y, pass). queue_pass_nack frame_seq x y pass now c) c qs"

definition queue_label :: "(u32 \<times> u8 \<times> u8 \<times> u8) list \<Rightarrow> u8 \<times> u8 \<times> u8 \<Rightarrow> u32 option" where
  "queue_label qs = map_of (map (\<lambda>(frame_seq, x, y, pass). ((pass, y, x), frame_seq)) qs)"

definition pending_nack :: "u8 \<times> u8 \<times> u8 \<Rightarrow> u32 \<Rightarrow> PendingNack" where
  "pending_nack k frame_seq = \<lparr> pn_frame_seq = frame_seq, pn_tile_x = snd (snd k), pn_tile_y = fst (snd k), pn_pass_idx = fst k \<rparr>"

lemma queue_all_quiet:
  assumes "quiet_ok c" "\<forall>(f, x, y, p) \<in> set qs. unat p < 16"
  shows "quiet_ok (queue_all qs now c) \<and> nacks_sent (queue_all qs now c) = nacks_sent c \<and>
    cc_cdf53_coverage (queue_all qs now c) = cc_cdf53_coverage c \<and>
    map_of (cc_pending_nacks (queue_all qs now c)) k =
      (case map_of (cc_pending_nacks c) k of Some p \<Rightarrow> Some p | None \<Rightarrow> map_option (pending_nack k) (queue_label qs k))"
  using assms
proof (induction qs arbitrary: c)
  case (Cons q qs)
  obtain f x y p where q: "q = (f, x, y, p)" by (cases q)
  let ?c = "queue_pass_nack f x y p now c"
  have ok: "nacks_ok c" "unat p < 16" using Cons.prems by (simp_all add: quiet_ok_def q)
  then have "quiet_ok ?c" using Cons.prems(1) queue_pass_nack_ok[OF ok] by (simp add: quiet_ok_def)
  from Cons.IH[OF this] Cons.prems(2) show ?case
    using queue_pass_nack_map_of[OF ok(1), of f x y p now]
    by (auto simp: q queue_all_def queue_label_def pending_nack_def nacks_sent_def split: option.splits if_splits)
qed (simp add: queue_all_def queue_label_def split: option.split)

definition pass_major :: "TileNackEntry \<Rightarrow> u8 \<times> u8 \<times> u8" where
  "pass_major n = (ne_pass_idx n, ne_tile_y n, ne_tile_x n)"

lemma quiet_new: "quiet_ok (ClientCore_new config now)"
  by (simp add: quiet_ok_def nacks_ok_def ClientCore_new_def Let_def set_cdf53_wire_def set_tile_delivery_def push_out_def
      NackBatcher_new_def nkb_inv_def split: option.split)

lemma nothing_new: "cc_pending_nacks (ClientCore_new config now) = []" "cc_cdf53_coverage (ClientCore_new config now) = []"
  by (simp_all add: ClientCore_new_def Let_def set_cdf53_wire_def set_tile_delivery_def push_out_def split: option.split)

section \<open>Properties\<close>

text \<open>
  C36. NACKs go out pass by pass, once each.  Whatever passes are queued, in whatever order and however
  often, the flush sends one entry for every queued pass that has not arrived since, labelled with the
  frame it was first queued for, ordered by pass, then row, then column, in datagrams the server decodes.
\<close>

theorem nacks_pass_major:
  assumes "quiet_ok c" "cc_pending_nacks c = []" "\<forall>(f, x, y, p) \<in> set qs. unat p < 16"
  shows "\<exists>c' sent. flush_pending_nacks now (queue_all qs t c) = Some c' \<and> nacks_sent c' = nacks_sent c @ sent \<and>
    sorted_wrt (\<lambda>a b. pass_major a < pass_major b) sent \<and>
    set sent = {nack_entry (pending_nack k f) | k f. queue_label qs k = Some f \<and> \<not> pass_arrived c (pending_nack k f)} \<and>
    cc_pending_nacks c' = []"
proof -
  let ?c = "queue_all qs t c" and ?ps = "cc_pending_nacks (queue_all qs t c)"
  have q: "quiet_ok ?c" "nacks_sent ?c = nacks_sent c" "cc_cdf53_coverage ?c = cc_cdf53_coverage c"
    "map_of ?ps k = map_option (pending_nack k) (queue_label qs k)" for k
    using queue_all_quiet[OF assms(1,3), of t] assms(2) by simp_all
  have same: "pass_arrived ?c = pass_arrived c" by (simp add: pass_arrived_def fun_eq_iff q(3))
  obtain ds segs nacks where f: "flush_pending_nacks now ?c =
      Some (?c\<lparr> cc_pending_nack_deadline_us := None, cc_pending_nacks := [], cc_nack_batcher := nacks,
              cc_outbox := cc_outbox ?c @ map Datagram ds \<rparr>)" "list_all2 nack_carries ds segs"
    "concat segs = map nack_entry (filter (Not \<circ> pass_arrived c) (map snd ?ps))"
    using flush_pending_sends[of ?c now] q(1) by (auto simp: quiet_ok_def same)
  have ok: "sorted_wrt (<) (map fst ?ps)" "\<And>k p. (k, p) \<in> set ?ps \<Longrightarrow> k = nack_key p"
    using q(1) by (auto simp: quiet_ok_def nacks_ok_def)
  have key: "pass_major (nack_entry p) = nack_key p" for p by (simp add: pass_major_def nack_entry_def nack_key_def)
  have "sorted_wrt (\<lambda>a b. nack_key a < nack_key b) (map snd ?ps)"
    using ok by (force simp: sorted_wrt_map intro: sorted_wrt_mono_rel[of ?ps "\<lambda>a b. fst a < fst b"])
  then have sorted: "sorted_wrt (\<lambda>a b. pass_major a < pass_major b) (concat segs)"
    by (simp only: f(3) sorted_wrt_map[of _ nack_entry] key) (rule sorted_wrt_filter)
  have "distinct (map fst ?ps)" using strict_sorted_iff[of "map fst ?ps"] ok(1) by simp
  then have "(k, p) \<in> set ?ps \<longleftrightarrow> (\<exists>f. queue_label qs k = Some f \<and> p = pending_nack k f)" for k p
    using map_of_eq_Some_iff[of ?ps k p] q(4)[of k] by auto
  then have all: "set (map snd ?ps) = {pending_nack k f | k f. queue_label qs k = Some f}" by force
  have "set (concat segs) = nack_entry ` {p \<in> set (map snd ?ps). \<not> pass_arrived c p}" unfolding f(3) by auto
  then have "set (concat segs) = {nack_entry (pending_nack k f) | k f. queue_label qs k = Some f \<and> \<not> pass_arrived c (pending_nack k f)}"
    unfolding all by blast
  then show ?thesis using sorted nacks_in_carried[OF f(2)] q(2)
    by (intro exI[of _ "?c\<lparr> cc_pending_nack_deadline_us := None, cc_pending_nacks := [], cc_nack_batcher := nacks,
            cc_outbox := cc_outbox ?c @ map Datagram ds \<rparr>"] exI[of _ "concat segs"])
      (simp add: f(1) nacks_sent_def del: set_concat)
qed

definition demo_config :: ClientConfig where
  "demo_config = \<lparr> cfg_indices_raw_enabled = True, cfg_supports_h264 = True, cfg_h264_acked_ref = True,
     cfg_tile_delivery = Decoded, cfg_cdf53_wire = False, cfg_display = None \<rparr>"

theorem nacks_pass_major_witness:
  "\<exists>c' sent. flush_pending_nacks 50000 (queue_all [(7, 2, 3, 1), (7, 2, 3, 0), (8, 2, 3, 1)] 0 (ClientCore_new demo_config 0)) = Some c' \<and>
     sorted_wrt (\<lambda>a b. pass_major a < pass_major b) sent \<and>
     set sent = {nack_entry (pending_nack (0, 3, 2) 7), nack_entry (pending_nack (1, 3, 2) 7)}"
proof -
  let ?qs = "[(7, 2, 3, 1), (7, 2, 3, 0), (8, 2, 3, 1)] :: (u32 \<times> u8 \<times> u8 \<times> u8) list"
  have "\<not> pass_arrived (ClientCore_new demo_config 0) p" for p by (simp add: pass_arrived_def nothing_new om_get_def)
  moreover have "queue_label ?qs k = Some f \<longleftrightarrow> (k = (1, 3, 2) \<or> k = (0, 3, 2)) \<and> f = 7" for k f
    by (auto simp: queue_label_def)
  ultimately have "{nack_entry (pending_nack k f) | k f. queue_label ?qs k = Some f \<and> \<not> pass_arrived (ClientCore_new demo_config 0) (pending_nack k f)}
      = {nack_entry (pending_nack (0, 3, 2) 7), nack_entry (pending_nack (1, 3, 2) 7)}" by auto
  with nacks_pass_major[OF quiet_new nothing_new(1), of ?qs 50000 0 demo_config 0] show ?thesis by auto
qed

text \<open>
  C37. The tail sweep ends, and not before it has asked.  With no datagram coming in, over any series of
  timer calls: none fails; the calls that ask for passes are at most six for each tile, less the sweeps it
  has had; and the NACK entries ever sent are bounded accordingly.  And a tile that lacks a pass a later
  one has overtaken is swept by every call, as long as the calls leave it the grace period, until it has
  been swept six times; each of those queues every pass it lacks.
\<close>

theorem tail_sweep_ends:
  assumes "quiet_ok c"
  shows "\<exists>c'. timeouts ts c = Some c' \<and> asking_calls ts c \<le> budget c \<and>
    length (nacks_sent c') \<le> length (nacks_sent c) + length (cc_pending_nacks c) + 14 * budget c \<and>
    (\<forall>x y e t0. om_get (x, y) (cc_cdf53_coverage c) = Some e \<and> overtaken e \<noteq> 0 \<and> unat (ce_sweep_attempts e) \<le> 6 \<and>
        ce_last_change_us e \<le> t0 \<and> cc_next_tail_sweep_us c \<le> t0 + TAIL_FALLBACK_US \<and> spaced t0 ts \<longrightarrow>
      (\<exists>e'. om_get (x, y) (cc_cdf53_coverage c') = Some e' \<and>
         unat (ce_sweep_attempts e') = min 6 (unat (ce_sweep_attempts e) + length ts)) \<and>
      (ts \<noteq> [] \<and> unat (ce_sweep_attempts e) + length ts \<le> 6 \<longrightarrow>
         (\<forall>p < 14. bit (overtaken e) p \<longrightarrow> (of_nat p, y, x) \<in> set (map fst (cc_pending_nacks c')))))"
proof -
  obtain c' where c': "timeouts ts c = Some c'" "asking_calls ts c + budget c' \<le> budget c"
    "length (nacks_sent c') + length (cc_pending_nacks c') + 14 * budget c'
      \<le> length (nacks_sent c) + length (cc_pending_nacks c) + 14 * budget c"
    using timeouts_pay[OF assms] by blast
  have "(\<exists>e'. om_get (x, y) (cc_cdf53_coverage c') = Some e' \<and>
         unat (ce_sweep_attempts e') = min 6 (unat (ce_sweep_attempts e) + length ts)) \<and>
      (ts \<noteq> [] \<and> unat (ce_sweep_attempts e) + length ts \<le> 6 \<longrightarrow>
         (\<forall>p < 14. bit (overtaken e) p \<longrightarrow> (of_nat p, y, x) \<in> set (map fst (cc_pending_nacks c'))))"
    if "om_get (x, y) (cc_cdf53_coverage c) = Some e \<and> overtaken e \<noteq> 0 \<and> unat (ce_sweep_attempts e) \<le> 6 \<and>
        ce_last_change_us e \<le> t0 \<and> cc_next_tail_sweep_us c \<le> t0 + TAIL_FALLBACK_US \<and> spaced t0 ts" for x y e t0
    using spaced_sweeps[OF assms, of x y e t0 ts c'] that c'(1) by blast
  moreover have "asking_calls ts c \<le> budget c"
    "length (nacks_sent c') \<le> length (nacks_sent c) + length (cc_pending_nacks c) + 14 * budget c" using c'(2,3) by simp_all
  ultimately show ?thesis using c'(1) by blast
qed

text \<open>A tile with passes 0 and 2 of all fourteen, asked twice for pass 1.\<close>

theorem tail_sweep_ends_witness:
  "\<exists>c' e'. let e = \<lparr> ce_generation = 1, ce_frame_seq = 9, ce_pass_mask = 5, ce_nacked_mask = 0, ce_present_passes = Some 0x3FFF,
         ce_last_change_us = 0, ce_sweep_attempts = 0, ce_highest_pass_seen = Some 2 \<rparr>;
       c = (ClientCore_new demo_config 0)\<lparr> cc_cdf53_coverage := [((3, 4), e)] \<rparr>
     in timeouts [2000000, 4000000] c = Some c' \<and> asking_calls [2000000, 4000000] c \<le> 6 \<and>
        om_get (3, 4) (cc_cdf53_coverage c') = Some e' \<and> unat (ce_sweep_attempts e') = 2 \<and>
        (1, 4, 3) \<in> set (map fst (cc_pending_nacks c'))"
proof -
  define e where "e = \<lparr> ce_generation = 1, ce_frame_seq = 9, ce_pass_mask = 5, ce_nacked_mask = 0, ce_present_passes = Some 0x3FFF,
         ce_last_change_us = 0, ce_sweep_attempts = 0, ce_highest_pass_seen = Some 2 \<rparr>"
  define c where "c = (ClientCore_new demo_config 0)\<lparr> cc_cdf53_coverage := [((3, 4), e)] \<rparr>"
  have "quiet_ok c" using quiet_new[of demo_config 0] by (simp add: c_def quiet_ok_def nacks_ok_def)
  from tail_sweep_ends[OF this, of "[2000000, 4000000]"] obtain c' where c': "timeouts [2000000, 4000000] c = Some c'"
    "asking_calls [2000000, 4000000] c \<le> budget c" and tile: "\<And>x y e t0. om_get (x, y) (cc_cdf53_coverage c) = Some e \<and>
        overtaken e \<noteq> 0 \<and> unat (ce_sweep_attempts e) \<le> 6 \<and> ce_last_change_us e \<le> t0 \<and>
        cc_next_tail_sweep_us c \<le> t0 + TAIL_FALLBACK_US \<and> spaced t0 [2000000, 4000000] \<Longrightarrow>
      (\<exists>e'. om_get (x, y) (cc_cdf53_coverage c') = Some e' \<and>
         unat (ce_sweep_attempts e') = min 6 (unat (ce_sweep_attempts e) + length [2000000, 4000000 :: nat])) \<and>
      ([2000000, 4000000 :: nat] \<noteq> [] \<and> unat (ce_sweep_attempts e) + length [2000000, 4000000 :: nat] \<le> 6 \<longrightarrow>
         (\<forall>p < 14. bit (overtaken e) p \<longrightarrow> (of_nat p, y, x) \<in> set (map fst (cc_pending_nacks c'))))"
    by blast
  have e: "om_get (3, 4) (cc_cdf53_coverage c) = Some e" "ce_sweep_attempts e = 0" "ce_last_change_us e = 0"
    by (simp_all add: c_def om_get_def) (simp_all add: e_def)
  have o: "overtaken e = 2" by (simp add: overtaken_def e_def gap_evidence_mask_def)
  have "cc_next_tail_sweep_us c = 500000"
    by (simp add: c_def ClientCore_new_def Let_def set_cdf53_wire_def set_tile_delivery_def push_out_def
        TAIL_SWEEP_INTERVAL_US_def split: option.split)
  then have t: "(\<exists>e'. om_get (3, 4) (cc_cdf53_coverage c') = Some e' \<and> unat (ce_sweep_attempts e') = 2) \<and>
      (\<forall>p < 14. bit (2 :: u16) p \<longrightarrow> (of_nat p, 4, 3) \<in> set (map fst (cc_pending_nacks c')))"
    using tile[of 3 4 e 0] o e by (simp add: TAIL_FALLBACK_US_def numeral_2_eq_2 del: set_map)
  have "budget c = 6" by (simp add: budget_def c_def om_get_def attempts_left_def e_def)
  then show ?thesis using c' t spec[OF conjunct2[OF t], of 1]
    unfolding Let_def e_def[symmetric] c_def[symmetric] by (auto simp del: set_map)
qed

end
