(* ===== verification/Feedback.thy ===== *)
theory Feedback
  imports Loss
begin

text \<open>
  The feedback stream: the client's input encoders (\<^verbatim>\<open>client-core/src/input.rs\<close>), the server's message
  decoders (\<^verbatim>\<open>transport/client_caps.rs\<close>, \<^verbatim>\<open>decode_error.rs\<close>, \<^verbatim>\<open>display.rs\<close>,
  \<^verbatim>\<open>input_inject.rs\<close>) and the reassembly loop \<^verbatim>\<open>dispatch_feedback_bytes\<close> of
  \<^verbatim>\<open>io_bridge.rs\<close>.  What the server does with a message, and whether a connection is the live session, are
  the loop's two arguments: the loop is the same for every handler.
\<close>

section \<open>Message decoders\<close>

record ClientCapabilities =
  cc_indices_raw_enabled :: bool
  cc_supports_h264 :: bool
  cc_h264_acked_ref :: bool

definition HelloMsg_decode :: "bytes \<Rightarrow> ClientCapabilities option" where
  "HelloMsg_decode data =
     (if length data < HELLO_SIZE then None
      else if data ! 0 \<noteq> HELLO_MSG_TYPE then None
      else Some \<lparr> cc_indices_raw_enabled = (data ! 1 AND HELLO_CAP_INDICES_RAW \<noteq> 0),
                  cc_supports_h264 = (data ! 1 AND HELLO_CAP_SUPPORTS_H264 \<noteq> 0),
                  cc_h264_acked_ref = (data ! 1 AND HELLO_CAP_H264_ACKED_REF \<noteq> 0) \<rparr>)"

definition HelloMsg_encode :: "ClientCapabilities \<Rightarrow> bytes \<Rightarrow> bytes" where
  "HelloMsg_encode caps buf = buf @
     [HELLO_MSG_TYPE,
      (let b = 0;
           b = (if cc_indices_raw_enabled caps then b OR HELLO_CAP_INDICES_RAW else b);
           b = (if cc_supports_h264 caps then b OR HELLO_CAP_SUPPORTS_H264 else b)
       in if cc_h264_acked_ref caps then b OR HELLO_CAP_H264_ACKED_REF else b)]"

definition DECODE_ERROR_SIZE :: nat where [simp]: "DECODE_ERROR_SIZE = 5"

record DecodeErrorMsg =
  de_codec :: u8
  de_tile_x :: u8
  de_tile_y :: u8
  de_error_code :: u8

definition DecodeErrorMsg_decode :: "bytes \<Rightarrow> DecodeErrorMsg option" where
  "DecodeErrorMsg_decode data =
     (if length data < DECODE_ERROR_SIZE then None
      else if data ! 0 \<noteq> DECODE_ERROR_MSG_TYPE then None
      else Some \<lparr> de_codec = data ! 1, de_tile_x = data ! 2, de_tile_y = data ! 3, de_error_code = data ! 4 \<rparr>)"

definition DecodeErrorMsg_encode :: "DecodeErrorMsg \<Rightarrow> bytes \<Rightarrow> bytes" where
  "DecodeErrorMsg_encode m buf = buf @ [DECODE_ERROR_MSG_TYPE, de_codec m, de_tile_x m, de_tile_y m, de_error_code m]"

definition DISPLAY_INFO_SIZE :: nat where [simp]: "DISPLAY_INFO_SIZE = 11"
definition DISPLAY_MODE_SIZE :: nat where [simp]: "DISPLAY_MODE_SIZE = 5"

record DisplayInfoMsg =
  di_max_width :: u16
  di_max_height :: u16
  di_scale_milli :: u16
  di_mm_width :: u16
  di_mm_height :: u16

record DisplayModeMsg =
  dm_width :: u16
  dm_height :: u16

definition DisplayInfoMsg_decode :: "bytes \<Rightarrow> DisplayInfoMsg option" where
  "DisplayInfoMsg_decode data =
     (if length data < DISPLAY_INFO_SIZE then None
      else if data ! 0 \<noteq> DISPLAY_INFO_MSG_TYPE then None
      else Some \<lparr> di_max_width = from_be_bytes (bslice 1 3 data), di_max_height = from_be_bytes (bslice 3 5 data),
                  di_scale_milli = from_be_bytes (bslice 5 7 data), di_mm_width = from_be_bytes (bslice 7 9 data),
                  di_mm_height = from_be_bytes (bslice 9 11 data) \<rparr>)"

definition DisplayModeMsg_decode :: "bytes \<Rightarrow> DisplayModeMsg option" where
  "DisplayModeMsg_decode data =
     (if length data < DISPLAY_MODE_SIZE then None
      else if data ! 0 \<noteq> DISPLAY_MODE_MSG_TYPE then None
      else Some \<lparr> dm_width = from_be_bytes (bslice 1 3 data), dm_height = from_be_bytes (bslice 3 5 data) \<rparr>)"

section \<open>Input events\<close>

text \<open>An \<^verbatim>\<open>i16\<close> coordinate is carried as its 16 bits.\<close>

datatype InputMsg =
    PointerMove u16 u16
  | PointerButton u16 u16 u8 bool
  | Wheel u16 u16
  | KeyDown u32
  | KeyUp u32

definition SUB_POINTER_MOVE :: u8 where "SUB_POINTER_MOVE = 1"
definition SUB_POINTER_BUTTON :: u8 where "SUB_POINTER_BUTTON = 2"
definition SUB_WHEEL :: u8 where "SUB_WHEEL = 3"
definition SUB_KEY_DOWN :: u8 where "SUB_KEY_DOWN = 4"
definition SUB_KEY_UP :: u8 where "SUB_KEY_UP = 5"

lemmas input_subs = SUB_POINTER_MOVE_def SUB_POINTER_BUTTON_def SUB_WHEEL_def SUB_KEY_DOWN_def SUB_KEY_UP_def

definition required_len :: "u8 \<Rightarrow> nat option" where
  "required_len sub_kind =
     (if sub_kind = SUB_POINTER_MOVE \<or> sub_kind = SUB_WHEEL \<or> sub_kind = SUB_KEY_DOWN \<or> sub_kind = SUB_KEY_UP
      then Some 6
      else if sub_kind = SUB_POINTER_BUTTON then Some 8 else None)"

definition decode_input_msg :: "bytes \<Rightarrow> (InputMsg \<times> nat) option" where
  "decode_input_msg data =
     (if length data < 2 \<or> data ! 0 \<noteq> INPUT_MSG_TYPE then None
      else if data ! 1 = SUB_POINTER_MOVE then
        if length data < 6 then None
        else Some (PointerMove (from_be_bytes (bslice 2 4 data)) (from_be_bytes (bslice 4 6 data)), 6)
      else if data ! 1 = SUB_POINTER_BUTTON then
        if length data < 8 then None
        else Some (PointerButton (from_be_bytes (bslice 2 4 data)) (from_be_bytes (bslice 4 6 data))
               (data ! 6) (data ! 7 \<noteq> 0), 8)
      else if data ! 1 = SUB_WHEEL then
        if length data < 6 then None
        else Some (Wheel (from_be_bytes (bslice 2 4 data)) (from_be_bytes (bslice 4 6 data)), 6)
      else if data ! 1 = SUB_KEY_DOWN then
        if length data < 6 then None else Some (KeyDown (from_be_bytes (bslice 2 6 data)), 6)
      else if data ! 1 = SUB_KEY_UP then
        if length data < 6 then None else Some (KeyUp (from_be_bytes (bslice 2 6 data)), 6)
      else None)"

definition encode_pointer_move :: "u16 \<Rightarrow> u16 \<Rightarrow> bytes" where
  "encode_pointer_move x y = [INPUT_MSG_TYPE, 1, ucast (drop_bit 8 x), ucast x, ucast (drop_bit 8 y), ucast y]"

definition encode_pointer_button :: "u16 \<Rightarrow> u16 \<Rightarrow> u8 \<Rightarrow> bool \<Rightarrow> bytes" where
  "encode_pointer_button x y button down =
     [INPUT_MSG_TYPE, 2, ucast (drop_bit 8 x), ucast x, ucast (drop_bit 8 y), ucast y, button, if down then 1 else 0]"

definition encode_wheel :: "u16 \<Rightarrow> u16 \<Rightarrow> bytes" where
  "encode_wheel dx dy = [INPUT_MSG_TYPE, 3, ucast (drop_bit 8 dx), ucast dx, ucast (drop_bit 8 dy), ucast dy]"

definition encode_key :: "u8 \<Rightarrow> u32 \<Rightarrow> bytes" where
  "encode_key sub keysym = [INPUT_MSG_TYPE, sub, ucast (drop_bit 24 keysym), ucast (drop_bit 16 keysym),
     ucast (drop_bit 8 keysym), ucast keysym]"

definition encode_key_down :: "u32 \<Rightarrow> bytes" where "encode_key_down keysym = encode_key 4 keysym"
definition encode_key_up :: "u32 \<Rightarrow> bytes" where "encode_key_up keysym = encode_key 5 keysym"

text \<open>
  What reaches the window system: \<^verbatim>\<open>InputInjector\<close> is implemented elsewhere, so an injector is the list of
  calls made to it.
\<close>

datatype InjectorCall =
    pointer_move u16 u16
  | pointer_button u16 u16 u8 bool
  | wheel u16 u16
  | key u32 bool

fun apply_input :: "InputMsg \<Rightarrow> InjectorCall" where
  "apply_input (PointerMove x y) = pointer_move x y"
| "apply_input (PointerButton x y button down) = pointer_button x y button down"
| "apply_input (Wheel dx dy) = wheel dx dy"
| "apply_input (KeyDown keysym) = key keysym True"
| "apply_input (KeyUp keysym) = key keysym False"

section \<open>The dispatch loop\<close>

datatype FeedbackMsg =
    FM_Feedback ReceiverFeedback
  | FM_Hello ClientCapabilities
  | FM_DecodeError DecodeErrorMsg
  | FM_Reset ResetRequest
  | FM_DisplayInfo DisplayInfoMsg
  | FM_DisplayMode DisplayModeMsg
  | FM_Input InputMsg

text \<open>
  What one turn of the loop finds at the front of the unread bytes: not enough bytes, a byte that makes the rest
  unreadable, or a message of a given length (\<open>None\<close> when its fixed-size body does not decode).
\<close>

datatype turn = Wait | Discard | Take "FeedbackMsg option" nat

definition fixed :: "nat \<Rightarrow> (bytes \<Rightarrow> FeedbackMsg option) \<Rightarrow> bytes \<Rightarrow> turn" where
  "fixed n dec rest = (if length rest < n then Wait else Take (dec rest) n)"

definition feedback_turn :: "bytes \<Rightarrow> turn" where
  "feedback_turn rest =
     (let msg_type = rest ! 0 in
      if msg_type = FEEDBACK_MSG_TYPE then fixed FEEDBACK_SIZE (map_option FM_Feedback \<circ> ReceiverFeedback_decode) rest
      else if msg_type = HELLO_MSG_TYPE then fixed HELLO_SIZE (map_option FM_Hello \<circ> HelloMsg_decode) rest
      else if msg_type = DECODE_ERROR_MSG_TYPE then fixed DECODE_ERROR_SIZE (map_option FM_DecodeError \<circ> DecodeErrorMsg_decode) rest
      else if msg_type = RESET_REQUEST_MSG_TYPE then fixed RESET_REQUEST_SIZE (map_option FM_Reset \<circ> ResetRequest_decode) rest
      else if msg_type = DISPLAY_INFO_MSG_TYPE then fixed DISPLAY_INFO_SIZE (map_option FM_DisplayInfo \<circ> DisplayInfoMsg_decode) rest
      else if msg_type = DISPLAY_MODE_MSG_TYPE then fixed DISPLAY_MODE_SIZE (map_option FM_DisplayMode \<circ> DisplayModeMsg_decode) rest
      else if msg_type = INPUT_MSG_TYPE then
        if length rest < 2 then Wait
        else (case required_len (rest ! 1) of
                None \<Rightarrow> Discard
              | Some required \<Rightarrow>
                  if length rest < required then Wait
                  else (case decode_input_msg rest of
                          Some (msg, consumed) \<Rightarrow> Take (Some (FM_Input msg)) consumed
                        | None \<Rightarrow> Discard))
      else Discard)"

lemma take_pos: "feedback_turn rest = Take m n \<Longrightarrow> 0 < n"
  by (auto simp: feedback_turn_def fixed_def Let_def decode_input_msg_def HELLO_SIZE_def FEEDBACK_SIZE_def
      split: if_splits option.splits)

text \<open>The part of the bridge the loop itself owns; the bridge extends it.\<close>

record FeedbackState =
  fs_recv_bufs :: "nat \<Rightarrow> bytes"
  fs_non_live_drops :: u64

text \<open>The loop: the new state and the bytes kept for the next call.\<close>

function feedback_loop ::
  "('a FeedbackState_scheme \<Rightarrow> bool) \<Rightarrow> (FeedbackMsg \<Rightarrow> 'a FeedbackState_scheme \<Rightarrow> 'a FeedbackState_scheme) \<Rightarrow>
   bytes \<Rightarrow> 'a FeedbackState_scheme \<Rightarrow> 'a FeedbackState_scheme \<times> bytes" where
  "feedback_loop live handle rest f =
     (if rest = [] then (f, [])
      else if rest ! 0 \<noteq> HELLO_MSG_TYPE \<and> \<not> live f
      then (f\<lparr> fs_non_live_drops := sat_add (fs_non_live_drops f) 1 \<rparr>, [])
      else (case feedback_turn rest of
              Wait \<Rightarrow> (f, rest)
            | Discard \<Rightarrow> (f, [])
            | Take m n \<Rightarrow>
                feedback_loop live handle (drop n rest) (case m of Some msg \<Rightarrow> handle msg f | None \<Rightarrow> f)))"
  by pat_completeness auto
termination
  by (relation "measure (\<lambda>(live, handle, rest, f). length rest)") (auto dest: take_pos)

declare feedback_loop.simps [simp del]

text \<open>
  One call: the sender's kept bytes are taken out, they and the new chunk go through the loop, and the unread tail
  is put back for the sender.
\<close>

definition dispatch_feedback_bytes ::
  "(nat \<Rightarrow> 'a FeedbackState_scheme \<Rightarrow> bool) \<Rightarrow>
   (nat \<Rightarrow> FeedbackMsg \<Rightarrow> 'a FeedbackState_scheme \<Rightarrow> 'a FeedbackState_scheme) \<Rightarrow>
   nat \<Rightarrow> bytes \<Rightarrow> 'a FeedbackState_scheme \<Rightarrow> 'a FeedbackState_scheme" where
  "dispatch_feedback_bytes is_live handle from data f =
     (let (f', tail) = feedback_loop (is_live from) (handle from) (fs_recv_bufs f from @ data)
            (f\<lparr> fs_recv_bufs := (fs_recv_bufs f)(from := []) \<rparr>)
      in if tail = [] then f' else f'\<lparr> fs_recv_bufs := (fs_recv_bufs f')(from := tail) \<rparr>)"

section \<open>The messages a client writes\<close>

fun input_bytes :: "InputMsg \<Rightarrow> bytes" where
  "input_bytes (PointerMove x y) = encode_pointer_move x y"
| "input_bytes (PointerButton x y button down) = encode_pointer_button x y button down"
| "input_bytes (Wheel dx dy) = encode_wheel dx dy"
| "input_bytes (KeyDown keysym) = encode_key_down keysym"
| "input_bytes (KeyUp keysym) = encode_key_up keysym"

fun fm_bytes :: "FeedbackMsg \<Rightarrow> bytes" where
  "fm_bytes (FM_Feedback fb) = ReceiverFeedback_encode fb []"
| "fm_bytes (FM_Hello c) = encode_hello (cc_indices_raw_enabled c) (cc_supports_h264 c) (cc_h264_acked_ref c)"
| "fm_bytes (FM_DecodeError m) = DecodeErrorMsg_encode m []"
| "fm_bytes (FM_Reset r) = encode_reset_request (rr_reason r) (rr_frame_seq r)"
| "fm_bytes (FM_DisplayInfo d) =
     encode_display_info (di_max_width d) (di_max_height d) (di_scale_milli d) (di_mm_width d) (di_mm_height d)"
| "fm_bytes (FM_DisplayMode d) = encode_display_mode (dm_width d) (dm_height d)"
| "fm_bytes (FM_Input m) = input_bytes m"

fun is_hello :: "FeedbackMsg \<Rightarrow> bool" where
  "is_hello (FM_Hello c) = True"
| "is_hello _ = False"

lemma be16_bytes: "[ucast (drop_bit 8 x), ucast x] = to_be_bytes 2 (x :: u16)"
  by (simp add: to_be_bytes_def numeral_2_eq_2)

lemma be32_bytes:
  "[ucast (drop_bit 24 k), ucast (drop_bit 16 k), ucast (drop_bit 8 k), ucast k] = to_be_bytes 4 (k :: u32)"
  by (simp add: to_be_bytes_def numeral_eq_Suc drop_bit_drop_bit)

lemma from_be16 [simp]: "from_be_bytes [ucast (drop_bit 8 x), ucast x] = (x :: u16)"
  by (simp only: be16_bytes wire_word_roundtrips)

lemma from_be32 [simp]:
  "from_be_bytes [ucast (drop_bit 24 k), ucast (drop_bit 16 k), ucast (drop_bit 8 k), ucast k] = (k :: u32)"
  by (simp only: be32_bytes wire_word_roundtrips)

lemma HelloMsg_roundtrip:
  "HelloMsg_decode (encode_hello (cc_indices_raw_enabled c) (cc_supports_h264 c) (cc_h264_acked_ref c) @ rest) = Some c"
  by (cases c) (simp add: HelloMsg_decode_def encode_hello_def HELLO_CAP_INDICES_RAW_def HELLO_CAP_SUPPORTS_H264_def
      HELLO_CAP_H264_ACKED_REF_def)

lemma input_roundtrip: "decode_input_msg (input_bytes m @ rest) = Some (m, length (input_bytes m))"
  by (cases m) (simp_all add: decode_input_msg_def encode_pointer_move_def encode_pointer_button_def encode_wheel_def
      encode_key_down_def encode_key_up_def encode_key_def input_subs bslice_def)


lemmas input_encodes = encode_pointer_move_def encode_pointer_button_def encode_wheel_def
  encode_key_down_def encode_key_up_def encode_key_def

lemmas message_encodes = encode_hello_def DecodeErrorMsg_encode_def encode_reset_request_def ResetRequest_encode_def
  encode_display_info_def encode_display_mode_def ReceiverFeedback_encode_def Let_def

lemma fm_first:
  "fm_bytes m ! 0 = (case m of FM_Feedback _ \<Rightarrow> FEEDBACK_MSG_TYPE | FM_Hello _ \<Rightarrow> HELLO_MSG_TYPE
     | FM_DecodeError _ \<Rightarrow> DECODE_ERROR_MSG_TYPE | FM_Reset _ \<Rightarrow> RESET_REQUEST_MSG_TYPE
     | FM_DisplayInfo _ \<Rightarrow> DISPLAY_INFO_MSG_TYPE | FM_DisplayMode _ \<Rightarrow> DISPLAY_MODE_MSG_TYPE
     | FM_Input _ \<Rightarrow> INPUT_MSG_TYPE)"
proof (cases m)
  case (FM_Input i)
  then show ?thesis by (cases i) (simp_all add: input_encodes)
qed (simp_all add: message_encodes)

lemma fm_length:
  "length (fm_bytes m) = (case m of FM_Feedback _ \<Rightarrow> 18 | FM_Hello _ \<Rightarrow> 2 | FM_DecodeError _ \<Rightarrow> 5
     | FM_Reset _ \<Rightarrow> 6 | FM_DisplayInfo _ \<Rightarrow> 11 | FM_DisplayMode _ \<Rightarrow> 5 | FM_Input i \<Rightarrow> length (input_bytes i))"
  by (cases m) (simp_all add: message_encodes)

lemma input_required: "required_len (input_bytes i ! 1) = Some (length (input_bytes i))" "6 \<le> length (input_bytes i)"
  by (cases i; simp add: input_encodes required_len_def input_subs)+

lemma length_fm_bytes_pos: "fm_bytes m \<noteq> []"
proof (cases m)
  case (FM_Input i)
  then show ?thesis using input_required(2)[of i] by auto
qed (use fm_length[of m] in auto)

lemma hello_first: "fm_bytes m ! 0 = HELLO_MSG_TYPE \<longleftrightarrow> is_hello m"
  by (cases m) (simp_all add: fm_first msg_types del: fm_bytes.simps)

lemma ResetRequest_eta: "\<lparr> rr_reason = rr_reason r, rr_frame_seq = rr_frame_seq r \<rparr> = r"
  by (cases r) simp

lemma fixed_decodes:
  "ReceiverFeedback_decode (fm_bytes (FM_Feedback fb) @ rest) = Some fb"
  "HelloMsg_decode (fm_bytes (FM_Hello c) @ rest) = Some c"
  "DecodeErrorMsg_decode (fm_bytes (FM_DecodeError e) @ rest) = Some e"
  "ResetRequest_decode (fm_bytes (FM_Reset r) @ rest) = Some r"
  "DisplayInfoMsg_decode (fm_bytes (FM_DisplayInfo di) @ rest) = Some di"
  "DisplayModeMsg_decode (fm_bytes (FM_DisplayMode dm) @ rest) = Some dm"
  using ReceiverFeedback_roundtrip[of fb rest] HelloMsg_roundtrip[of c rest] ResetRequest_roundtrip[of r rest]
  by (simp_all add: DecodeErrorMsg_decode_def DecodeErrorMsg_encode_def encode_reset_request_def
    ResetRequest_eta DisplayInfoMsg_decode_def encode_display_info_def DisplayModeMsg_decode_def encode_display_mode_def bslice_simps)

text \<open>A complete message at the front is taken; a proper prefix of one is waited for.\<close>

lemma turn_complete: "feedback_turn (fm_bytes m @ rest) = Take (Some m) (length (fm_bytes m))"
proof (cases m)
  case (FM_Input i)
  have "(input_bytes i @ rest) ! 0 = INPUT_MSG_TYPE" "(input_bytes i @ rest) ! 1 = input_bytes i ! 1"
    using fm_first[of "FM_Input i"] input_required(2)[of i] by (auto simp: nth_append)
  then show ?thesis using FM_Input input_required[of i] input_roundtrip[of i rest]
    by (simp add: feedback_turn_def msg_types)
qed (simp_all add: feedback_turn_def fixed_def msg_types nth_append fm_first fm_length fixed_decodes
       length_fm_bytes_pos del: fm_bytes.simps)

lemma turn_partial:
  assumes "fm_bytes m = p @ q" "p \<noteq> []" "q \<noteq> []"
  shows "feedback_turn p = Wait"
proof -
  have first: "p ! 0 = fm_bytes m ! 0" and len: "length p < length (fm_bytes m)"
    using assms by (simp_all add: nth_append)
  show ?thesis
  proof (cases m)
    case (FM_Input i)
    have "p ! 1 = input_bytes i ! 1" if "\<not> length p < 2" using that assms(1) FM_Input by (simp add: nth_append)
    then show ?thesis using FM_Input first len fm_first[of m] input_required[of i]
      by (auto simp: feedback_turn_def msg_types)
  qed (use first len fm_first[of m] fm_length[of m] in \<open>
      simp_all add: feedback_turn_def fixed_def msg_types del: fm_bytes.simps\<close>)
qed

text \<open>A sender is admitted to each message of a run: it is a HELLO or the sender is live there.\<close>

fun admitted :: "('s \<Rightarrow> bool) \<Rightarrow> (FeedbackMsg \<Rightarrow> 's \<Rightarrow> 's) \<Rightarrow> FeedbackMsg list \<Rightarrow> 's \<Rightarrow> bool" where
  "admitted live handle [] f = True"
| "admitted live handle (m # ms) f = ((is_hello m \<or> live f) \<and> admitted live handle ms (handle m f))"

lemma admitted_append:
  "admitted live handle (ms @ ns) f \<longleftrightarrow> admitted live handle ms f \<and> admitted live handle ns (fold handle ms f)"
  by (induction ms arbitrary: f) auto

definition stream :: "FeedbackMsg list \<Rightarrow> bytes" where
  "stream ms = concat (map fm_bytes ms)"

definition partial :: "bytes \<Rightarrow> FeedbackMsg list \<Rightarrow> bool" where
  "partial tail ms \<longleftrightarrow> (case ms of [] \<Rightarrow> tail = [] | m # _ \<Rightarrow> length tail < length (fm_bytes m))"

text \<open>
  The loop on a prefix \<open>xs\<close> of a message stream: a number of whole messages is handled, and the rest is a proper
  prefix of the next one.
\<close>

lemma loop_prefix:
  assumes "xs @ ys = stream ms" "admitted live handle ms f"
  shows "\<exists>ms1 ms2 tail. ms = ms1 @ ms2 \<and> feedback_loop live handle xs f = (fold handle ms1 f, tail) \<and>
    tail @ ys = stream ms2 \<and> partial tail ms2"
  using assms
proof (induction ms arbitrary: xs f)
  case Nil
  then show ?case by (auto simp: stream_def partial_def feedback_loop.simps)
next
  case (Cons m ms)
  have all: "xs @ ys = fm_bytes m @ stream ms" using Cons.prems(1) by (simp add: stream_def)
  show ?case
  proof (cases "length xs < length (fm_bytes m)")
    case True
    define q where "q = drop (length xs) (fm_bytes m)"
    have "take (length xs) (fm_bytes m) = xs"
      using arg_cong[OF all, of "take (length xs)"] True by simp
    then have q: "fm_bytes m = xs @ q" "q \<noteq> []" using True append_take_drop_id[of "length xs" "fm_bytes m"]
      by (simp_all add: q_def)
    have "feedback_loop live handle xs f = (f, xs)"
    proof (cases "xs = []")
      case False
      moreover have "xs ! 0 = HELLO_MSG_TYPE \<or> live f"
        using False q(1) Cons.prems(2) hello_first[of m] by (auto simp: nth_append)
      ultimately show ?thesis using turn_partial[OF q(1) False q(2)] by (subst feedback_loop.simps) auto
    qed (simp add: feedback_loop.simps)
    then show ?thesis using Cons.prems(1) True by (intro exI[of _ "[]"] exI[of _ "m # ms"] exI[of _ xs]) (simp add: partial_def)
  next
    case False
    define xs' where "xs' = drop (length (fm_bytes m)) xs"
    have "take (length (fm_bytes m)) xs = fm_bytes m"
      using arg_cong[OF all, of "take (length (fm_bytes m))"] False by simp
    then have xs': "xs = fm_bytes m @ xs'"
      using append_take_drop_id[of "length (fm_bytes m)" xs] by (simp add: xs'_def)
    then have rest: "xs' @ ys = stream ms" using all by simp
    from Cons.IH[OF rest, of "handle m f"] Cons.prems(2) obtain ms1 ms2 tail where
      IH: "ms = ms1 @ ms2" "feedback_loop live handle xs' (handle m f) = (fold handle ms1 (handle m f), tail)"
      "tail @ ys = stream ms2" "partial tail ms2" by auto
    have "xs ! 0 = HELLO_MSG_TYPE \<or> live f"
      using xs' Cons.prems(2) hello_first[of m] length_fm_bytes_pos[of m] by (auto simp: nth_append)
    then have "feedback_loop live handle xs f = feedback_loop live handle xs' (handle m f)"
      using xs' turn_complete[of m xs'] length_fm_bytes_pos[of m] by (subst feedback_loop.simps) auto
    then show ?thesis using IH by (intro exI[of _ "m # ms1"] exI[of _ ms2] exI[of _ tail]) simp
  qed
qed

text \<open>Whatever the bytes, the unread tail is shorter than the longest message.\<close>

lemma turn_wait_bound: "feedback_turn rest = Wait \<Longrightarrow> length rest < 18"
  by (auto simp: feedback_turn_def fixed_def Let_def required_len_def split: if_splits option.splits)

lemma loop_tail_bound: "length (snd (feedback_loop live handle rest f)) < 18"
proof (induction live handle rest f rule: feedback_loop.induct)
  case (1 live handle rest f)
  show ?case
  proof (cases "rest = [] \<or> rest ! 0 \<noteq> HELLO_MSG_TYPE \<and> \<not> live f")
    case True
    then show ?thesis by (subst feedback_loop.simps) auto
  next
    case False
    then show ?thesis using 1 turn_wait_bound[of rest] by (subst feedback_loop.simps) (auto split: turn.split)
  qed
qed

text \<open>Whatever the bytes, replacing the handler on the messages of a sender that is not live changes nothing.\<close>

definition guarded :: "('s \<Rightarrow> bool) \<Rightarrow> (FeedbackMsg \<Rightarrow> 's \<Rightarrow> 's) \<Rightarrow> FeedbackMsg \<Rightarrow> 's \<Rightarrow> 's" where
  "guarded live handle m f = (if is_hello m \<or> live f then handle m f else f)"

lemma turn_take_hello: "feedback_turn rest = Take (Some m) n \<Longrightarrow> is_hello m \<longleftrightarrow> rest ! 0 = HELLO_MSG_TYPE"
  by (auto simp: feedback_turn_def fixed_def Let_def msg_types split: if_splits option.splits)

lemma loop_guarded: "feedback_loop live (guarded live handle) rest f = feedback_loop live handle rest f"
proof (induction live handle rest f rule: feedback_loop.induct)
  case (1 live handle rest f)
  show ?case
  proof (cases "rest = [] \<or> rest ! 0 \<noteq> HELLO_MSG_TYPE \<and> \<not> live f")
    case True
    then show ?thesis by (auto simp: feedback_loop.simps[of live _ rest])
  next
    case False
    then have "guarded live handle m f = handle m f" if "feedback_turn rest = Take (Some m) n" for m n
      using turn_take_hello[OF that] by (auto simp: guarded_def)
    note g = this
    show ?thesis
    proof (cases "feedback_turn rest")
      case (Take m n)
      with g[of _ n] have "(case m of None \<Rightarrow> f | Some m \<Rightarrow> guarded live handle m f) = (case m of None \<Rightarrow> f | Some m \<Rightarrow> handle m f)"
        by (cases m) simp_all
      then show ?thesis using False Take 1[OF _ _ Take] by (subst (1 2) feedback_loop.simps) auto
    qed (use False in \<open>auto simp: feedback_loop.simps[of live _ rest]\<close>)
  qed
qed

section \<open>The contract of a feedback handler\<close>

text \<open>
  What the dispatcher asks of the bridge it serves: handling a sender's message leaves that sender's buffer, which
  the dispatcher holds at that moment, empty; and what is to be kept during the call of one sender is kept by every
  message handled while that sender is live or says HELLO, and does not depend on the buffers and the drop counter.
\<close>

locale feedback_handler =
  fixes is_live :: "nat \<Rightarrow> 'a FeedbackState_scheme \<Rightarrow> bool"
    and handle :: "nat \<Rightarrow> FeedbackMsg \<Rightarrow> 'a FeedbackState_scheme \<Rightarrow> 'a FeedbackState_scheme"
    and inv :: "nat \<Rightarrow> 'a FeedbackState_scheme \<Rightarrow> bool"
  assumes keeps_buffer: "fs_recv_bufs f from = [] \<Longrightarrow> fs_recv_bufs (handle from m f) from = []"
    and handle_inv: "inv from f \<Longrightarrow> is_hello m \<or> is_live from f \<Longrightarrow> inv from (handle from m f)"
    and buffer_inv: "inv from (f\<lparr> fs_recv_bufs := bufs \<rparr>) = inv from f"
    and drops_inv: "inv from (f\<lparr> fs_non_live_drops := n \<rparr>) = inv from f"
begin

lemma fold_keeps_buffer: "fs_recv_bufs f from = [] \<Longrightarrow> fs_recv_bufs (fold (handle from) ms f) from = []"
  by (induction ms arbitrary: f) (simp_all add: keeps_buffer)

lemma dispatch_chunks:
  assumes "fs_recv_bufs f0 from = []" "tail @ concat cs = stream ms" "partial tail ms"
    and "admitted (is_live from) (handle from) ms f0"
  shows "foldl (\<lambda>f c. dispatch_feedback_bytes is_live handle from c f)
      (if tail = [] then f0 else f0\<lparr> fs_recv_bufs := (fs_recv_bufs f0)(from := tail) \<rparr>) cs = fold (handle from) ms f0"
  using assms
proof (induction cs arbitrary: f0 tail ms)
  case Nil
  then show ?case by (cases ms) (auto simp: partial_def stream_def)
next
  case (Cons c cs)
  let ?f = "if tail = [] then f0 else f0\<lparr> fs_recv_bufs := (fs_recv_bufs f0)(from := tail) \<rparr>"
  have bufs: "(fs_recv_bufs f0)(from := []) = fs_recv_bufs f0" using Cons.prems(1) by auto
  have f0: "?f\<lparr> fs_recv_bufs := (fs_recv_bufs ?f)(from := []) \<rparr> = f0" "fs_recv_bufs ?f from = tail"
    using Cons.prems(1) bufs by simp_all
  have "(tail @ c) @ concat cs = stream ms" using Cons.prems(2) by simp
  from loop_prefix[OF this Cons.prems(4)] obtain ms1 ms2 tail' where
    p: "ms = ms1 @ ms2" "tail' @ concat cs = stream ms2" "partial tail' ms2"
    and loop: "feedback_loop (is_live from) (handle from) (tail @ c) f0 = (fold (handle from) ms1 f0, tail')"
    by blast
  let ?g = "fold (handle from) ms1 f0"
  have step: "dispatch_feedback_bytes is_live handle from c ?f =
      (if tail' = [] then ?g else ?g\<lparr> fs_recv_bufs := (fs_recv_bufs ?g)(from := tail') \<rparr>)"
    unfolding dispatch_feedback_bytes_def f0 loop by simp
  have "admitted (is_live from) (handle from) ms2 ?g" using p(1) Cons.prems(4) by (simp add: admitted_append)
  from Cons.IH[OF fold_keeps_buffer[OF Cons.prems(1), of ms1] p(2,3) this] show ?case
    unfolding foldl_Cons step using p(1) by simp
qed

lemma loop_inv: "inv from f \<Longrightarrow> inv from (fst (feedback_loop (is_live from) (handle from) rest f))"
proof (induction "is_live from" "handle from" rest f rule: feedback_loop.induct)
  case (1 rest f)
  show ?case
  proof (cases "rest = [] \<or> rest ! 0 \<noteq> HELLO_MSG_TYPE \<and> \<not> is_live from f")
    case True
    then show ?thesis using 1(2) by (subst feedback_loop.simps) (auto simp: drops_inv)
  next
    case False
    show ?thesis
    proof (cases "feedback_turn rest")
      case (Take m n)
      have "inv from (case m of None \<Rightarrow> f | Some m \<Rightarrow> handle from m f)"
        using 1(2) handle_inv[of "from" f] turn_take_hello[of rest _ n] Take False by (cases m) auto
      then show ?thesis using False Take 1(1)[OF _ _ Take] by (subst feedback_loop.simps) auto
    qed (use False 1(2) in \<open>auto simp: feedback_loop.simps[of _ _ rest]\<close>)
  qed
qed

lemma loop_keeps_buffer:
  "fs_recv_bufs f from = [] \<Longrightarrow> fs_recv_bufs (fst (feedback_loop (is_live from) (handle from) rest f)) from = []"
proof (induction "is_live from" "handle from" rest f rule: feedback_loop.induct)
  case (1 rest f)
  show ?case
  proof (cases "rest = [] \<or> rest ! 0 \<noteq> HELLO_MSG_TYPE \<and> \<not> is_live from f \<or> (\<forall>m n. feedback_turn rest \<noteq> Take m n)")
    case True
    then show ?thesis using 1(2) by (subst feedback_loop.simps) (auto split: turn.split)
  next
    case False
    then obtain m n where t: "feedback_turn rest = Take m n" by blast
    have "fs_recv_bufs (case m of None \<Rightarrow> f | Some m \<Rightarrow> handle from m f) from = []"
      using 1(2) by (cases m) (simp_all add: keeps_buffer)
    then show ?thesis using False t 1(1)[OF _ _ t] by (subst feedback_loop.simps) auto
  qed
qed

lemma dispatch_buffer_bound:
  "length (fs_recv_bufs (dispatch_feedback_bytes is_live handle from data f) from) < 18"
  using loop_keeps_buffer[of "f\<lparr> fs_recv_bufs := (fs_recv_bufs f)(from := []) \<rparr>" "from" "fs_recv_bufs f from @ data"]
    loop_tail_bound[of "is_live from" "handle from" "fs_recv_bufs f from @ data"
      "f\<lparr> fs_recv_bufs := (fs_recv_bufs f)(from := []) \<rparr>"]
  by (auto simp: dispatch_feedback_bytes_def split: prod.split)

lemma dispatch_inv: "inv from f \<Longrightarrow> inv from (dispatch_feedback_bytes is_live handle from data f)"
  using loop_inv[of "from" "f\<lparr> fs_recv_bufs := (fs_recv_bufs f)(from := []) \<rparr>" "fs_recv_bufs f from @ data"]
  by (auto simp: dispatch_feedback_bytes_def buffer_inv split: prod.split)

end

end
