(* ===== verification/Session.thy ===== *)
theory Session
  imports Palette_Table Feedback "HOL-Library.AList"
begin

text \<open>
  The session of the server: who the live client is, when a connection is closed, and what a client's feedback
  does.  It models \<^verbatim>\<open>transport/io_bridge/session.rs\<close>, \<^verbatim>\<open>display_mode.rs\<close> and the feedback handlers of
  \<^verbatim>\<open>io_bridge.rs\<close>.  A call into a subsystem whose state is not part of this theory is recorded, in order, in
  \<open>ib_calls\<close>.  Instants are microseconds since the bridge's epoch.
\<close>

section \<open>State\<close>

definition DEFAULT_SCALE_MILLI :: u16 where "DEFAULT_SCALE_MILLI = 1000"
definition HELLO_DEADLINE :: nat where "HELLO_DEADLINE = 20000000"
definition EVICT_CLOSE_GRACE :: nat where "EVICT_CLOSE_GRACE = 1000000"
definition CLOSE_CODE_EVICTED :: u32 where "CLOSE_CODE_EVICTED = 0x6701"
definition CLOSE_CODE_NO_HELLO :: u32 where "CLOSE_CODE_NO_HELLO = 0x6702"
definition CLOSE_CODE_TAKEOVER_RATE_LIMITED :: u32 where "CLOSE_CODE_TAKEOVER_RATE_LIMITED = 0x6703"
definition CLOSE_CODE_ACCESS_REVOKED :: u32 where "CLOSE_CODE_ACCESS_REVOKED = 0x6704"
definition REVOKE_CLOSE_GRACE :: nat where "REVOKE_CLOSE_GRACE = 0"
definition TAKEOVER_MIN_INTERVAL :: nat where "TAKEOVER_MIN_INTERVAL = 1000000"
definition RESET_REQUEST_MIN_INTERVAL :: nat where "RESET_REQUEST_MIN_INTERVAL = 2000000"
definition FRAME_DIMENSIONS_RETRANSMITS :: u8 where "FRAME_DIMENSIONS_RETRANSMITS = 10"
definition DISPLAY_MODE_DEBOUNCE_US :: nat where "DISPLAY_MODE_DEBOUNCE_US = 250000"
definition MODE_WIDTH_GRANULARITY :: u16 where "MODE_WIDTH_GRANULARITY = 8"
definition MIN_MODE_WIDTH :: u16 where "MIN_MODE_WIDTH = 320"
definition MIN_MODE_HEIGHT :: u16 where "MIN_MODE_HEIGHT = 240"
definition ERR_THIN_UNCACHED_PALETTE :: u8 where "ERR_THIN_UNCACHED_PALETTE = 3"
definition EVICTION_REPEATS :: nat where "EVICTION_REPEATS = 3"

lemmas close_codes = CLOSE_CODE_EVICTED_def CLOSE_CODE_NO_HELLO_def CLOSE_CODE_TAKEOVER_RATE_LIMITED_def
  CLOSE_CODE_ACCESS_REVOKED_def

record CloseDeadline =
  cd_at :: nat
  cd_code :: u32

record PendingDisplayMode =
  pm_width :: u16
  pm_height :: u16
  pm_deadline_us :: nat

text \<open>The fields of the adaptation context that the session and the feedback handlers write.\<close>

record AdaptationContext =
  ac_suspended :: bool
  ac_last_update_seq :: u32
  ac_supports_h264 :: bool
  ac_h264_encoder_unavailable :: bool

datatype FrameMode = FM_TileCodec | FM_H264

datatype SubsystemCall =
    DirtyTrackerReset
  | MetricsTrackerReset
  | ClassifierReset
  | SchedulerClear
  | ResetH264Session
  | InvalidateBaseline nat
  | ResetSessionScope
  | ReleaseDepartures
  | ClearCache
  | SetAdaptationContext AdaptationContext
  | NoteClientFeedback ReceiverFeedback
  | NoteH264ResetHonoured nat
  | H264ClientReset ResetReason
  | SendDatagram nat "bytes option" bool
  | CloseConnection nat u32
  | RecheckTrack nat nat
  | RecheckForget nat
  | WtNewConnection nat
  | SetOutput u16 u16 u16
  | Inject InjectorCall

text \<open>
  \<open>ib_wt_sessions\<close> maps a handle to whether its WebTransport session is connected; \<open>ib_connections\<close> and
  \<open>ib_newly_accepted\<close> are the QUIC server's tables; \<open>ib_tile_in_flight\<close> and \<open>ib_tile_palette\<close> are what the frame
  pipeline and the metrics tracker answer about a tile, \<open>ib_h264_refs_live\<close> what the reference manager answers;
  \<open>ib_display_controller\<close> is the ceiling of the display controller, if there is one.
\<close>

record IoBridge = FeedbackState +
  ib_wt_sessions :: "nat \<Rightarrow> bool option"
  ib_connections :: "nat list"
  ib_newly_accepted :: "nat list"
  ib_last_hello_from :: "nat option"
  ib_close_deadlines :: "(nat \<times> CloseDeadline) list"
  ib_last_takeover_at :: "nat option"
  ib_last_disconnect_at :: "nat option"
  ib_session_started_at :: "nat option"
  ib_has_seen_prior_session :: bool
  ib_client_caps :: ClientCapabilities
  ib_adaptation_context :: AdaptationContext
  ib_recent_suspension_flags :: "bool \<times> bool"
  ib_display_scale_milli :: u16
  ib_pending_display_mode :: "PendingDisplayMode option"
  ib_display_controller :: "(u16 \<times> u16) option"
  ib_has_injector :: bool
  ib_session_epoch :: nat
  ib_departures_handle :: "nat option"
  ib_frame_mode :: FrameMode
  ib_last_h264_frame_seq :: "u32 option"
  ib_last_reset_request_idr_at :: "nat option"
  ib_reset_requests_received :: u64
  ib_reset_requests_rate_limited :: u64
  ib_reset_requests_honoured :: u64
  ib_dimensions_retransmits_left :: u8
  ib_force_dirty_frames :: nat
  ib_palette_table :: PaletteTable
  ib_tile_in_flight :: "u8 \<Rightarrow> u8 \<Rightarrow> bool"
  ib_tile_palette :: "u8 \<Rightarrow> u8 \<Rightarrow> u8 option"
  ib_deferred_decode_errors :: "DecodeErrorMsg list"
  ib_h264_refs_live :: bool
  ib_connected_session_count :: nat
  ib_was_idle :: bool
  ib_calls :: "SubsystemCall list"

definition ClientCapabilities_default :: ClientCapabilities where
  "ClientCapabilities_default = \<lparr> cc_indices_raw_enabled = False, cc_supports_h264 = False, cc_h264_acked_ref = False \<rparr>"

definition AdaptationContext_default :: AdaptationContext where
  "AdaptationContext_default =
     \<lparr> ac_suspended = False, ac_last_update_seq = 0, ac_supports_h264 = True, ac_h264_encoder_unavailable = False \<rparr>"

text \<open>A new bridge, with the answers of the other subsystems at their start; no tile is known yet.\<close>

definition IoBridge_new :: IoBridge where
  "IoBridge_new =
     \<lparr> fs_recv_bufs = (\<lambda>_. []), fs_non_live_drops = 0, ib_wt_sessions = (\<lambda>_. None), ib_connections = [],
       ib_newly_accepted = [], ib_last_hello_from = None, ib_close_deadlines = [], ib_last_takeover_at = None,
       ib_last_disconnect_at = None, ib_session_started_at = None, ib_has_seen_prior_session = False,
       ib_client_caps = ClientCapabilities_default, ib_adaptation_context = AdaptationContext_default,
       ib_recent_suspension_flags = (False, False), ib_display_scale_milli = DEFAULT_SCALE_MILLI,
       ib_pending_display_mode = None, ib_display_controller = None, ib_has_injector = False, ib_session_epoch = 0,
       ib_departures_handle = None, ib_frame_mode = FM_TileCodec, ib_last_h264_frame_seq = None,
       ib_last_reset_request_idr_at = None, ib_reset_requests_received = 0, ib_reset_requests_rate_limited = 0,
       ib_reset_requests_honoured = 0, ib_dimensions_retransmits_left = 0, ib_force_dirty_frames = 0,
       ib_palette_table = PaletteTable_new, ib_tile_in_flight = (\<lambda>_ _. False), ib_tile_palette = (\<lambda>_ _. None),
       ib_deferred_decode_errors = [], ib_h264_refs_live = False, ib_connected_session_count = 0, ib_was_idle = True,
       ib_calls = [] \<rparr>"

definition note_call :: "SubsystemCall \<Rightarrow> IoBridge \<Rightarrow> IoBridge" where
  "note_call c b = b\<lparr> ib_calls := ib_calls b @ [c] \<rparr>"

definition is_live :: "nat \<Rightarrow> IoBridge \<Rightarrow> bool" where
  "is_live handle b \<longleftrightarrow> ib_last_hello_from b = Some handle"

definition live_connected_handle :: "IoBridge \<Rightarrow> nat option" where
  "live_connected_handle b =
     (case ib_last_hello_from b of
        None \<Rightarrow> None
      | Some h \<Rightarrow> (case ib_wt_sessions b h of None \<Rightarrow> None | Some connected \<Rightarrow> if connected then Some h else None))"

definition live_send_handle :: "IoBridge \<Rightarrow> nat option" where
  "live_send_handle b =
     (case live_connected_handle b of
        None \<Rightarrow> None
      | Some h \<Rightarrow> if h \<in> set (ib_connections b) then Some h else None)"

definition refresh_connected_session_count :: "IoBridge \<Rightarrow> IoBridge" where
  "refresh_connected_session_count b =
     (let connected = (case live_connected_handle b of Some _ \<Rightarrow> 1 | None \<Rightarrow> 0)
      in b\<lparr> ib_connected_session_count := connected, ib_was_idle := (connected = 0) \<rparr>)"

section \<open>Adaptation context\<close>

definition push_adaptation :: "(AdaptationContext \<Rightarrow> AdaptationContext) \<Rightarrow> IoBridge \<Rightarrow> IoBridge" where
  "push_adaptation f b =
     (let c = f (ib_adaptation_context b);
          c = c\<lparr> ac_last_update_seq := ac_last_update_seq c + 1 \<rparr>
      in note_call (SetAdaptationContext c) (b\<lparr> ib_adaptation_context := c \<rparr>))"

definition mark_h264_unavailable :: "IoBridge \<Rightarrow> IoBridge" where
  "mark_h264_unavailable b =
     push_adaptation (ac_supports_h264_update (\<lambda>_. False))
       (b\<lparr> ib_client_caps := (ib_client_caps b)\<lparr> cc_supports_h264 := False \<rparr> \<rparr>)"

definition set_h264_encoder_unavailable :: "bool \<Rightarrow> IoBridge \<Rightarrow> IoBridge" where
  "set_h264_encoder_unavailable unavailable b =
     push_adaptation (ac_h264_encoder_unavailable_update (\<lambda>_. unavailable)) b"

definition ingest_feedback_for_adaptation :: "ReceiverFeedback \<Rightarrow> IoBridge \<Rightarrow> IoBridge" where
  "ingest_feedback_for_adaptation fb b =
     (let b = note_call (NoteClientFeedback fb) b;
          flags = (snd (ib_recent_suspension_flags b), rf_suspension_detected fb)
      in push_adaptation (ac_suspended_update (\<lambda>_. fst flags \<or> snd flags))
           (b\<lparr> ib_recent_suspension_flags := flags \<rparr>))"

section \<open>Session lifecycle\<close>

definition fire_session_reset :: "IoBridge \<Rightarrow> IoBridge" where
  "fire_session_reset b =
     (let b = b\<lparr> ib_session_epoch := ib_session_epoch b + 1 \<rparr>;
          b = note_call SchedulerClear (note_call ClassifierReset (note_call MetricsTrackerReset
                (note_call DirtyTrackerReset b)));
          b = b\<lparr> ib_palette_table := on_session_reset False (ib_palette_table b), ib_frame_mode := FM_H264,
                 ib_last_h264_frame_seq := None, ib_last_reset_request_idr_at := None \<rparr>;
          b = note_call ResetH264Session b;
          b = b\<lparr> ib_dimensions_retransmits_left := FRAME_DIMENSIONS_RETRANSMITS, ib_force_dirty_frames := 20 \<rparr>
      in note_call (InvalidateBaseline 20) b)"

definition forget_session :: "nat \<Rightarrow> IoBridge \<Rightarrow> IoBridge" where
  "forget_session handle b =
     (let b = (if is_live handle b then b\<lparr> ib_session_epoch := ib_session_epoch b + 1 \<rparr> else b);
          b = (if is_live handle b \<or> ib_departures_handle b = Some handle
               then note_call ResetH264Session ((note_call ReleaseDepartures (note_call ResetSessionScope b))
                      \<lparr> ib_departures_handle := None \<rparr>)
               else b);
          b = b\<lparr> ib_wt_sessions := (ib_wt_sessions b)(handle := None),
                 fs_recv_bufs := (fs_recv_bufs b)(handle := []),
                 ib_close_deadlines := AList.delete handle (ib_close_deadlines b) \<rparr>;
          b = note_call (RecheckForget handle) b
      in if is_live handle b then b\<lparr> ib_last_hello_from := None \<rparr> else b)"

definition insert_deadline :: "nat \<Rightarrow> nat \<Rightarrow> u32 \<Rightarrow> IoBridge \<Rightarrow> IoBridge" where
  "insert_deadline handle at code b =
     b\<lparr> ib_close_deadlines := AList.update handle \<lparr> cd_at = at, cd_code = code \<rparr> (ib_close_deadlines b) \<rparr>"

definition evict_session :: "nat \<Rightarrow> nat \<Rightarrow> EvictionReason \<Rightarrow> IoBridge \<Rightarrow> IoBridge" where
  "evict_session now handle reason b =
     (let b = b\<lparr> ib_session_epoch := ib_session_epoch b + 1 \<rparr>;
          datagram = build_eviction_datagram reason;
          b = (if handle \<in> set (ib_connections b) \<and> ib_wt_sessions b handle \<noteq> None
               then (note_call (SendDatagram handle datagram (is_live handle b)) ^^ EVICTION_REPEATS) b
               else b);
          b = b\<lparr> ib_session_started_at := None, ib_last_disconnect_at := Some now \<rparr>;
          b = note_call ClearCache b;
          b = forget_session handle b
      in insert_deadline handle (now + EVICT_CLOSE_GRACE) CLOSE_CODE_EVICTED b)"

definition takeover_rate_limited :: "nat \<Rightarrow> IoBridge \<Rightarrow> bool" where
  "takeover_rate_limited now b =
     (case ib_last_takeover_at b of None \<Rightarrow> False | Some t \<Rightarrow> now - t < TAKEOVER_MIN_INTERVAL)"

definition reset_session_instruments :: "IoBridge \<Rightarrow> IoBridge" where
  "reset_session_instruments b =
     (note_call ReleaseDepartures (note_call ResetSessionScope b))\<lparr> ib_departures_handle := None \<rparr>"

text \<open>The part of \<^verbatim>\<open>apply_hello\<close> that runs when a connection other than the incumbent becomes live.\<close>

definition begin_session :: "nat \<Rightarrow> nat option \<Rightarrow> IoBridge \<Rightarrow> IoBridge" where
  "begin_session now incumbent b =
     (let b = reset_session_instruments b;
          b = (case incumbent of
                 Some i \<Rightarrow> evict_session now i DisplacedByNewSession b
               | None \<Rightarrow> b);
          b = b\<lparr> ib_session_started_at := Some now, ib_pending_display_mode := None,
                 ib_display_scale_milli := DEFAULT_SCALE_MILLI \<rparr>;
          b = (if ib_has_seen_prior_session b then fire_session_reset b else b)
      in b\<lparr> ib_has_seen_prior_session := True \<rparr>)"

definition apply_hello :: "nat \<Rightarrow> nat \<Rightarrow> ClientCapabilities \<Rightarrow> IoBridge \<Rightarrow> IoBridge" where
  "apply_hello now from caps b =
     (if ib_wt_sessions b from = None then b
      else
        let incumbent = ib_last_hello_from b;
            displaces = (incumbent \<noteq> None \<and> incumbent \<noteq> Some from)
        in if displaces \<and> takeover_rate_limited now b
           then insert_deadline from now CLOSE_CODE_TAKEOVER_RATE_LIMITED b
           else
             let b = (if displaces then b\<lparr> ib_last_takeover_at := Some now \<rparr> else b);
                 b = b\<lparr> ib_last_hello_from := Some from,
                        ib_close_deadlines := AList.delete from (ib_close_deadlines b) \<rparr>;
                 b = (if incumbent \<noteq> Some from then begin_session now incumbent b else b);
                 b = b\<lparr> ib_client_caps := caps \<rparr>
             in push_adaptation (ac_supports_h264_update (\<lambda>_. cc_supports_h264 caps \<and> cc_h264_acked_ref caps)) b)"

definition on_connection_gone :: "nat \<Rightarrow> nat \<Rightarrow> IoBridge \<Rightarrow> IoBridge" where
  "on_connection_gone now handle b =
     (let was_live = is_live handle b;
          b = forget_session handle b
      in if was_live
         then note_call ClearCache (b\<lparr> ib_session_epoch := ib_session_epoch b + 1, ib_session_started_at := None,
                ib_last_disconnect_at := Some now \<rparr>)
         else b)"

definition track_recheck :: "nat \<Rightarrow> nat \<Rightarrow> IoBridge \<Rightarrow> IoBridge" where
  "track_recheck now handle b =
     (if handle \<in> set (ib_connections b) then note_call (RecheckTrack handle now) b else b)"

definition on_connection_established :: "nat \<Rightarrow> nat \<Rightarrow> IoBridge \<Rightarrow> IoBridge" where
  "on_connection_established now handle b =
     (let armed = (case map_of (ib_close_deadlines b) handle of
                     None \<Rightarrow> None
                   | Some d \<Rightarrow> if cd_code d = CLOSE_CODE_NO_HELLO then Some d else None);
          b = b\<lparr> ib_close_deadlines := AList.delete handle (ib_close_deadlines b) \<rparr>;
          b = forget_session handle b;
          b = (case armed of
                 Some d \<Rightarrow> b\<lparr> ib_close_deadlines := AList.update handle d (ib_close_deadlines b) \<rparr>
               | None \<Rightarrow> b);
          b = track_recheck now handle b;
          b = (if ib_wt_sessions b handle = None
               then b\<lparr> ib_wt_sessions := (ib_wt_sessions b)(handle := Some False) \<rparr> else b)
      in if handle \<in> set (ib_connections b) then note_call (WtNewConnection handle) b else b)"

definition revoke_session :: "nat \<Rightarrow> nat \<Rightarrow> IoBridge \<Rightarrow> IoBridge" where
  "revoke_session now handle b =
     insert_deadline handle (now + REVOKE_CLOSE_GRACE) CLOSE_CODE_ACCESS_REVOKED (on_connection_gone now handle b)"

definition arm_hello_deadline :: "nat \<Rightarrow> nat \<Rightarrow> IoBridge \<Rightarrow> IoBridge" where
  "arm_hello_deadline now handle b = insert_deadline handle (now + HELLO_DEADLINE) CLOSE_CODE_NO_HELLO b"

definition close_due :: "nat \<times> CloseDeadline \<Rightarrow> IoBridge \<Rightarrow> IoBridge" where
  "close_due entry b =
     (let handle = fst entry;
          b = b\<lparr> ib_close_deadlines := AList.delete handle (ib_close_deadlines b) \<rparr>;
          b = (if handle \<in> set (ib_connections b) then note_call (CloseConnection handle (cd_code (snd entry))) b else b)
      in forget_session handle b)"

definition arm_accepted :: "nat \<Rightarrow> IoBridge \<Rightarrow> IoBridge" where
  "arm_accepted now b =
     fold (\<lambda>handle b. track_recheck now handle (arm_hello_deadline now handle b)) (ib_newly_accepted b)
       (b\<lparr> ib_newly_accepted := [] \<rparr>)"

definition sweep_close_deadlines :: "nat \<Rightarrow> IoBridge \<Rightarrow> IoBridge" where
  "sweep_close_deadlines now b =
     (let b = arm_accepted now b;
          due = filter (\<lambda>(_, d). cd_at d \<le> now) (ib_close_deadlines b)
      in fold close_due due b)"

section \<open>Feedback handlers\<close>

definition recover_from_decode_error :: "DecodeErrorMsg \<Rightarrow> IoBridge \<Rightarrow> IoBridge" where
  "recover_from_decode_error msg b =
     (case ib_tile_palette b (de_tile_x msg) (de_tile_y msg) of
        Some palette_id \<Rightarrow> b\<lparr> ib_palette_table := force_rebundle palette_id (ib_palette_table b) \<rparr>
      | None \<Rightarrow> b)"

definition handle_decode_error :: "DecodeErrorMsg \<Rightarrow> IoBridge \<Rightarrow> IoBridge" where
  "handle_decode_error msg b =
     (if de_error_code msg = ERR_THIN_UNCACHED_PALETTE then
        if ib_tile_in_flight b (de_tile_x msg) (de_tile_y msg)
        then b\<lparr> ib_deferred_decode_errors := ib_deferred_decode_errors b @ [msg] \<rparr>
        else recover_from_decode_error msg b
      else b)"

definition handle_reset_request :: "nat \<Rightarrow> ResetRequest \<Rightarrow> IoBridge \<Rightarrow> IoBridge" where
  "handle_reset_request now msg b =
     (let b = b\<lparr> ib_reset_requests_received := sat_add (ib_reset_requests_received b) 1 \<rparr> in
      if rr_reason msg = NoDecoder then mark_h264_unavailable b
      else if ib_h264_refs_live b then
        if (case ib_last_reset_request_idr_at b of None \<Rightarrow> False | Some t \<Rightarrow> now - t < RESET_REQUEST_MIN_INTERVAL)
        then b\<lparr> ib_reset_requests_rate_limited := sat_add (ib_reset_requests_rate_limited b) 1 \<rparr>
        else note_call (H264ClientReset (rr_reason msg)) (note_call (NoteH264ResetHonoured now)
               (b\<lparr> ib_last_reset_request_idr_at := Some now,
                  ib_reset_requests_honoured := sat_add (ib_reset_requests_honoured b) 1 \<rparr>))
      else b)"

definition clamp_and_align_mode :: "u16 \<Rightarrow> u16 \<Rightarrow> u16 \<times> u16 \<Rightarrow> u16 \<times> u16" where
  "clamp_and_align_mode requested_w requested_h ceiling =
     (let w = min requested_w (fst ceiling);
          h = min requested_h (snd ceiling);
          w = (w div MODE_WIDTH_GRANULARITY) * MODE_WIDTH_GRANULARITY
      in (max w MIN_MODE_WIDTH, max h MIN_MODE_HEIGHT))"

definition handle_display_mode :: "nat \<Rightarrow> DisplayModeMsg \<Rightarrow> IoBridge \<Rightarrow> IoBridge" where
  "handle_display_mode now msg b =
     (case ib_display_controller b of
        None \<Rightarrow> b
      | Some ceiling \<Rightarrow>
          let (w, h) = clamp_and_align_mode (dm_width msg) (dm_height msg) ceiling
          in b\<lparr> ib_pending_display_mode :=
                  Some \<lparr> pm_width = w, pm_height = h, pm_deadline_us = now + DISPLAY_MODE_DEBOUNCE_US \<rparr> \<rparr>)"

definition display_on_timeout :: "nat \<Rightarrow> IoBridge \<Rightarrow> IoBridge" where
  "display_on_timeout now_us b =
     (case ib_pending_display_mode b of
        None \<Rightarrow> b
      | Some pending \<Rightarrow>
          if now_us < pm_deadline_us pending then b
          else
            let b = b\<lparr> ib_pending_display_mode := None \<rparr>
            in (case ib_display_controller b of
                  Some _ \<Rightarrow> note_call (SetOutput (pm_width pending) (pm_height pending) (ib_display_scale_milli b)) b
                | None \<Rightarrow> b))"

fun handle_feedback :: "nat \<Rightarrow> nat \<Rightarrow> FeedbackMsg \<Rightarrow> IoBridge \<Rightarrow> IoBridge" where
  "handle_feedback now from (FM_Feedback fb) b = ingest_feedback_for_adaptation fb b"
| "handle_feedback now from (FM_Hello caps) b = apply_hello now from caps b"
| "handle_feedback now from (FM_DecodeError msg) b = handle_decode_error msg b"
| "handle_feedback now from (FM_Reset msg) b = handle_reset_request now msg b"
| "handle_feedback now from (FM_DisplayInfo msg) b = b\<lparr> ib_display_scale_milli := di_scale_milli msg \<rparr>"
| "handle_feedback now from (FM_DisplayMode msg) b = handle_display_mode now msg b"
| "handle_feedback now from (FM_Input msg) b = (if ib_has_injector b then note_call (Inject (apply_input msg)) b else b)"

definition bridge_feedback :: "nat \<Rightarrow> nat \<Rightarrow> bytes \<Rightarrow> IoBridge \<Rightarrow> IoBridge" where
  "bridge_feedback now = dispatch_feedback_bytes is_live (handle_feedback now)"

section \<open>What each operation does to the session table\<close>

named_theorems session_simps

lemma note_call_session [session_simps]:
  "ib_wt_sessions (note_call c b) = ib_wt_sessions b"
  "ib_connections (note_call c b) = ib_connections b"
  "ib_newly_accepted (note_call c b) = ib_newly_accepted b"
  "ib_last_hello_from (note_call c b) = ib_last_hello_from b"
  "ib_close_deadlines (note_call c b) = ib_close_deadlines b"
  "ib_last_takeover_at (note_call c b) = ib_last_takeover_at b"
  "fs_recv_bufs (note_call c b) = fs_recv_bufs b"
  "is_live h (note_call c b) = is_live h b"
  by (simp_all add: note_call_def is_live_def)

lemma push_adaptation_session [session_simps]:
  "ib_wt_sessions (push_adaptation f b) = ib_wt_sessions b"
  "ib_connections (push_adaptation f b) = ib_connections b"
  "ib_newly_accepted (push_adaptation f b) = ib_newly_accepted b"
  "ib_last_hello_from (push_adaptation f b) = ib_last_hello_from b"
  "ib_close_deadlines (push_adaptation f b) = ib_close_deadlines b"
  "ib_last_takeover_at (push_adaptation f b) = ib_last_takeover_at b"
  "fs_recv_bufs (push_adaptation f b) = fs_recv_bufs b"
  "is_live h (push_adaptation f b) = is_live h b"
  by (simp_all add: push_adaptation_def session_simps is_live_def Let_def)

lemma fire_session_reset_session [session_simps]:
  "ib_wt_sessions (fire_session_reset b) = ib_wt_sessions b"
  "ib_connections (fire_session_reset b) = ib_connections b"
  "ib_newly_accepted (fire_session_reset b) = ib_newly_accepted b"
  "ib_last_hello_from (fire_session_reset b) = ib_last_hello_from b"
  "ib_close_deadlines (fire_session_reset b) = ib_close_deadlines b"
  "ib_last_takeover_at (fire_session_reset b) = ib_last_takeover_at b"
  "fs_recv_bufs (fire_session_reset b) = fs_recv_bufs b"
  "is_live h (fire_session_reset b) = is_live h b"
  by (simp_all add: fire_session_reset_def session_simps is_live_def Let_def)

lemma forget_session_session [session_simps]:
  "ib_wt_sessions (forget_session g b) = (ib_wt_sessions b)(g := None)"
  "ib_connections (forget_session g b) = ib_connections b"
  "ib_newly_accepted (forget_session g b) = ib_newly_accepted b"
  "ib_last_hello_from (forget_session g b) = (if is_live g b then None else ib_last_hello_from b)"
  "ib_close_deadlines (forget_session g b) = AList.delete g (ib_close_deadlines b)"
  "ib_last_takeover_at (forget_session g b) = ib_last_takeover_at b"
  "fs_recv_bufs (forget_session g b) = (fs_recv_bufs b)(g := [])"
  "is_live h (forget_session g b) = (is_live h b \<and> h \<noteq> g)"
  by (auto simp: forget_session_def session_simps is_live_def Let_def)

lemma insert_deadline_session [session_simps]:
  "ib_wt_sessions (insert_deadline g at code b) = ib_wt_sessions b"
  "ib_connections (insert_deadline g at code b) = ib_connections b"
  "ib_newly_accepted (insert_deadline g at code b) = ib_newly_accepted b"
  "ib_last_hello_from (insert_deadline g at code b) = ib_last_hello_from b"
  "ib_close_deadlines (insert_deadline g at code b) = AList.update g \<lparr> cd_at = at, cd_code = code \<rparr> (ib_close_deadlines b)"
  "ib_last_takeover_at (insert_deadline g at code b) = ib_last_takeover_at b"
  "fs_recv_bufs (insert_deadline g at code b) = fs_recv_bufs b"
  "is_live h (insert_deadline g at code b) = is_live h b"
  by (simp_all add: insert_deadline_def is_live_def)

lemma note_call_pow_session [session_simps]:
  "ib_wt_sessions ((note_call c ^^ n) b) = ib_wt_sessions b"
  "ib_connections ((note_call c ^^ n) b) = ib_connections b"
  "ib_newly_accepted ((note_call c ^^ n) b) = ib_newly_accepted b"
  "ib_last_hello_from ((note_call c ^^ n) b) = ib_last_hello_from b"
  "ib_close_deadlines ((note_call c ^^ n) b) = ib_close_deadlines b"
  "ib_last_takeover_at ((note_call c ^^ n) b) = ib_last_takeover_at b"
  "fs_recv_bufs ((note_call c ^^ n) b) = fs_recv_bufs b"
  "is_live h ((note_call c ^^ n) b) = is_live h b"
  by (induction n) (simp_all add: session_simps)

lemma evict_session_session [session_simps]:
  "ib_wt_sessions (evict_session now g reason b) = (ib_wt_sessions b)(g := None)"
  "ib_connections (evict_session now g reason b) = ib_connections b"
  "ib_newly_accepted (evict_session now g reason b) = ib_newly_accepted b"
  "ib_last_hello_from (evict_session now g reason b) = (if is_live g b then None else ib_last_hello_from b)"
  "ib_close_deadlines (evict_session now g reason b) = AList.update g \<lparr> cd_at = now + EVICT_CLOSE_GRACE, cd_code = CLOSE_CODE_EVICTED \<rparr> (AList.delete g (ib_close_deadlines b))"
  "ib_last_takeover_at (evict_session now g reason b) = ib_last_takeover_at b"
  "fs_recv_bufs (evict_session now g reason b) = (fs_recv_bufs b)(g := [])"
  "is_live h (evict_session now g reason b) = (is_live h b \<and> h \<noteq> g)"
  by (auto simp: evict_session_def session_simps is_live_def Let_def)


definition displaces :: "nat \<Rightarrow> IoBridge \<Rightarrow> bool" where
  "displaces from b \<longleftrightarrow> ib_last_hello_from b \<noteq> None \<and> \<not> is_live from b"

definition hello_refused :: "nat \<Rightarrow> nat \<Rightarrow> IoBridge \<Rightarrow> bool" where
  "hello_refused now from b \<longleftrightarrow> displaces from b \<and> takeover_rate_limited now b"

definition evict_deadlines :: "nat \<Rightarrow> nat option \<Rightarrow> (nat \<times> CloseDeadline) list \<Rightarrow> (nat \<times> CloseDeadline) list" where
  "evict_deadlines now incumbent ds = (case incumbent of
     Some i \<Rightarrow> AList.update i \<lparr> cd_at = now + EVICT_CLOSE_GRACE, cd_code = CLOSE_CODE_EVICTED \<rparr> (AList.delete i ds)
   | None \<Rightarrow> ds)"

lemma begin_session_session [session_simps]:
  assumes "incumbent \<noteq> ib_last_hello_from b"
  shows "ib_wt_sessions (begin_session now incumbent b) =
      (case incumbent of Some i \<Rightarrow> (ib_wt_sessions b)(i := None) | None \<Rightarrow> ib_wt_sessions b)"
    "ib_connections (begin_session now incumbent b) = ib_connections b"
    "ib_newly_accepted (begin_session now incumbent b) = ib_newly_accepted b"
    "ib_last_hello_from (begin_session now incumbent b) = ib_last_hello_from b"
    "ib_close_deadlines (begin_session now incumbent b) = evict_deadlines now incumbent (ib_close_deadlines b)"
    "ib_last_takeover_at (begin_session now incumbent b) = ib_last_takeover_at b"
    "fs_recv_bufs (begin_session now incumbent b) =
      (case incumbent of Some i \<Rightarrow> (fs_recv_bufs b)(i := []) | None \<Rightarrow> fs_recv_bufs b)"
  using assms by (auto simp: begin_session_def reset_session_instruments_def session_simps is_live_def Let_def
      evict_deadlines_def split: option.splits)

text \<open>The three outcomes of a HELLO.\<close>

lemma hello_unregistered: "ib_wt_sessions b from = None \<Longrightarrow> apply_hello now from caps b = b"
  by (simp add: apply_hello_def)

lemma hello_refused_result:
  "ib_wt_sessions b from \<noteq> None \<Longrightarrow> hello_refused now from b \<Longrightarrow>
   apply_hello now from caps b = insert_deadline from now CLOSE_CODE_TAKEOVER_RATE_LIMITED b"
  by (auto simp: apply_hello_def hello_refused_def displaces_def is_live_def Let_def)

definition evictee :: "nat \<Rightarrow> IoBridge \<Rightarrow> nat option" where
  "evictee from b = (if displaces from b then ib_last_hello_from b else None)"

lemma hello_accepted:
  assumes "ib_wt_sessions b from \<noteq> None" "\<not> hello_refused now from b"
  shows "ib_wt_sessions (apply_hello now from caps b) =
      (case evictee from b of Some i \<Rightarrow> (ib_wt_sessions b)(i := None) | None \<Rightarrow> ib_wt_sessions b)"
    "ib_connections (apply_hello now from caps b) = ib_connections b"
    "ib_newly_accepted (apply_hello now from caps b) = ib_newly_accepted b"
    "ib_last_hello_from (apply_hello now from caps b) = Some from"
    "ib_close_deadlines (apply_hello now from caps b) =
      evict_deadlines now (evictee from b) (AList.delete from (ib_close_deadlines b))"
    "ib_last_takeover_at (apply_hello now from caps b) =
      (if displaces from b then Some now else ib_last_takeover_at b)"
    "fs_recv_bufs (apply_hello now from caps b) =
      (case evictee from b of Some i \<Rightarrow> (fs_recv_bufs b)(i := []) | None \<Rightarrow> fs_recv_bufs b)"
  using assms by (auto simp: apply_hello_def evictee_def hello_refused_def displaces_def is_live_def session_simps Let_def
      evict_deadlines_def split: option.splits)

lemma hello_is_live:
  "is_live h (apply_hello now from caps b) \<longleftrightarrow>
     (if ib_wt_sessions b from = None \<or> hello_refused now from b then is_live h b else h = from)"
  using hello_accepted(4)[of b "from" now caps] hello_refused_result[of b "from" now caps]
  by (cases "ib_wt_sessions b from = None"; cases "hello_refused now from b")
    (auto simp: hello_unregistered session_simps is_live_def)

text \<open>Every other message leaves the session table alone.\<close>

lemma handle_other_session [session_simps]:
  assumes "\<not> is_hello m"
  shows "ib_wt_sessions (handle_feedback now from m b) = ib_wt_sessions b"
    "ib_connections (handle_feedback now from m b) = ib_connections b"
    "ib_newly_accepted (handle_feedback now from m b) = ib_newly_accepted b"
    "ib_last_hello_from (handle_feedback now from m b) = ib_last_hello_from b"
    "ib_close_deadlines (handle_feedback now from m b) = ib_close_deadlines b"
    "ib_last_takeover_at (handle_feedback now from m b) = ib_last_takeover_at b"
    "fs_recv_bufs (handle_feedback now from m b) = fs_recv_bufs b"
  using assms by (cases m; simp add: ingest_feedback_for_adaptation_def handle_decode_error_def
      recover_from_decode_error_def handle_reset_request_def mark_h264_unavailable_def handle_display_mode_def
      session_simps Let_def split: option.split prod.split)+

section \<open>Invariant\<close>

text \<open>The close deadline of a connection, and what each operation does to it.\<close>

definition deadline :: "IoBridge \<Rightarrow> nat \<Rightarrow> CloseDeadline option" where
  "deadline b = map_of (ib_close_deadlines b)"

definition deadlines_distinct :: "IoBridge \<Rightarrow> bool" where
  "deadlines_distinct b \<longleftrightarrow> distinct (map fst (ib_close_deadlines b))"

lemmas alist_simps = AList.delete_conv' AList.update_conv' AList.distinct_delete AList.distinct_update

lemma deadline_note_call [session_simps]:
  "deadline (note_call c b) = deadline b" "deadlines_distinct (note_call c b) = deadlines_distinct b"
  by (simp_all add: deadline_def deadlines_distinct_def session_simps)

lemma deadline_other_fields [session_simps]:
  "deadline (b\<lparr> ib_newly_accepted := hs \<rparr>) = deadline b"
  "deadlines_distinct (b\<lparr> ib_newly_accepted := hs \<rparr>) = deadlines_distinct b"
  "deadline (b\<lparr> ib_connections := hs \<rparr>) = deadline b"
  "deadlines_distinct (b\<lparr> ib_connections := hs \<rparr>) = deadlines_distinct b"
  "deadline (b\<lparr> ib_wt_sessions := w \<rparr>) = deadline b"
  "deadlines_distinct (b\<lparr> ib_wt_sessions := w \<rparr>) = deadlines_distinct b"
  by (simp_all add: deadline_def deadlines_distinct_def)

lemma deadline_forget [session_simps]:
  "deadline (forget_session g b) = (deadline b)(g := None)"
  "deadlines_distinct b \<Longrightarrow> deadlines_distinct (forget_session g b)"
  by (auto simp: deadline_def deadlines_distinct_def session_simps alist_simps)

lemma deadline_insert [session_simps]:
  "deadline (insert_deadline g at code b) = (deadline b)(g \<mapsto> \<lparr> cd_at = at, cd_code = code \<rparr>)"
  "deadlines_distinct b \<Longrightarrow> deadlines_distinct (insert_deadline g at code b)"
  by (auto simp: deadline_def deadlines_distinct_def session_simps alist_simps)

lemma deadline_hello_accepted:
  assumes "ib_wt_sessions b from \<noteq> None" "\<not> hello_refused now from b"
  shows "deadline (apply_hello now from caps b) = (case evictee from b of
      None \<Rightarrow> (deadline b)(from := None)
    | Some i \<Rightarrow> (deadline b)(from := None, i \<mapsto> \<lparr> cd_at = now + EVICT_CLOSE_GRACE, cd_code = CLOSE_CODE_EVICTED \<rparr>))"
    "deadlines_distinct b \<Longrightarrow> deadlines_distinct (apply_hello now from caps b)"
  by (auto simp: deadline_def deadlines_distinct_def hello_accepted[OF assms] evict_deadlines_def alist_simps
      split: option.split)

lemma handle_other_deadline [session_simps]:
  assumes "\<not> is_hello m"
  shows "deadline (handle_feedback now from m b) = deadline b"
    "deadlines_distinct (handle_feedback now from m b) = deadlines_distinct b" "is_live h (handle_feedback now from m b) = is_live h b"
  using assms by (simp_all add: deadline_def deadlines_distinct_def is_live_def session_simps)

text \<open>
  A registered connection is one the QUIC server holds and has already armed; it is live, and then not due to be
  closed, or it has a deadline.  The live session is registered.
\<close>

definition session_inv :: "IoBridge \<Rightarrow> bool" where
  "session_inv b \<longleftrightarrow>
     (\<forall>h. is_live h b \<longrightarrow> ib_wt_sessions b h \<noteq> None) \<and>
     (\<forall>h. ib_wt_sessions b h \<noteq> None \<longrightarrow>
        h \<in> set (ib_connections b) \<and> h \<notin> set (ib_newly_accepted b) \<and> (is_live h b \<longleftrightarrow> deadline b h = None)) \<and>
     deadlines_distinct b"

lemma session_inv_forget: "session_inv b \<Longrightarrow> session_inv (forget_session g b)"
  by (auto simp: session_inv_def session_simps)

lemma live_unique: "is_live h b \<Longrightarrow> is_live g b \<Longrightarrow> h = g"
  by (simp add: is_live_def)

lemma evictee_Some: "evictee from b = Some i \<longleftrightarrow> is_live i b \<and> i \<noteq> from"
  by (auto simp: evictee_def displaces_def is_live_def)

lemma evictee_None: "evictee from b = None \<Longrightarrow> is_live h b \<Longrightarrow> h = from"
  by (auto simp: evictee_def displaces_def is_live_def split: if_splits)

lemma session_inv_hello:
  assumes inv: "session_inv b"
  shows "session_inv (apply_hello now from caps b)"
proof (cases "ib_wt_sessions b from = None \<or> hello_refused now from b")
  case True
  have "session_inv (insert_deadline from now CLOSE_CODE_TAKEOVER_RATE_LIMITED b)" if "\<not> is_live from b"
    using inv that by (auto simp: session_inv_def session_simps)
  moreover have "\<not> is_live from b" if "hello_refused now from b" using that by (simp add: hello_refused_def displaces_def)
  ultimately show ?thesis using True inv hello_refused_result[of b "from" now caps]
    by (cases "ib_wt_sessions b from = None") (auto simp: hello_unregistered)
next
  case False
  then have reg: "ib_wt_sessions b from \<noteq> None" and ok: "\<not> hello_refused now from b" by auto
  note acc = hello_accepted[OF reg ok, of caps] deadline_hello_accepted(1)[OF reg ok, of caps]
  have "deadlines_distinct (apply_hello now from caps b)"
    using inv deadline_hello_accepted(2)[OF reg ok] by (simp add: session_inv_def)
  note acc = acc this
  have live: "is_live h (apply_hello now from caps b) \<longleftrightarrow> h = from" for h using reg ok by (auto simp: hello_is_live)
  show ?thesis
  proof (cases "evictee from b")
    case None
    then have "\<not> is_live h b" if "h \<noteq> from" for h using that evictee_None by blast
    then show ?thesis using None reg inv unfolding session_inv_def live acc(1-8) using acc(9) by auto
  next
    case (Some i)
    then have i: "is_live i b" "i \<noteq> from" by (simp_all add: evictee_Some)
    then have "\<not> is_live h b" if "h \<noteq> i" for h using that live_unique by blast
    then show ?thesis using i Some reg inv unfolding session_inv_def live acc(1-8) using acc(9) by auto
  qed
qed

section \<open>The sweep\<close>

lemma arm_one_session [session_simps]:
  "ib_wt_sessions (track_recheck now h (arm_hello_deadline now h b)) = ib_wt_sessions b"
  "ib_connections (track_recheck now h (arm_hello_deadline now h b)) = ib_connections b"
  "ib_newly_accepted (track_recheck now h (arm_hello_deadline now h b)) = ib_newly_accepted b"
  "ib_last_hello_from (track_recheck now h (arm_hello_deadline now h b)) = ib_last_hello_from b"
  "ib_last_takeover_at (track_recheck now h (arm_hello_deadline now h b)) = ib_last_takeover_at b"
  "is_live g (track_recheck now h (arm_hello_deadline now h b)) = is_live g b"
  "deadline (track_recheck now h (arm_hello_deadline now h b)) =
     (deadline b)(h \<mapsto> \<lparr> cd_at = now + HELLO_DEADLINE, cd_code = CLOSE_CODE_NO_HELLO \<rparr>)"
  "deadlines_distinct b \<Longrightarrow> deadlines_distinct (track_recheck now h (arm_hello_deadline now h b))"
  by (simp_all add: track_recheck_def arm_hello_deadline_def session_simps)

lemma arm_fold_session:
  defines "arm \<equiv> \<lambda>now h b. track_recheck now h (arm_hello_deadline now h b)"
  shows "ib_wt_sessions (fold (arm now) hs b) = ib_wt_sessions b"
    "ib_connections (fold (arm now) hs b) = ib_connections b"
    "ib_newly_accepted (fold (arm now) hs b) = ib_newly_accepted b"
    "ib_last_hello_from (fold (arm now) hs b) = ib_last_hello_from b"
    "ib_last_takeover_at (fold (arm now) hs b) = ib_last_takeover_at b"
    "deadline (fold (arm now) hs b) h = (if h \<in> set hs
       then Some \<lparr> cd_at = now + HELLO_DEADLINE, cd_code = CLOSE_CODE_NO_HELLO \<rparr> else deadline b h)"
    "deadlines_distinct b \<Longrightarrow> deadlines_distinct (fold (arm now) hs b)"
  unfolding arm_def by (induction hs arbitrary: b) (simp_all add: session_simps)

lemma arm_accepted_session [session_simps]:
  "ib_wt_sessions (arm_accepted now b) = ib_wt_sessions b"
  "ib_connections (arm_accepted now b) = ib_connections b"
  "ib_newly_accepted (arm_accepted now b) = []"
  "ib_last_hello_from (arm_accepted now b) = ib_last_hello_from b"
  "ib_last_takeover_at (arm_accepted now b) = ib_last_takeover_at b"
  "is_live h (arm_accepted now b) = is_live h b"
  "deadline (arm_accepted now b) h = (if h \<in> set (ib_newly_accepted b)
     then Some \<lparr> cd_at = now + HELLO_DEADLINE, cd_code = CLOSE_CODE_NO_HELLO \<rparr> else deadline b h)"
  "deadlines_distinct b \<Longrightarrow> deadlines_distinct (arm_accepted now b)"
  by (simp_all add: arm_accepted_def arm_fold_session is_live_def session_simps)

lemma close_due_session [session_simps]:
  "ib_wt_sessions (close_due e b) = (ib_wt_sessions b)(fst e := None)"
  "ib_connections (close_due e b) = ib_connections b"
  "ib_newly_accepted (close_due e b) = ib_newly_accepted b"
  "ib_last_takeover_at (close_due e b) = ib_last_takeover_at b"
  "is_live h (close_due e b) = (is_live h b \<and> h \<noteq> fst e)"
  "deadline (close_due e b) = (deadline b)(fst e := None)"
  "deadlines_distinct b \<Longrightarrow> deadlines_distinct (close_due e b)"
  by (auto simp: close_due_def session_simps Let_def is_live_def deadline_def deadlines_distinct_def alist_simps)

lemma close_fold_session:
  "ib_wt_sessions (fold close_due es b) h = (if h \<in> fst ` set es then None else ib_wt_sessions b h)"
  "ib_connections (fold close_due es b) = ib_connections b"
  "ib_newly_accepted (fold close_due es b) = ib_newly_accepted b"
  "ib_last_takeover_at (fold close_due es b) = ib_last_takeover_at b"
  "is_live h (fold close_due es b) = (is_live h b \<and> h \<notin> fst ` set es)"
  "deadline (fold close_due es b) h = (if h \<in> fst ` set es then None else deadline b h)"
  "deadlines_distinct b \<Longrightarrow> deadlines_distinct (fold close_due es b)"
  by (induction es arbitrary: b) (auto simp: session_simps)

definition swept :: "nat \<Rightarrow> IoBridge \<Rightarrow> nat \<Rightarrow> bool" where
  "swept now b h \<longleftrightarrow> (case deadline (arm_accepted now b) h of None \<Rightarrow> False | Some d \<Rightarrow> cd_at d \<le> now)"

lemma swept_due:
  assumes "deadlines_distinct b"
  shows "h \<in> fst ` set (filter (\<lambda>(_, d). cd_at d \<le> now) (ib_close_deadlines (arm_accepted now b))) \<longleftrightarrow> swept now b h"
proof -
  let ?ds = "ib_close_deadlines (arm_accepted now b)"
  have "distinct (map fst ?ds)" using assms by (simp add: session_simps flip: deadlines_distinct_def)
  then have "(h, d) \<in> set ?ds \<longleftrightarrow> deadline (arm_accepted now b) h = Some d" for d
    by (simp add: deadline_def map_of_eq_Some_iff)
  moreover have "h \<in> fst ` set (filter (\<lambda>(_, d). cd_at d \<le> now) ?ds) \<longleftrightarrow> (\<exists>d. (h, d) \<in> set ?ds \<and> cd_at d \<le> now)"
    by force
  ultimately show ?thesis by (simp add: swept_def split: option.split)
qed

lemma sweep_session [session_simps]:
  assumes "deadlines_distinct b"
  shows "ib_wt_sessions (sweep_close_deadlines now b) h = (if swept now b h then None else ib_wt_sessions b h)"
    "ib_connections (sweep_close_deadlines now b) = ib_connections b"
    "ib_newly_accepted (sweep_close_deadlines now b) = []"
    "ib_last_takeover_at (sweep_close_deadlines now b) = ib_last_takeover_at b"
    "is_live h (sweep_close_deadlines now b) = (is_live h b \<and> \<not> swept now b h)"
    "deadline (sweep_close_deadlines now b) h = (if swept now b h then None else deadline (arm_accepted now b) h)"
    "deadlines_distinct (sweep_close_deadlines now b)"
  using assms unfolding sweep_close_deadlines_def Let_def
  by (simp_all add: close_fold_session swept_due session_simps del: set_filter)

lemma session_inv_sweep: "session_inv b \<Longrightarrow> session_inv (sweep_close_deadlines now b)"
  by (auto simp: session_inv_def session_simps swept_def)

lemma live_not_swept: "session_inv b \<Longrightarrow> is_live h b \<Longrightarrow> \<not> swept now b h"
  by (auto simp: session_inv_def swept_def session_simps)

section \<open>Feedback of one sender\<close>

lemma is_live_bufs [simp]:
  "is_live h (b\<lparr> fs_recv_bufs := bufs \<rparr>) = is_live h b" "is_live h (b\<lparr> fs_non_live_drops := n \<rparr>) = is_live h b"
  "session_inv (b\<lparr> fs_recv_bufs := bufs \<rparr>) = session_inv b" "session_inv (b\<lparr> fs_non_live_drops := n \<rparr>) = session_inv b"
  by (simp_all add: is_live_def session_inv_def deadline_def deadlines_distinct_def)

lemma hello_keeps_buffer:
  "fs_recv_bufs b from = [] \<Longrightarrow> fs_recv_bufs (apply_hello now from caps b) from = []"
proof (cases "ib_wt_sessions b from = None \<or> hello_refused now from b")
  case True
  then show "fs_recv_bufs b from = [] \<Longrightarrow> ?thesis" using hello_refused_result[of b "from" now caps]
    by (cases "ib_wt_sessions b from = None") (auto simp: hello_unregistered session_simps)
next
  case False
  then show "fs_recv_bufs b from = [] \<Longrightarrow> ?thesis"
    by (auto simp: hello_accepted split: option.split)
qed

lemma handle_keeps_buffer:
  "fs_recv_bufs b from = [] \<Longrightarrow> fs_recv_bufs (handle_feedback now from m b) from = []"
proof (cases "is_hello m")
  case True
  then show "fs_recv_bufs b from = [] \<Longrightarrow> ?thesis" by (cases m) (simp_all add: hello_keeps_buffer)
next
  case False
  then show "fs_recv_bufs b from = [] \<Longrightarrow> ?thesis" by (simp add: session_simps)
qed

lemma handle_session_inv: "session_inv b \<Longrightarrow> session_inv (handle_feedback now from m b)"
proof (cases "is_hello m")
  case True
  then show "session_inv b \<Longrightarrow> ?thesis" by (cases m) (simp_all add: session_inv_hello)
next
  case False
  then show "session_inv b \<Longrightarrow> ?thesis" by (simp add: session_inv_def session_simps)
qed

interpretation bridge: feedback_handler is_live "handle_feedback now" "\<lambda>_. session_inv" for now
  by unfold_locales (simp_all add: handle_keeps_buffer handle_session_inv)

lemma session_inv_feedback: "session_inv b \<Longrightarrow> session_inv (bridge_feedback now from data b)"
  unfolding bridge_feedback_def by (rule bridge.dispatch_inv)

text \<open>
  During one sender's call from \<open>b0\<close> on, the session table is the one before, up to deadlines of registered
  connections set to the current time, or the sender has taken over once.
\<close>

definition taken_over :: "nat \<Rightarrow> nat \<Rightarrow> IoBridge \<Rightarrow> IoBridge \<Rightarrow> bool" where
  "taken_over now from b0 b \<longleftrightarrow>
     ib_last_hello_from b = Some from \<and> \<not> is_live from b0 \<and> ib_wt_sessions b0 from \<noteq> None \<and>
     (if ib_last_hello_from b0 = None then ib_last_takeover_at b = ib_last_takeover_at b0
      else ib_last_takeover_at b = Some now \<and> \<not> takeover_rate_limited now b0)"

definition during :: "nat \<Rightarrow> IoBridge \<Rightarrow> nat \<Rightarrow> IoBridge \<Rightarrow> bool" where
  "during now b0 from b \<longleftrightarrow>
     ib_connections b = ib_connections b0 \<and> ib_newly_accepted b = ib_newly_accepted b0 \<and>
     (\<forall>h. ib_wt_sessions b h = ib_wt_sessions b0 h \<or> ib_wt_sessions b h = None \<and> is_live h b0 \<and> h \<noteq> from) \<and>
     (\<forall>h. deadline b h = deadline b0 h \<or> ib_wt_sessions b0 h \<noteq> None) \<and>
     (\<forall>h d. deadline b h = Some d \<longrightarrow>
        deadline b0 h = Some d \<or> ib_wt_sessions b h = None \<or> cd_at d \<le> now) \<and>
     (ib_last_hello_from b = ib_last_hello_from b0 \<and> ib_last_takeover_at b = ib_last_takeover_at b0 \<or> taken_over now from b0 b)"

lemma during_hello:
  assumes inv: "session_inv b0" and dur: "during now b0 from b"
  shows "during now b0 from (apply_hello now from caps b)"
proof (cases "ib_wt_sessions b from = None \<or> hello_refused now from b")
  case True
  show ?thesis
  proof (cases "ib_wt_sessions b from = None")
    case False
    then have "ib_wt_sessions b0 from \<noteq> None" using dur unfolding during_def by metis
    moreover have "hello_refused now from b" using True False by simp
    ultimately show ?thesis using dur False hello_refused_result[of b "from" now caps]
      unfolding during_def taken_over_def by (auto simp: session_simps)
  qed (use dur in \<open>simp add: hello_unregistered\<close>)
next
  case False
  then have reg: "ib_wt_sessions b from \<noteq> None" and ok: "\<not> hello_refused now from b" by auto
  have reg0: "ib_wt_sessions b0 from \<noteq> None" using dur reg unfolding during_def by metis
  have live_reg: "ib_wt_sessions b0 h \<noteq> None" if "is_live h b0" for h using inv that by (simp add: session_inv_def)
  note acc = hello_accepted[OF reg ok, of caps] deadline_hello_accepted(1)[OF reg ok, of caps]
  show ?thesis
  proof (cases "is_live from b")
    case True
    then have "evictee from b = None" "\<not> displaces from b" by (simp_all add: evictee_def displaces_def)
    then show ?thesis using True dur reg0 unfolding during_def acc taken_over_def is_live_def by auto
  next
    case False
    then have same: "ib_last_hello_from b = ib_last_hello_from b0" "ib_last_takeover_at b = ib_last_takeover_at b0"
      using dur by (auto simp: during_def taken_over_def is_live_def)
    have limited: "takeover_rate_limited now b = takeover_rate_limited now b0"
      using same by (simp add: takeover_rate_limited_def)
    have "taken_over now from b0 (apply_hello now from caps b)"
      using False same reg0 ok limited unfolding taken_over_def acc
      by (auto simp: displaces_def hello_refused_def is_live_def)
    moreover have "is_live i b0 \<and> i \<noteq> from" if "evictee from b = Some i" for i
      using that same by (simp add: evictee_Some is_live_def)
    ultimately show ?thesis using dur reg0 live_reg unfolding during_def acc
      by (cases "evictee from b") auto
  qed
qed

lemma during_refl: "during now b0 from b0"
  by (simp add: during_def)

lemma handle_during: "session_inv b0 \<Longrightarrow> during now b0 from b \<Longrightarrow> during now b0 from (handle_feedback now from m b)"
proof (cases "is_hello m")
  case True
  then show "session_inv b0 \<Longrightarrow> during now b0 from b \<Longrightarrow> ?thesis" by (cases m) (simp_all add: during_hello)
next
  case False
  show "during now b0 from b \<Longrightarrow> ?thesis"
    unfolding during_def taken_over_def handle_other_session[OF False] handle_other_deadline[OF False] .
qed

lemma during_bufs:
  "during now b0 from (b\<lparr> fs_recv_bufs := bufs \<rparr>) = during now b0 from b"
  "during now b0 from (b\<lparr> fs_non_live_drops := n \<rparr>) = during now b0 from b"
  by (simp_all add: during_def taken_over_def deadline_def)

interpretation sender: feedback_handler is_live "handle_feedback now" "\<lambda>from b. session_inv b0 \<and> during now b0 from b" for now b0
  by unfold_locales
    (simp_all add: handle_keeps_buffer handle_during during_bufs)

lemma during_feedback: "session_inv b \<Longrightarrow> during now b from (bridge_feedback now from data b)"
  unfolding bridge_feedback_def using sender.dispatch_inv[of b now "from" b data] by (simp add: during_refl)

end
