(* ===== verification/Session_Runs.thy ===== *)
theory Session_Runs
  imports Session
begin

text \<open>
  Runs of the server's session logic: the events of the bridge as a step relation, the invariants every event keeps,
  and the properties of the session and of the feedback stream that follow.
\<close>

section \<open>Runs\<close>

text \<open>
  What is observed of a run: the connections still shaking hands, when each connection was armed, the time of the
  last event and the times at which a live session was displaced by another.
\<close>

record trace =
  tr_handshaking :: "nat set"
  tr_armed :: "nat \<Rightarrow> nat"
  tr_clock :: nat
  tr_takeovers :: "nat list"

text \<open>
  The events of the bridge, at non-decreasing times.  The QUIC server gives a new connection a handle it does not
  hold, and reports a connection established once, after it was accepted.  A turn of the event loop sweeps before
  it drains connection events, so a connection is armed before it can be established, lost, reaped or revoked, and a
  connection that was closed or revoked while shaking hands is not established.
\<close>

inductive session_step :: "IoBridge \<times> trace \<Rightarrow> IoBridge \<times> trace \<Rightarrow> bool" where
  accept: "session_step (b, t)
     (b\<lparr> ib_connections := h # ib_connections b, ib_newly_accepted := ib_newly_accepted b @ [h] \<rparr>,
      t\<lparr> tr_handshaking := insert h (tr_handshaking t), tr_clock := now \<rparr>)"
    if "tr_clock t \<le> now" "h \<notin> set (ib_connections b)"
| established: "session_step (b, t)
     (on_connection_established now h b, t\<lparr> tr_handshaking := tr_handshaking t - {h}, tr_clock := now \<rparr>)"
    if "tr_clock t \<le> now" "h \<in> tr_handshaking t" "h \<notin> set (ib_newly_accepted b)"
| wt_connected: "session_step (b, t)
     (b\<lparr> ib_wt_sessions := (ib_wt_sessions b)(h \<mapsto> True) \<rparr>, t\<lparr> tr_clock := now \<rparr>)"
    if "tr_clock t \<le> now" "ib_wt_sessions b h \<noteq> None"
| feedback: "session_step (b, t)
     (bridge_feedback now h data b,
      t\<lparr> tr_clock := now,
         tr_takeovers := tr_takeovers t @
           (if ib_last_hello_from b \<noteq> None \<and> ib_last_hello_from (bridge_feedback now h data b) \<noteq> ib_last_hello_from b
            then [now] else []) \<rparr>)"
    if "tr_clock t \<le> now"
| lost: "session_step (b, t)
     (on_connection_gone now h b, t\<lparr> tr_handshaking := tr_handshaking t - {h}, tr_clock := now \<rparr>)"
    if "tr_clock t \<le> now" "h \<notin> set (ib_newly_accepted b)"
| reaped: "session_step (b, t)
     (on_connection_gone now h (b\<lparr> ib_connections := removeAll h (ib_connections b) \<rparr>),
      t\<lparr> tr_handshaking := tr_handshaking t - {h}, tr_clock := now \<rparr>)"
    if "tr_clock t \<le> now" "h \<notin> set (ib_newly_accepted b)"
| revoked: "session_step (b, t)
     (revoke_session now h b, t\<lparr> tr_handshaking := tr_handshaking t - {h}, tr_clock := now \<rparr>)"
    if "tr_clock t \<le> now" "h \<notin> set (ib_newly_accepted b)"
| sweep: "session_step (b, t)
     (sweep_close_deadlines now b,
      t\<lparr> tr_handshaking := {h \<in> tr_handshaking t. deadline (sweep_close_deadlines now b) h \<noteq> None},
         tr_armed := (\<lambda>h. if h \<in> set (ib_newly_accepted b) then now else tr_armed t h), tr_clock := now \<rparr>)"
    if "tr_clock t \<le> now"
| display: "session_step (b, t) (display_on_timeout now b, t\<lparr> tr_clock := now \<rparr>)"
    if "tr_clock t \<le> now"

definition no_hello_deadline :: "IoBridge \<Rightarrow> nat \<Rightarrow> bool" where
  "no_hello_deadline b h \<longleftrightarrow> (case deadline b h of None \<Rightarrow> False | Some d \<Rightarrow> cd_code d = CLOSE_CODE_NO_HELLO)"

definition handshake_inv :: "IoBridge \<Rightarrow> trace \<Rightarrow> bool" where
  "handshake_inv b t \<longleftrightarrow>
     set (ib_newly_accepted b) \<subseteq> set (ib_connections b) \<and>
     (\<forall>h \<in> tr_handshaking t. ib_wt_sessions b h = None \<and> h \<in> set (ib_connections b) \<and>
        (h \<in> set (ib_newly_accepted b) \<or> no_hello_deadline b h))"

definition watched :: "IoBridge \<Rightarrow> trace \<Rightarrow> nat \<Rightarrow> bool" where
  "watched b t h \<longleftrightarrow> ib_wt_sessions b h \<noteq> None \<or> h \<in> tr_handshaking t \<and> h \<notin> set (ib_newly_accepted b)"

definition timely :: "trace \<Rightarrow> nat \<Rightarrow> CloseDeadline \<Rightarrow> bool" where
  "timely t h d \<longleftrightarrow> cd_at d \<le> tr_armed t h + HELLO_DEADLINE \<or> cd_at d \<le> tr_clock t"

definition deadline_inv :: "IoBridge \<Rightarrow> trace \<Rightarrow> bool" where
  "deadline_inv b t \<longleftrightarrow> (\<forall>h d. deadline b h = Some d \<longrightarrow> watched b t h \<longrightarrow> timely t h d)"

definition takeover_inv :: "IoBridge \<Rightarrow> trace \<Rightarrow> bool" where
  "takeover_inv b t \<longleftrightarrow>
     ib_last_takeover_at b = (if tr_takeovers t = [] then None else Some (last (tr_takeovers t))) \<and>
     (\<forall>x \<in> set (tr_takeovers t). x \<le> tr_clock t) \<and>
     (\<forall>i. Suc i < length (tr_takeovers t) \<longrightarrow> tr_takeovers t ! i + TAKEOVER_MIN_INTERVAL \<le> tr_takeovers t ! Suc i)"

fun run_inv :: "IoBridge \<times> trace \<Rightarrow> bool" where
  "run_inv (b, t) = (session_inv b \<and> handshake_inv b t \<and> deadline_inv b t \<and> takeover_inv b t)"

lemma gone_session [session_simps]:
  "ib_wt_sessions (on_connection_gone now g b) = (ib_wt_sessions b)(g := None)"
  "ib_connections (on_connection_gone now g b) = ib_connections b"
  "ib_newly_accepted (on_connection_gone now g b) = ib_newly_accepted b"
  "ib_last_takeover_at (on_connection_gone now g b) = ib_last_takeover_at b"
  "is_live h (on_connection_gone now g b) = (is_live h b \<and> h \<noteq> g)"
  "deadline (on_connection_gone now g b) = (deadline b)(g := None)"
  "deadlines_distinct b \<Longrightarrow> deadlines_distinct (on_connection_gone now g b)"
  by (auto simp: on_connection_gone_def Let_def session_simps is_live_def deadline_def deadlines_distinct_def alist_simps)

lemma established_session [session_simps]:
  "ib_wt_sessions (on_connection_established now g b) = (ib_wt_sessions b)(g \<mapsto> False)"
  "ib_connections (on_connection_established now g b) = ib_connections b"
  "ib_newly_accepted (on_connection_established now g b) = ib_newly_accepted b"
  "ib_last_takeover_at (on_connection_established now g b) = ib_last_takeover_at b"
  "is_live h (on_connection_established now g b) = (is_live h b \<and> h \<noteq> g)"
  "deadline (on_connection_established now g b) = (deadline b)(g := if no_hello_deadline b g then deadline b g else None)"
  "deadlines_distinct b \<Longrightarrow> deadlines_distinct (on_connection_established now g b)"
  by (auto simp: on_connection_established_def Let_def session_simps is_live_def deadline_def deadlines_distinct_def
      alist_simps track_recheck_def no_hello_deadline_def split: option.split)

lemma revoke_session_session [session_simps]:
  "ib_wt_sessions (revoke_session now g b) = (ib_wt_sessions b)(g := None)"
  "ib_connections (revoke_session now g b) = ib_connections b"
  "ib_newly_accepted (revoke_session now g b) = ib_newly_accepted b"
  "ib_last_takeover_at (revoke_session now g b) = ib_last_takeover_at b"
  "is_live h (revoke_session now g b) = (is_live h b \<and> h \<noteq> g)"
  "deadline (revoke_session now g b) = (deadline b)(g \<mapsto> \<lparr> cd_at = now, cd_code = CLOSE_CODE_ACCESS_REVOKED \<rparr>)"
  "deadlines_distinct b \<Longrightarrow> deadlines_distinct (revoke_session now g b)"
  by (auto simp: revoke_session_def session_simps REVOKE_CLOSE_GRACE_def)

lemma display_session [session_simps]:
  "ib_wt_sessions (display_on_timeout now b) = ib_wt_sessions b"
  "ib_connections (display_on_timeout now b) = ib_connections b"
  "ib_newly_accepted (display_on_timeout now b) = ib_newly_accepted b"
  "ib_last_takeover_at (display_on_timeout now b) = ib_last_takeover_at b"
  "is_live h (display_on_timeout now b) = is_live h b"
  "deadline (display_on_timeout now b) = deadline b"
  "deadlines_distinct (display_on_timeout now b) = deadlines_distinct b"
  by (auto simp: display_on_timeout_def Let_def session_simps is_live_def deadline_def deadlines_distinct_def split: option.split)

lemma is_live_other_fields [session_simps]:
  "is_live h (b\<lparr> ib_newly_accepted := hs \<rparr>) = is_live h b"
  "is_live h (b\<lparr> ib_connections := hs \<rparr>) = is_live h b"
  "is_live h (b\<lparr> ib_wt_sessions := w \<rparr>) = is_live h b"
  by (simp_all add: is_live_def)

text \<open>Each event keeps each of the four invariants.\<close>

lemma takeover_inv_mono:
  "takeover_inv b t \<Longrightarrow> ib_last_takeover_at b' = ib_last_takeover_at b \<Longrightarrow> tr_takeovers t' = tr_takeovers t \<Longrightarrow>
   tr_clock t \<le> tr_clock t' \<Longrightarrow> takeover_inv b' t'"
  by (auto simp: takeover_inv_def intro: order_trans)

lemma deadline_inv_mono:
  assumes "deadline_inv b t" "tr_clock t \<le> tr_clock t'"
    and "\<And>h d. deadline b' h = Some d \<Longrightarrow> watched b' t' h \<Longrightarrow>
      timely t' h d \<or> deadline b h = Some d \<and> watched b t h \<and> tr_armed t' h = tr_armed t h"
  shows "deadline_inv b' t'"
  unfolding deadline_inv_def
proof (intro allI impI)
  fix h d assume d: "deadline b' h = Some d" "watched b' t' h"
  from assms(3)[OF this] show "timely t' h d"
  proof
    assume old: "deadline b h = Some d \<and> watched b t h \<and> tr_armed t' h = tr_armed t h"
    then have "timely t h d" using assms(1) by (auto simp: deadline_inv_def)
    then show ?thesis using old assms(2) by (auto simp: timely_def)
  qed
qed

lemma run_inv_accept:
  assumes "run_inv (b, t)" "tr_clock t \<le> now" "h \<notin> set (ib_connections b)"
  shows "run_inv (b\<lparr> ib_connections := h # ib_connections b, ib_newly_accepted := ib_newly_accepted b @ [h] \<rparr>,
      t\<lparr> tr_handshaking := insert h (tr_handshaking t), tr_clock := now \<rparr>)" (is "run_inv (?b, ?t)")
proof -
  have new: "ib_wt_sessions b h = None" using assms by (auto simp: session_inv_def)
  have "session_inv ?b" using assms(1) new by (auto simp: session_inv_def session_simps)
  moreover have "handshake_inv ?b ?t"
    using assms(1) new by (auto simp: handshake_inv_def session_simps no_hello_deadline_def)
  moreover have "deadline_inv ?b ?t"
    by (rule deadline_inv_mono[of b t]) (use assms in \<open>auto simp: session_simps watched_def\<close>)
  moreover have "takeover_inv ?b ?t" by (rule takeover_inv_mono[of b t]) (use assms in auto)
  ultimately show ?thesis by simp
qed

lemma run_inv_established:
  assumes "run_inv (b, t)" "tr_clock t \<le> now" "h \<in> tr_handshaking t" "h \<notin> set (ib_newly_accepted b)"
  shows "run_inv (on_connection_established now h b, t\<lparr> tr_handshaking := tr_handshaking t - {h}, tr_clock := now \<rparr>)"
    (is "run_inv (?b, ?t)")
proof -
  have h: "no_hello_deadline b h" "ib_wt_sessions b h = None" "h \<in> set (ib_connections b)"
    using assms by (auto simp: handshake_inv_def)
  then have d: "deadline b h \<noteq> None" by (auto simp: no_hello_deadline_def split: option.splits)
  have "session_inv ?b" using assms(1,4) h d by (auto simp: session_inv_def session_simps)
  moreover have "handshake_inv ?b ?t"
    using assms(1) by (auto simp: handshake_inv_def session_simps no_hello_deadline_def)
  moreover have "deadline_inv ?b ?t"
    by (rule deadline_inv_mono[of b t]) (use assms h in \<open>auto simp: session_simps watched_def split: if_splits\<close>)
  moreover have "takeover_inv ?b ?t" by (rule takeover_inv_mono[of b t]) (use assms in \<open>auto simp: session_simps\<close>)
  ultimately show ?thesis by simp
qed

lemma run_inv_wt_connected:
  assumes "run_inv (b, t)" "tr_clock t \<le> now" "ib_wt_sessions b h \<noteq> None"
  shows "run_inv (b\<lparr> ib_wt_sessions := (ib_wt_sessions b)(h \<mapsto> True) \<rparr>, t\<lparr> tr_clock := now \<rparr>)" (is "run_inv (?b, ?t)")
proof -
  have "session_inv ?b" using assms(1,3) by (auto simp: session_inv_def session_simps)
  moreover have "handshake_inv ?b ?t"
    using assms(1,3) by (auto simp: handshake_inv_def session_simps no_hello_deadline_def)
  moreover have "deadline_inv ?b ?t"
    by (rule deadline_inv_mono[of b t]) (use assms in \<open>auto simp: session_simps watched_def split: if_splits\<close>)
  moreover have "takeover_inv ?b ?t" by (rule takeover_inv_mono[of b t]) (use assms in auto)
  ultimately show ?thesis by simp
qed

text \<open>Losing, reaping and revoking a connection all remove it from the table.\<close>

lemma run_inv_removed:
  assumes "run_inv (b, t)" "tr_clock t \<le> now" "h \<notin> set (ib_newly_accepted b)"
    and wt: "ib_wt_sessions b' = (ib_wt_sessions b)(h := None)"
    and con: "ib_connections b' = ib_connections b \<or> ib_connections b' = removeAll h (ib_connections b)"
    and acc: "ib_newly_accepted b' = ib_newly_accepted b" "ib_last_takeover_at b' = ib_last_takeover_at b"
    and live: "\<And>g. is_live g b' \<longleftrightarrow> is_live g b \<and> g \<noteq> h"
    and dl: "\<And>g. g \<noteq> h \<Longrightarrow> deadline b' g = deadline b g" "deadlines_distinct b'"
  shows "run_inv (b', t\<lparr> tr_handshaking := tr_handshaking t - {h}, tr_clock := now \<rparr>)" (is "run_inv (_, ?t)")
proof -
  have inv: "session_inv b" "handshake_inv b t" using assms(1) by simp_all
  have "session_inv b'" using inv(1) con unfolding session_inv_def wt acc live by (auto simp: dl)
  moreover have "handshake_inv b' ?t"
    using inv(2) assms(3) con unfolding handshake_inv_def wt acc by (auto simp: no_hello_deadline_def dl)
  moreover have "deadline_inv b' ?t"
  proof (rule deadline_inv_mono[of b t])
    fix g d assume "deadline b' g = Some d" "watched b' ?t g"
    moreover from this have "g \<noteq> h" by (auto simp: watched_def wt)
    ultimately show "timely ?t g d \<or> deadline b g = Some d \<and> watched b t g \<and> tr_armed ?t g = tr_armed t g"
      by (simp add: dl watched_def wt acc)
  qed (use assms in auto)
  moreover have "takeover_inv b' ?t" by (rule takeover_inv_mono[of b t]) (use assms in auto)
  ultimately show ?thesis by simp
qed

lemma run_inv_display:
  assumes "run_inv (b, t)" "tr_clock t \<le> now"
  shows "run_inv (display_on_timeout now b, t\<lparr> tr_clock := now \<rparr>)" (is "run_inv (?b, ?t)")
proof -
  have "session_inv ?b" "handshake_inv ?b ?t"
    using assms(1) by (simp_all add: session_inv_def handshake_inv_def session_simps no_hello_deadline_def)
  moreover have "deadline_inv ?b ?t"
    by (rule deadline_inv_mono[of b t]) (use assms in \<open>auto simp: session_simps watched_def\<close>)
  moreover have "takeover_inv ?b ?t" by (rule takeover_inv_mono[of b t]) (use assms in \<open>auto simp: session_simps\<close>)
  ultimately show ?thesis by simp
qed

lemma run_inv_sweep:
  assumes "run_inv (b, t)" "tr_clock t \<le> now"
  shows "run_inv (sweep_close_deadlines now b,
      t\<lparr> tr_handshaking := {h \<in> tr_handshaking t. deadline (sweep_close_deadlines now b) h \<noteq> None},
         tr_armed := (\<lambda>h. if h \<in> set (ib_newly_accepted b) then now else tr_armed t h), tr_clock := now \<rparr>)"
    (is "run_inv (?b, ?t)")
proof -
  have dist: "deadlines_distinct b" using assms(1) by (simp add: session_inv_def)
  have "session_inv ?b" using assms(1) by (simp add: session_inv_sweep)
  moreover have "handshake_inv ?b ?t" using assms(1)
    by (auto simp: handshake_inv_def sweep_session[OF dist] arm_accepted_session no_hello_deadline_def split: if_splits option.splits)
  moreover have "deadline_inv ?b ?t"
    by (rule deadline_inv_mono[of b t])
      (use assms in \<open>auto simp: sweep_session[OF dist] arm_accepted_session watched_def timely_def split: if_splits\<close>)
  moreover have "takeover_inv ?b ?t"
    by (rule takeover_inv_mono[of b t]) (use assms in \<open>auto simp: sweep_session[OF dist]\<close>)
  ultimately show ?thesis by simp
qed

lemma during_table:
  assumes "during now b0 from b"
  shows "ib_connections b = ib_connections b0" "ib_newly_accepted b = ib_newly_accepted b0"
    "ib_wt_sessions b h = ib_wt_sessions b0 h \<or> ib_wt_sessions b h = None"
    "deadline b h = deadline b0 h \<or> ib_wt_sessions b0 h \<noteq> None"
    "deadline b h = Some d \<Longrightarrow> deadline b0 h = Some d \<or> ib_wt_sessions b h = None \<or> cd_at d \<le> now"
proof -
  note parts = assms[unfolded during_def]
  show "ib_connections b = ib_connections b0" "ib_newly_accepted b = ib_newly_accepted b0" using parts by simp_all
  show "ib_wt_sessions b h = ib_wt_sessions b0 h \<or> ib_wt_sessions b h = None"
    using parts[THEN conjunct2, THEN conjunct2, THEN conjunct1, THEN spec, of h] by auto
  show "deadline b h = deadline b0 h \<or> ib_wt_sessions b0 h \<noteq> None"
    using parts[THEN conjunct2, THEN conjunct2, THEN conjunct2, THEN conjunct1, THEN spec, of h] .
  show "deadline b h = Some d \<Longrightarrow> deadline b0 h = Some d \<or> ib_wt_sessions b h = None \<or> cd_at d \<le> now"
    using parts[THEN conjunct2, THEN conjunct2, THEN conjunct2, THEN conjunct2, THEN conjunct1, THEN spec, THEN spec, of h d]
    by simp
qed

lemma during_takeover:
  "during now b0 from b \<Longrightarrow>
     ib_last_hello_from b = ib_last_hello_from b0 \<and> ib_last_takeover_at b = ib_last_takeover_at b0 \<or>
     taken_over now from b0 b"
  unfolding during_def by (elim conjE)

lemma takeover_inv_feedback:
  assumes inv: "takeover_inv b t" "tr_clock t \<le> now" and dur: "during now b h b'"
  shows "takeover_inv b' (t\<lparr> tr_clock := now, tr_takeovers := tr_takeovers t @
    (if ib_last_hello_from b \<noteq> None \<and> ib_last_hello_from b' \<noteq> ib_last_hello_from b then [now] else []) \<rparr>)"
proof (cases "ib_last_hello_from b \<noteq> None \<and> ib_last_hello_from b' \<noteq> ib_last_hello_from b")
  case False
  then have "ib_last_takeover_at b' = ib_last_takeover_at b"
    using during_takeover[OF dur] by (auto simp: taken_over_def is_live_def split: if_splits)
  then show ?thesis using inv False by (auto intro!: takeover_inv_mono[OF inv(1)])
next
  case True
  then have to: "ib_last_takeover_at b' = Some now" "\<not> takeover_rate_limited now b"
    using during_takeover[OF dur] by (auto simp: taken_over_def split: if_splits)
  let ?k = "tr_takeovers t"
  note unfolded = inv(1)[unfolded takeover_inv_def]
  from unfolded have at: "?k \<noteq> [] \<Longrightarrow> ib_last_takeover_at b = Some (last ?k)"
    and past: "\<forall>x \<in> set ?k. x \<le> tr_clock t"
    and old: "\<And>i. Suc i < length ?k \<Longrightarrow> ?k ! i + TAKEOVER_MIN_INTERVAL \<le> ?k ! Suc i" by simp_all
  have gap: "last ?k + TAKEOVER_MIN_INTERVAL \<le> now" if "?k \<noteq> []"
    using to(2) at[OF that] unfolding takeover_rate_limited_def TAKEOVER_MIN_INTERVAL_def by simp
  have spaced: "(?k @ [now]) ! i + TAKEOVER_MIN_INTERVAL \<le> (?k @ [now]) ! Suc i" if "Suc i < length (?k @ [now])" for i
  proof (cases "Suc i < length ?k")
    case True
    then show ?thesis using old[OF True] by (simp add: nth_append)
  next
    case False
    with that have "i = length ?k - 1" "?k \<noteq> []" by auto
    then show ?thesis using gap by (simp add: nth_append last_conv_nth)
  qed
  have "\<forall>x \<in> set (?k @ [now]). x \<le> now" using past inv(2) by fastforce
  moreover define t' where "t' = t\<lparr> tr_clock := now, tr_takeovers := ?k @ [now] \<rparr>"
  moreover have t': "tr_takeovers t' = ?k @ [now]" "tr_clock t' = now" by (simp_all add: t'_def)
  ultimately have "takeover_inv b' t'"
    unfolding takeover_inv_def t' to(1) using spaced by (intro conjI allI impI) simp_all
  then show ?thesis using True by (simp add: t'_def)
qed

lemma run_inv_feedback:
  assumes "run_inv (b, t)" "tr_clock t \<le> now"
  shows "run_inv (bridge_feedback now h data b, t\<lparr> tr_clock := now, tr_takeovers := tr_takeovers t @
    (if ib_last_hello_from b \<noteq> None \<and> ib_last_hello_from (bridge_feedback now h data b) \<noteq> ib_last_hello_from b
     then [now] else []) \<rparr>)" (is "run_inv (?b, ?t)")
proof -
  have inv: "session_inv b" "handshake_inv b t" "deadline_inv b t" "takeover_inv b t" using assms(1) by simp_all
  have dur: "during now b h ?b" by (rule during_feedback[OF inv(1)])
  note tab = during_table[OF dur]
  have unreg: "ib_wt_sessions ?b g = None" "deadline ?b g = deadline b g" if "ib_wt_sessions b g = None" for g
    using tab(3)[of g] tab(4)[of g] that by simp_all
  have reg: "ib_wt_sessions b g \<noteq> None" if "ib_wt_sessions ?b g \<noteq> None" for g using unreg(1)[of g] that by blast
  have handshake: "ib_wt_sessions b g = None" if "g \<in> tr_handshaking t" for g using inv(2) that by (auto simp: handshake_inv_def)
  have "handshake_inv ?b ?t"
    using inv(2) unfolding handshake_inv_def no_hello_deadline_def tab(1,2) by (simp add: unreg)
  moreover have "deadline_inv ?b ?t"
  proof (rule deadline_inv_mono[OF inv(3)])
    fix g d assume d: "deadline ?b g = Some d" and w: "watched ?b ?t g"
    show "timely ?t g d \<or> deadline b g = Some d \<and> watched b t g \<and> tr_armed ?t g = tr_armed t g"
    proof (cases "ib_wt_sessions ?b g = None")
      case True
      then have "g \<in> tr_handshaking t" "g \<notin> set (ib_newly_accepted b)" using w tab(2) by (auto simp: watched_def)
      then show ?thesis using unreg(2)[OF handshake] d by (simp add: watched_def)
    next
      case False
      then have "deadline b g = Some d \<or> cd_at d \<le> now" using tab(5)[OF d] by auto
      then show ?thesis using reg[OF False] by (auto simp: watched_def timely_def)
    qed
  qed (use assms in simp)
  ultimately show ?thesis
    using session_inv_feedback[OF inv(1)] takeover_inv_feedback[OF inv(4) assms(2) dur] by simp
qed

interpretation session_sys: step_system session_step run_inv
proof
  fix s s' assume "session_step s s'" "run_inv s"
  then show "run_inv s'"
  proof (induction rule: session_step.induct)
    case accept
    from run_inv_accept[OF this(3,1,2)] show ?case .
  next
    case established
    from run_inv_established[OF this(4,1-3)] show ?case .
  next
    case wt_connected
    from run_inv_wt_connected[OF this(3,1,2)] show ?case .
  next
    case feedback
    from run_inv_feedback[OF this(2,1)] show ?case .
  next
    case lost
    then show ?case by (intro run_inv_removed[OF lost(3,1,2)]) (simp_all add: session_simps session_inv_def)
  next
    case reaped
    then show ?case by (intro run_inv_removed[OF reaped(3,1,2)]) (simp_all add: session_simps session_inv_def)
  next
    case revoked
    then show ?case by (intro run_inv_removed[OF revoked(3,1,2)]) (simp_all add: session_simps session_inv_def)
  next
    case sweep
    from run_inv_sweep[OF this(2,1)] show ?case .
  next
    case display
    from run_inv_display[OF this(2,1)] show ?case .
  qed
qed

section \<open>Senders without a session\<close>

text \<open>
  A sender that is neither registered nor live changes nothing but the drop counter and its own buffer: the bridge
  stays equal to the one before up to these two.
\<close>

definition same_but_buffers :: "IoBridge \<Rightarrow> IoBridge \<Rightarrow> bool" where
  "same_but_buffers b0 b \<longleftrightarrow>
     b\<lparr> fs_recv_bufs := fs_recv_bufs b0, fs_non_live_drops := fs_non_live_drops b0 \<rparr> = b0"

lemma same_but_buffers_fields:
  assumes "same_but_buffers b0 b"
  shows "ib_wt_sessions b = ib_wt_sessions b0" "is_live h b = is_live h b0"
  using arg_cong[OF assms[unfolded same_but_buffers_def], of ib_wt_sessions]
    arg_cong[OF assms[unfolded same_but_buffers_def], of "is_live h"] by simp_all

lemma unregistered_handle:
  assumes "ib_wt_sessions b from = None" "\<not> is_live from b" "is_hello m \<or> is_live from b"
  shows "handle_feedback now from m b = b"
  using assms by (cases m) (simp_all add: hello_unregistered)

interpretation stranger: feedback_handler is_live "handle_feedback now"
  "\<lambda>from b. ib_wt_sessions b0 from = None \<and> \<not> is_live from b0 \<and> same_but_buffers b0 b" for now b0
proof
  fix f "from" m
  assume a: "ib_wt_sessions b0 from = None \<and> \<not> is_live from b0 \<and> same_but_buffers b0 f" "is_hello m \<or> is_live from f"
  then have "handle_feedback now from m f = f"
    by (intro unregistered_handle) (simp_all add: same_but_buffers_fields[of b0 f])
  then show "ib_wt_sessions b0 from = None \<and> \<not> is_live from b0 \<and> same_but_buffers b0 (handle_feedback now from m f)"
    using a by simp
qed (simp_all add: handle_keeps_buffer same_but_buffers_def)



lemma close_due_calls: "set (ib_calls b) \<subseteq> set (ib_calls (close_due e b))"
  by (auto simp: close_due_def forget_session_def note_call_def Let_def)

lemma close_due_closes: "fst e \<in> set (ib_connections b) \<Longrightarrow> CloseConnection (fst e) (cd_code (snd e)) \<in> set (ib_calls (close_due e b))"
  by (auto simp: close_due_def forget_session_def note_call_def Let_def)

lemma close_fold_calls: "set (ib_calls b) \<subseteq> set (ib_calls (fold close_due es b))"
proof (induction es arbitrary: b)
  case (Cons e es)
  then show ?case using close_due_calls[of b e] by (force)
qed simp

lemma close_fold_closes:
  "e \<in> set es \<Longrightarrow> fst e \<in> set (ib_connections b) \<Longrightarrow>
   CloseConnection (fst e) (cd_code (snd e)) \<in> set (ib_calls (fold close_due es b))"
proof (induction es arbitrary: b)
  case (Cons e' es)
  show ?case
  proof (cases "e = e'")
    case True
    then show ?thesis using close_due_closes[of e b] close_fold_calls[of "close_due e b" es] Cons.prems(2) by auto
  next
    case False
    then show ?thesis using Cons by (simp add: session_simps)
  qed
qed simp

section \<open>Running events\<close>

text \<open>The events as data, to run concrete sequences of them.\<close>

datatype session_event =
    Accept nat | Established nat | Feedback_from nat bytes | Sweep

fun session_ok :: "session_event \<Rightarrow> nat \<Rightarrow> IoBridge \<times> trace \<Rightarrow> bool" where
  "session_ok (Accept h) now (b, t) = (tr_clock t \<le> now \<and> h \<notin> set (ib_connections b))"
| "session_ok (Established h) now (b, t) =
     (tr_clock t \<le> now \<and> h \<in> tr_handshaking t \<and> h \<notin> set (ib_newly_accepted b))"
| "session_ok (Feedback_from h data) now (b, t) = (tr_clock t \<le> now)"
| "session_ok Sweep now (b, t) = (tr_clock t \<le> now)"

fun session_exec :: "session_event \<Rightarrow> nat \<Rightarrow> IoBridge \<times> trace \<Rightarrow> IoBridge \<times> trace" where
  "session_exec (Accept h) now (b, t) =
     (b\<lparr> ib_connections := h # ib_connections b, ib_newly_accepted := ib_newly_accepted b @ [h] \<rparr>,
      t\<lparr> tr_handshaking := insert h (tr_handshaking t), tr_clock := now \<rparr>)"
| "session_exec (Established h) now (b, t) =
     (on_connection_established now h b, t\<lparr> tr_handshaking := tr_handshaking t - {h}, tr_clock := now \<rparr>)"
| "session_exec (Feedback_from h data) now (b, t) =
     (let b' = bridge_feedback now h data b in (b',
      t\<lparr> tr_clock := now,
         tr_takeovers := tr_takeovers t @
           (if ib_last_hello_from b \<noteq> None \<and> ib_last_hello_from b' \<noteq> ib_last_hello_from b
            then [now] else []) \<rparr>))"
| "session_exec Sweep now (b, t) =
     (let b' = sweep_close_deadlines now b in (b',
      t\<lparr> tr_handshaking := {h \<in> tr_handshaking t. deadline b' h \<noteq> None},
         tr_armed := (\<lambda>h. if h \<in> set (ib_newly_accepted b) then now else tr_armed t h), tr_clock := now \<rparr>))"

fun session_run :: "(session_event \<times> nat) list \<Rightarrow> IoBridge \<times> trace \<Rightarrow> (IoBridge \<times> trace) option" where
  "session_run [] s = Some s"
| "session_run ((e, now) # es) s = (if session_ok e now s then session_run es (session_exec e now s) else None)"

lemma session_exec_step: "session_ok e now s \<Longrightarrow> session_step s (session_exec e now s)"
proof (cases s; cases e)
  fix b t h data assume "session_ok e now s" "s = (b, t)" "e = Feedback_from h data"
  then show ?thesis using session_step.feedback[of t now b h data] by (simp add: Let_def)
next
  fix b t assume "session_ok e now s" "s = (b, t)" "e = Sweep"
  then show ?thesis using session_step.sweep[of t now b] by (simp add: Let_def)
qed (auto intro: session_step.accept session_step.established)

lemma session_run_reaches: "session_run es s = Some s' \<Longrightarrow> session_step\<^sup>*\<^sup>* s s'"
proof (induction es s rule: session_run.induct)
  case (2 e now es s)
  then show ?case by (auto split: if_splits dest!: session_exec_step intro: converse_rtranclp_into_rtranclp)
qed simp

section \<open>Properties\<close>

definition trace_new :: trace where
  "trace_new = \<lparr> tr_handshaking = {}, tr_armed = (\<lambda>_. 0), tr_clock = 0, tr_takeovers = [] \<rparr>"

lemma run_inv_new: "run_inv (IoBridge_new, trace_new)"
  by (simp add: IoBridge_new_def trace_new_def session_inv_def handshake_inv_def deadline_inv_def takeover_inv_def
      is_live_def deadlines_distinct_def deadline_def)

lemmas reachable_inv = session_sys.inv_run[OF _ run_inv_new]

text \<open>A concrete run: three clients connect and say HELLO one after the other, each displacing the one before.\<close>

definition three_established :: "(session_event \<times> nat) list" where
  "three_established = [(Accept 11, 0), (Accept 12, 0), (Accept 13, 0), (Sweep, 0), (Established 11, 1), (Established 12, 1),
     (Established 13, 1)]"

definition three_clients :: "(session_event \<times> nat) list" where
  "three_clients = three_established @
     [(Feedback_from 11 [3, 7], 5), (Feedback_from 12 [3, 7], 10), (Feedback_from 13 [3, 7], 1000010)]"

lemma session_run_append:
  "session_run (es @ fs) s = (case session_run es s of None \<Rightarrow> None | Some s' \<Rightarrow> session_run fs s')"
  by (induction es s rule: session_run.induct) simp_all

lemmas run_defs = trace_new_def IoBridge_new_def arm_accepted_def track_recheck_def arm_hello_deadline_def insert_deadline_def
  sweep_close_deadlines_def close_due_def on_connection_established_def forget_session_def note_call_def is_live_def
  deadline_def HELLO_DEADLINE_def Let_def

definition bridge_after :: "(session_event \<times> nat) list \<Rightarrow> IoBridge" where
  "bridge_after es = fst (the (session_run es (IoBridge_new, trace_new)))"

definition trace_after :: "(session_event \<times> nat) list \<Rightarrow> trace" where
  "trace_after es = snd (the (session_run es (IoBridge_new, trace_new)))"

definition full_caps :: ClientCapabilities where
  "full_caps = \<lparr> cc_indices_raw_enabled = True, cc_supports_h264 = True, cc_h264_acked_ref = True \<rparr>"

lemma feedback_hello:
  assumes "fs_recv_bufs b from = []"
  shows "bridge_feedback now from [3, 7] b = apply_hello now from full_caps b"
proof -
  have hello: "[3, 7] = fm_bytes (FM_Hello full_caps)"
    by (simp add: full_caps_def encode_hello_def msg_types HELLO_CAP_INDICES_RAW_def HELLO_CAP_SUPPORTS_H264_def
        HELLO_CAP_H264_ACKED_REF_def)
  have "foldl (\<lambda>f c. dispatch_feedback_bytes is_live (handle_feedback now) from c f) b [[3, 7]] =
      fold (handle_feedback now from) [FM_Hello full_caps] b"
    using bridge.dispatch_chunks[OF assms, of "[]" "[[3, 7]]" "[FM_Hello full_caps]" now] hello
    by (simp add: stream_def partial_def encode_hello_def Let_def)
  then show ?thesis by (simp add: bridge_feedback_def)
qed

text \<open>The three takeovers of the run, step by step.\<close>

lemma three_established_run:
  "case session_run three_established (IoBridge_new, trace_new) of None \<Rightarrow> False | Some (b, t) \<Rightarrow>
     ib_wt_sessions b = (\<lambda>_. None)(11 \<mapsto> False, 12 \<mapsto> False, 13 \<mapsto> False) \<and> ib_last_hello_from b = None \<and>
     ib_last_takeover_at b = None \<and> fs_recv_bufs b = (\<lambda>_. []) \<and> tr_clock t = 1 \<and> tr_takeovers t = [] \<and> tr_armed t 12 = 0"
  by (simp add: three_established_def run_defs fun_eq_iff)

lemma three_established_state:
  shows "session_run three_established (IoBridge_new, trace_new) =
      Some (bridge_after three_established, trace_after three_established)"
    "ib_wt_sessions (bridge_after three_established) = (\<lambda>_. None)(11 \<mapsto> False, 12 \<mapsto> False, 13 \<mapsto> False)"
    "ib_last_hello_from (bridge_after three_established) = None"
    "ib_last_takeover_at (bridge_after three_established) = None"
    "fs_recv_bufs (bridge_after three_established) = (\<lambda>_. [])"
    "tr_clock (trace_after three_established) = 1" "tr_takeovers (trace_after three_established) = []"
    "tr_armed (trace_after three_established) 12 = 0"
  using three_established_run by (auto simp: bridge_after_def trace_after_def split: option.splits)

definition after_1 :: IoBridge where "after_1 = bridge_feedback 5 11 [3, 7] (bridge_after three_established)"
definition after_2 :: IoBridge where "after_2 = bridge_feedback 10 12 [3, 7] after_1"
definition after_3 :: IoBridge where "after_3 = bridge_feedback 1000010 13 [3, 7] after_2"

lemmas hello_views = feedback_hello hello_accepted hello_refused_def displaces_def is_live_def evictee_def
  takeover_rate_limited_def TAKEOVER_MIN_INTERVAL_def

lemma after_1_state:
  "ib_last_hello_from after_1 = Some 11" "ib_last_takeover_at after_1 = None" "fs_recv_bufs after_1 = (\<lambda>_. [])"
  "ib_wt_sessions after_1 = (\<lambda>_. None)(11 \<mapsto> False, 12 \<mapsto> False, 13 \<mapsto> False)"
  by (simp_all add: after_1_def hello_views three_established_state)

lemma after_2_state:
  "ib_last_hello_from after_2 = Some 12" "ib_last_takeover_at after_2 = Some 10" "fs_recv_bufs after_2 = (\<lambda>_. [])"
  "ib_wt_sessions after_2 = (\<lambda>_. None)(12 \<mapsto> False, 13 \<mapsto> False)"
  by (simp_all add: after_2_def hello_views after_1_state fun_eq_iff)

lemma after_3_state:
  "ib_last_hello_from after_3 = Some 13" "ib_wt_sessions after_3 = (\<lambda>_. None)(13 \<mapsto> False)"
  by (simp_all add: after_3_def hello_views after_2_state fun_eq_iff)

lemma first_client_run:
  "\<exists>t. session_run (three_established @ [(Feedback_from 11 [3, 7], 5)]) (IoBridge_new, trace_new) = Some (after_1, t) \<and>
     tr_clock t = 5 \<and> tr_armed t 12 = 0"
  by (simp add: session_run_append three_established_state Let_def flip: after_1_def)

lemma three_clients_run:
  "\<exists>t. session_run three_clients (IoBridge_new, trace_new) = Some (after_3, t) \<and> tr_takeovers t = [10, 1000010]"
  by (simp add: three_clients_def session_run_append three_established_state Let_def after_1_state after_2_state
      after_3_state flip: after_1_def after_2_def after_3_def)





text \<open>
  C23. Takeovers are rate limited.  In every run, the times at which a live session was displaced by another
  connection are at least \<open>TAKEOVER_MIN_INTERVAL\<close> apart, whatever the clients send.
\<close>

theorem takeovers_paced:
  assumes "session_step\<^sup>*\<^sup>* (IoBridge_new, trace_new) (b, t)"
    and "i < j" "j < length (tr_takeovers t)"
  shows "tr_takeovers t ! i + TAKEOVER_MIN_INTERVAL \<le> tr_takeovers t ! j"
proof -
  have "takeover_inv b t" using reachable_inv[OF assms(1)] by simp
  then have step: "tr_takeovers t ! k + TAKEOVER_MIN_INTERVAL \<le> tr_takeovers t ! Suc k" if "Suc k < length (tr_takeovers t)" for k
    using that by (simp add: takeover_inv_def)
  from assms(2,3) show ?thesis
  proof (induction j)
    case (Suc j)
    then show ?case using step[of j] by (cases "i = j") auto
  qed simp
qed

theorem takeovers_paced_witness:
  "\<exists>t. session_step\<^sup>*\<^sup>* (IoBridge_new, trace_new) (after_3, t) \<and> tr_takeovers t = [10, 1000010] \<and>
     tr_takeovers t ! 0 + TAKEOVER_MIN_INTERVAL \<le> tr_takeovers t ! 1"
proof -
  obtain t where "session_run three_clients (IoBridge_new, trace_new) = Some (after_3, t)" "tr_takeovers t = [10, 1000010]"
    using three_clients_run by blast
  moreover from this(1) have run: "session_step\<^sup>*\<^sup>* (IoBridge_new, trace_new) (after_3, t)" by (rule session_run_reaches)
  moreover have "tr_takeovers t ! 0 + TAKEOVER_MIN_INTERVAL \<le> tr_takeovers t ! 1"
    by (rule takeovers_paced[OF run]) (simp_all add: \<open>tr_takeovers t = [10, 1000010]\<close>)
  ultimately show ?thesis by blast
qed

text \<open>
  C24. A sender without a session has no effect.  Whatever bytes arrive from a connection that is not registered (an
  evicted or never established one) and not live, the bridge changes in nothing but that connection's buffer and the
  drop counter: no input is injected, no session taken over, no subsystem called.
\<close>

theorem unregistered_sender_inert:
  assumes "ib_wt_sessions b from = None" "\<not> is_live from b"
  shows "(bridge_feedback now from data b)
    \<lparr> fs_recv_bufs := fs_recv_bufs b, fs_non_live_drops := fs_non_live_drops b \<rparr> = b"
  using stranger.dispatch_inv[of b "from" b now data] assms
  by (simp add: bridge_feedback_def same_but_buffers_def)

theorem unregistered_sender_inert_witness:
  "(bridge_feedback 2000000 11 [3, 7, 5, 4, 0, 0, 255, 13] after_3)
    \<lparr> fs_recv_bufs := fs_recv_bufs after_3, fs_non_live_drops := fs_non_live_drops after_3 \<rparr> = after_3"
  by (rule unregistered_sender_inert) (simp_all add: after_3_state is_live_def)



text \<open>What a takeover leaves of the state the displaced session had set.\<close>

named_theorems content_simps

lemma note_call_content [content_simps]:
  "ib_palette_table (note_call c b) = ib_palette_table b"
  "ib_adaptation_context (note_call c b) = ib_adaptation_context b"
  "ib_has_seen_prior_session (note_call c b) = ib_has_seen_prior_session b"
  "ib_display_scale_milli (note_call c b) = ib_display_scale_milli b"
  "ib_pending_display_mode (note_call c b) = ib_pending_display_mode b"
  "ib_client_caps (note_call c b) = ib_client_caps b"
  "ib_session_started_at (note_call c b) = ib_session_started_at b"
  by (simp_all add: note_call_def)

lemma note_call_pow_content [content_simps]:
  "ib_palette_table ((note_call c ^^ n) b) = ib_palette_table b"
  "ib_adaptation_context ((note_call c ^^ n) b) = ib_adaptation_context b"
  "ib_has_seen_prior_session ((note_call c ^^ n) b) = ib_has_seen_prior_session b"
  "ib_display_scale_milli ((note_call c ^^ n) b) = ib_display_scale_milli b"
  "ib_pending_display_mode ((note_call c ^^ n) b) = ib_pending_display_mode b"
  "ib_client_caps ((note_call c ^^ n) b) = ib_client_caps b"
  by (induction n) (simp_all add: content_simps)

lemma forget_session_content [content_simps]:
  "ib_palette_table (forget_session g b) = ib_palette_table b"
  "ib_adaptation_context (forget_session g b) = ib_adaptation_context b"
  "ib_has_seen_prior_session (forget_session g b) = ib_has_seen_prior_session b"
  "ib_display_scale_milli (forget_session g b) = ib_display_scale_milli b"
  "ib_pending_display_mode (forget_session g b) = ib_pending_display_mode b"
  "ib_client_caps (forget_session g b) = ib_client_caps b"
  by (simp_all add: forget_session_def content_simps Let_def)

lemma evict_session_content [content_simps]:
  "ib_palette_table (evict_session now g reason b) = ib_palette_table b"
  "ib_adaptation_context (evict_session now g reason b) = ib_adaptation_context b"
  "ib_has_seen_prior_session (evict_session now g reason b) = ib_has_seen_prior_session b"
  "ib_display_scale_milli (evict_session now g reason b) = ib_display_scale_milli b"
  "ib_pending_display_mode (evict_session now g reason b) = ib_pending_display_mode b"
  "ib_client_caps (evict_session now g reason b) = ib_client_caps b"
  by (simp_all add: evict_session_def insert_deadline_def content_simps Let_def)

lemma fire_session_reset_content [content_simps]:
  "ib_adaptation_context (fire_session_reset b) = ib_adaptation_context b"
  "ib_has_seen_prior_session (fire_session_reset b) = ib_has_seen_prior_session b"
  "ib_display_scale_milli (fire_session_reset b) = ib_display_scale_milli b"
  "ib_pending_display_mode (fire_session_reset b) = ib_pending_display_mode b"
  "ib_client_caps (fire_session_reset b) = ib_client_caps b"
  "ib_palette_table (fire_session_reset b) = on_session_reset False (ib_palette_table b)"
  "ib_session_started_at (fire_session_reset b) = ib_session_started_at b"
  by (simp_all add: fire_session_reset_def content_simps Let_def)

lemma begin_session_content [content_simps]:
  "ib_adaptation_context (begin_session now incumbent b) = ib_adaptation_context b"
  "ib_display_scale_milli (begin_session now incumbent b) = DEFAULT_SCALE_MILLI"
  "ib_pending_display_mode (begin_session now incumbent b) = None"
  "ib_session_started_at (begin_session now incumbent b) = Some now"
  "ib_palette_table (begin_session now incumbent b) =
     (if ib_has_seen_prior_session b then on_session_reset False (ib_palette_table b) else ib_palette_table b)"
  by (simp_all add: begin_session_def reset_session_instruments_def content_simps Let_def split: option.split)

lemma takeover_state:
  fixes caps :: ClientCapabilities
  assumes "ib_wt_sessions b from \<noteq> None" "\<not> hello_refused now from b" "\<not> is_live from b"
  defines "b' \<equiv> apply_hello now from caps b"
  shows "ib_client_caps b' = caps"
    "ib_adaptation_context b' = (ib_adaptation_context b)
       \<lparr> ac_supports_h264 := cc_supports_h264 caps \<and> cc_h264_acked_ref caps,
         ac_last_update_seq := ac_last_update_seq (ib_adaptation_context b) + 1 \<rparr>"
    "ib_display_scale_milli b' = DEFAULT_SCALE_MILLI" "ib_pending_display_mode b' = None" "ib_session_started_at b' = Some now"
    "ib_palette_table b' =
       (if ib_has_seen_prior_session b then on_session_reset False (ib_palette_table b) else ib_palette_table b)"
  using assms(1-3) unfolding b'_def
  by (auto simp: apply_hello_def hello_refused_def displaces_def is_live_def push_adaptation_def content_simps Let_def)



text \<open>The suspension flag of the displaced session is not among the state a takeover resets.\<close>

theorem suspension_survives_takeover:
  assumes "ib_wt_sessions b from \<noteq> None" "is_live i b" "i \<noteq> from" "\<not> takeover_rate_limited now b"
  shows "ac_suspended (ib_adaptation_context (apply_hello now from caps b)) = ac_suspended (ib_adaptation_context b)"
proof -
  have "\<not> is_live from b" using assms(2,3) live_unique by blast
  with assms(1,4) show ?thesis using takeover_state(2)[of b "from" now caps] by (simp add: hello_refused_def)
qed

text \<open>
  C26. The feedback stream is reassembled exactly.  However the stream of messages a client writes is cut into
  chunks, inside a message or across several, each message is handled once and in order, and nothing is left over.
  The sender has to be the live session at each message other than a HELLO.
\<close>

theorem feedback_stream_reassembled:
  assumes "concat cs = concat (map fm_bytes ms)" "fs_recv_bufs b from = []"
    and "admitted (is_live from) (handle_feedback now from) ms b"
  shows "foldl (\<lambda>b c. bridge_feedback now from c b) b cs = fold (handle_feedback now from) ms b"
  using bridge.dispatch_chunks[of b "from" "[]" cs ms now] assms length_fm_bytes_pos
  by (simp add: bridge_feedback_def stream_def partial_def split: list.split)

text \<open>A HELLO and a button press, cut inside both.\<close>

theorem feedback_stream_reassembled_witness:
  "foldl (\<lambda>b c. bridge_feedback 5 11 c b) (bridge_after three_established) [[3], [7, 5, 2, 0], [1, 0, 2, 1, 1]] =
   handle_feedback 5 11 (FM_Input (PointerButton 1 2 1 True)) after_1"
proof -
  have whole: "concat [[3], [7, 5, 2, 0], [1, 0, 2, 1, 1]] =
      concat (map fm_bytes [FM_Hello full_caps, FM_Input (PointerButton 1 2 1 True)])"
    by (simp add: full_caps_def encode_hello_def encode_pointer_button_def msg_types HELLO_CAP_INDICES_RAW_def
        HELLO_CAP_SUPPORTS_H264_def HELLO_CAP_H264_ACKED_REF_def)
  have "after_1 = apply_hello 5 11 full_caps (bridge_after three_established)"
    by (simp add: after_1_def feedback_hello three_established_state)
  with feedback_stream_reassembled[OF whole, of "bridge_after three_established" 11 5] after_1_state(1) show ?thesis
    by (simp add: three_established_state is_live_def)
qed

text \<open>
  C27. Only the live session acts.  For every byte string and every state, the feedback of a sender is handled as if
  every message but a HELLO were skipped while the sender is not live, and what is kept of its bytes is shorter than
  the longest message.
\<close>

theorem only_live_session_acts:
  "bridge_feedback now from data b =
     dispatch_feedback_bytes is_live (\<lambda>from. guarded (is_live from) (handle_feedback now from)) from data b \<and>
   length (fs_recv_bufs (bridge_feedback now from data b) from) < FEEDBACK_SIZE"
  using bridge.dispatch_buffer_bound[of now "from" data b]
  by (simp add: bridge_feedback_def dispatch_feedback_bytes_def loop_guarded)

text \<open>
  C28. Malformed feedback does not wedge the stream.  From the live session, a reset request with an undefined reason
  is skipped and the message behind it is handled; an unknown message type or an unknown kind of input discards the
  chunk and changes nothing.
\<close>

theorem malformed_feedback:
  assumes "is_live from b" "fs_recv_bufs b from = []"
  shows "(ResetReason_from_u8 r = None \<longrightarrow>
      bridge_feedback now from ([RESET_REQUEST_MSG_TYPE, r, s1, s2, s3, s4] @ fm_bytes m) b = handle_feedback now from m b) \<and>
    (k \<notin> {1, 3, 4, 5, 7, 8, 9} \<longrightarrow> bridge_feedback now from (k # rest) b = b) \<and>
    (required_len k = None \<longrightarrow> bridge_feedback now from (INPUT_MSG_TYPE # k # rest) b = b)"
proof -
  have bufs: "b\<lparr> fs_recv_bufs := (fs_recv_bufs b)(from := []) \<rparr> = b" using assms(2) by (simp add: fun_upd_idem)
  have loop: "feedback_loop (is_live from) (handle_feedback now from) xs b =
      (case feedback_turn xs of Wait \<Rightarrow> (b, xs) | Discard \<Rightarrow> (b, [])
       | Take m n \<Rightarrow> feedback_loop (is_live from) (handle_feedback now from) (drop n xs)
           (case m of Some msg \<Rightarrow> handle_feedback now from msg b | None \<Rightarrow> b))" if "xs \<noteq> []" for xs
    using that assms(1) by (subst feedback_loop.simps) simp
  have turn: "feedback_turn ([RESET_REQUEST_MSG_TYPE, r, s1, s2, s3, s4] @ fm_bytes m) = Take None 6"
    if "ResetReason_from_u8 r = None"
    using that by (simp add: feedback_turn_def fixed_def msg_types ResetRequest_decode_def)
  have "feedback_turn (k # rest) = Discard" if "k \<notin> {1, 3, 4, 5, 7, 8, 9}"
    using that by (auto simp: feedback_turn_def msg_types Let_def)
  moreover have "feedback_turn (INPUT_MSG_TYPE # k # rest) = Discard" if "required_len k = None"
    using that by (simp add: feedback_turn_def msg_types)
  moreover have "feedback_loop (is_live from) (handle_feedback now from) (fm_bytes m) b = (handle_feedback now from m b, [])"
    using loop[OF length_fm_bytes_pos[of m]] turn_complete[of m "[]"] by (simp add: feedback_loop.simps)
  ultimately show ?thesis using turn loop
    by (simp add: bridge_feedback_def dispatch_feedback_bytes_def assms(2) bufs)
qed

theorem malformed_feedback_witness:
  "bridge_feedback 6 11 [9, 77, 0, 0, 0, 0, 8, 4, 0, 3, 0] after_1 =
     handle_feedback 6 11 (FM_DisplayMode \<lparr> dm_width = 1024, dm_height = 768 \<rparr>) after_1"
proof -
  have "[8, 4, 0, 3, 0] = fm_bytes (FM_DisplayMode \<lparr> dm_width = 1024, dm_height = 768 \<rparr>)" by code_simp
  then show ?thesis using malformed_feedback[of 11 after_1 77 6 0 0 0 0 "FM_DisplayMode \<lparr> dm_width = 1024, dm_height = 768 \<rparr>" 0 "[]"]
    by (simp add: after_1_state is_live_def msg_types ResetReason_from_u8_def del: fm_bytes.simps)
qed

lemma align_down: "unat (w div 8 * 8 :: u16) = unat w div 8 * 8"
proof -
  have "unat w div 8 * 8 \<le> unat w" by simp
  then have "unat w div 8 * 8 < 2 ^ 16" using unsigned_less[of w, where 'a = nat] by simp
  then show ?thesis by (simp add: unat_word_ariths unat_div)
qed

lemma clamp_and_align_nat:
  "unat (fst (clamp_and_align_mode w h c)) = max (min (unat w) (unat (fst c)) div 8 * 8) 320"
  "unat (snd (clamp_and_align_mode w h c)) = max (min (unat h) (unat (snd c))) 240"
proof -
  have min_max: "unat (min x y) = min (unat x) (unat y)" "unat (max x y) = max (unat x) (unat y)" for x y :: u16
    by (simp_all add: min_def max_def word_le_nat_alt)
  show "unat (fst (clamp_and_align_mode w h c)) = max (min (unat w) (unat (fst c)) div 8 * 8) 320"
    by (simp add: clamp_and_align_mode_def Let_def MODE_WIDTH_GRANULARITY_def MIN_MODE_WIDTH_def min_max align_down)
  show "unat (snd (clamp_and_align_mode w h c)) = max (min (unat h) (unat (snd c))) 240"
    by (simp add: clamp_and_align_mode_def Let_def MIN_MODE_HEIGHT_def min_max)
qed



text \<open>A ceiling below the floor is exceeded.\<close>

lemma mode_above_small_ceiling: "clamp_and_align_mode 1024 768 (300, 200) = (320, 240)"
  by code_simp

end
