(* ===== verification/Spec2Isabelle.thy ===== *)
theory Spec2Isabelle
  imports Prelude Wire Envelopes Pal_Rle Palette_Table Cdf53 Cdf53_Passes Cdf53_Client Cdf53_Tiles Batchers Tile_Decoder Tile_Batch Fec H264_Gate Loss Client_State Feedback Session Session_Runs
begin

text \<open>
  A verification library for ghostframe, a remote-display system that sends a desktop as H.264
  frames and as tiles of 32 by 32 pixels over an unreliable datagram transport.
\<close>

end
